(* ===== verification/Prelude.thy ===== *)
theory Prelude
  imports Main "HOL-Library.Word" "HOL-Library.AList"
begin

text \<open>
  Shared vocabulary of the development: the machine types (\<open>u64\<close> counters as natural
  numbers with the wrap-around of subtraction written out, byte strings), the result
  type of handlers that can panic or return \<open>Err\<close>, hash chains of numbered blocks, the
  binary search of the standard library, big-endian byte strings, and the list lemmas
  that the components share.
\<close>

section \<open>Types\<close>

type_synonym u64 = nat
type_synonym u8 = "8 word"
type_synonym bytes = "u8 list"

text \<open>
  Facts that describe single handlers go to \<open>handler_simps\<close>, facts about one field of a
  state after an operation to \<open>frame_simps\<close>.
\<close>

named_theorems handler_simps
named_theorems frame_simps

section \<open>Faults\<close>

text \<open>
  A handler of the source returns, returns \<open>Err(())\<close> (the worker loop of the component
  then stops), or panics (the release profile aborts the process). A handler with a loop
  of its own may also not return. The failures are values of \<open>fault\<close>, and a handler's
  model has type \<open>fault + 'a\<close>.
\<close>

datatype fault =
    Unwrap_None      \<comment> \<open>\<open>unwrap()\<close> or \<open>expect\<close> on \<open>None\<close> or \<open>Err\<close>\<close>
  | Assertion        \<comment> \<open>\<open>assert!\<close>, \<open>assert_eq!\<close>\<close>
  | Out_Of_Bounds    \<comment> \<open>index or slice out of range\<close>
  | Division_By_Zero \<comment> \<open>\<open>%\<close> or \<open>/\<close> with divisor 0\<close>
  | Explicit_Panic   \<comment> \<open>\<open>panic!\<close>, \<open>unreachable!\<close>\<close>
  | Err_Unit         \<comment> \<open>the value \<open>Err(())\<close>\<close>
  | Diverges         \<comment> \<open>a loop of the handler does not end\<close>

type_synonym 'a result = "fault + 'a"

fun bindE :: "'e + 'a \<Rightarrow> ('a \<Rightarrow> 'e + 'b) \<Rightarrow> 'e + 'b" where
  "bindE (Inl e) f = Inl e"
| "bindE (Inr x) f = f x"

fun mapE :: "('a \<Rightarrow> 'b) \<Rightarrow> 'e + 'a \<Rightarrow> 'e + 'b" where
  "mapE f (Inl e) = Inl e"
| "mapE f (Inr x) = Inr (f x)"

definition assertE :: "fault \<Rightarrow> bool \<Rightarrow> unit result" where
  "assertE e b = (if b then Inr () else Inl e)"

definition unwrap :: "'a option \<Rightarrow> 'a result" where
  "unwrap x = (case x of None \<Rightarrow> Inl Unwrap_None | Some y \<Rightarrow> Inr y)"

fun foldE :: "('a \<Rightarrow> 's \<Rightarrow> 'e + 's) \<Rightarrow> 'a list \<Rightarrow> 's \<Rightarrow> 'e + 's" where
  "foldE f [] s = Inr s"
| "foldE f (x # xs) s = bindE (f x s) (foldE f xs)"

fun mapsE :: "('a \<Rightarrow> 'e + 'b) \<Rightarrow> 'a list \<Rightarrow> 'e + 'b list" where
  "mapsE f [] = Inr []"
| "mapsE f (x # xs) = bindE (f x) (\<lambda>y. mapE ((#) y) (mapsE f xs))"

text \<open>A loop that may not end is a \<open>partial_function\<close>; its \<open>None\<close> becomes a fault.\<close>

definition returnsE :: "'a result option \<Rightarrow> 'a result" where
  "returnsE r = (case r of None \<Rightarrow> Inl Diverges | Some x \<Rightarrow> x)"

lemma returnsE_simps [simp]: "returnsE None = Inl Diverges" "returnsE (Some x) = x"
  by (simp_all add: returnsE_def)

lemma returnsE_Inr_conv: "returnsE r = Inr x \<longleftrightarrow> r = Some (Inr x)"
  by (cases r) simp_all

lemma bindE_Inr_conv: "bindE m f = Inr y \<longleftrightarrow> (\<exists>x. m = Inr x \<and> f x = Inr y)"
  by (cases m) auto

lemma bindE_Inl_conv: "bindE m f = Inl e \<longleftrightarrow> m = Inl e \<or> (\<exists>x. m = Inr x \<and> f x = Inl e)"
  by (cases m) auto

lemma mapE_Inr_conv: "mapE f m = Inr y \<longleftrightarrow> (\<exists>x. m = Inr x \<and> y = f x)"
  by (cases m) auto

lemma assertE_Inr_conv [simp]: "assertE e b = Inr u \<longleftrightarrow> b"
  by (simp add: assertE_def)

lemma assertE_True [simp]: "assertE e True = Inr ()"
  by (simp add: assertE_def)

lemma assertE_False [simp]: "assertE e False = Inl e"
  by (simp add: assertE_def)

lemma unwrap_simps [simp]: "unwrap None = Inl Unwrap_None" "unwrap (Some y) = Inr y"
  by (simp_all add: unwrap_def)

lemma unwrap_Inr_conv: "unwrap x = Inr y \<longleftrightarrow> x = Some y"
  by (cases x) auto

lemmas resultE = bindE_Inr_conv mapE_Inr_conv unwrap_Inr_conv returnsE_Inr_conv

lemma bindE_InrE:
  assumes "bindE m f = Inr y" obtains x where "m = Inr x" and "f x = Inr y"
  using assms by (auto simp: bindE_Inr_conv)

lemma mapE_InrE:
  assumes "mapE f m = Inr y" obtains x where "m = Inr x" and "y = f x"
  using assms by (auto simp: mapE_Inr_conv)

lemmas result_elims = bindE_InrE mapE_InrE

lemmas case_splits = sum.split_asm option.split_asm if_split_asm

lemma foldE_append: "foldE f (xs @ ys) s = bindE (foldE f xs s) (foldE f ys)"
proof (induction xs arbitrary: s)
  case (Cons x xs)
  then show ?case by (cases "f x s") auto
qed simp

lemma foldE_snoc: "foldE f (xs @ [x]) s = bindE (foldE f xs s) (f x)"
proof (cases "foldE f xs s")
  case (Inr t)
  then show ?thesis by (cases "f x t") (simp_all add: foldE_append)
qed (simp add: foldE_append)

lemma foldE_invariant:
  assumes "foldE f xs s = Inr t" and "I s"
    and "\<And>x s t. x \<in> set xs \<Longrightarrow> I s \<Longrightarrow> f x s = Inr t \<Longrightarrow> I t"
  shows "I t"
  using assms
proof (induction xs arbitrary: s)
  case Nil
  then show ?case by simp
next
  case (Cons x xs)
  from Cons.prems(1) obtain u where u: "f x s = Inr u" and rest: "foldE f xs u = Inr t"
    by (auto simp: bindE_Inr_conv)
  have "I u" by (rule Cons.prems(3) [OF _ Cons.prems(2) u]) simp
  with rest show ?case
  proof (rule Cons.IH)
    fix y s t assume "y \<in> set xs" "I s" "f y s = Inr t"
    then show "I t" by (intro Cons.prems(3) [of y s t]) simp_all
  qed
qed

lemma foldE_total:
  assumes "I s" and "\<And>x s. x \<in> set xs \<Longrightarrow> I s \<Longrightarrow> \<exists>t. f x s = Inr t \<and> I t"
  shows "\<exists>t. foldE f xs s = Inr t \<and> I t"
  using assms
proof (induction xs arbitrary: s)
  case Nil
  then show ?case by simp
next
  case (Cons x xs)
  have "\<exists>t. f x s = Inr t \<and> I t" by (rule Cons.prems(2) [OF _ Cons.prems(1)]) simp
  then obtain u where u: "f x s = Inr u" and "I u" by blast
  from \<open>I u\<close> have "\<exists>t. foldE f xs u = Inr t \<and> I t"
  proof (rule Cons.IH)
    fix y s assume "y \<in> set xs" "I s"
    then show "\<exists>t. f y s = Inr t \<and> I t" by (intro Cons.prems(2) [of y s]) simp_all
  qed
  with u show ?case by simp
qed

lemma mapsE_Inr_length: "mapsE f xs = Inr ys \<Longrightarrow> length ys = length xs"
  by (induction xs arbitrary: ys) (auto simp: resultE)

lemma mapsE_Inr_nth: "mapsE f xs = Inr ys \<Longrightarrow> i < length xs \<Longrightarrow> f (xs ! i) = Inr (ys ! i)"
proof (induction xs arbitrary: ys i)
  case (Cons x xs)
  then show ?case by (cases i) (auto simp: resultE)
qed simp

lemma mapsE_total: "(\<And>x. x \<in> set xs \<Longrightarrow> f x = Inr (g x)) \<Longrightarrow> mapsE f xs = Inr (map g xs)"
  by (induction xs) auto

section \<open>u64 subtraction and maxima\<close>

text \<open>
  The release profile has no overflow checks: \<open>a - b\<close> on \<open>u64\<close> and \<open>usize\<close> wraps when
  \<open>a < b\<close>. Sequence numbers, views and counters only ever grow by small amounts and are
  natural numbers without an upper bound (\<open>consensus.proto\<close> says of block numbers that
  the wrap-around is not to be considered).
\<close>

definition u64_sub :: "u64 \<Rightarrow> u64 \<Rightarrow> u64" where
  "u64_sub a b = (if b \<le> a then a - b else a + 2 ^ 64 - b)"

lemma u64_sub_le [simp]: "b \<le> a \<Longrightarrow> u64_sub a b = a - b"
  by (simp add: u64_sub_def)

lemma u64_sub_0_1: "u64_sub 0 1 = 2 ^ 64 - 1"
  by (simp add: u64_sub_def)

lemma u64_sub_Suc_1 [simp]: "u64_sub (Suc n) (Suc 0) = n"
  by (simp add: u64_sub_def)

text \<open>\<open>iter().max().unwrap_or(d)\<close>.\<close>

definition max_or :: "nat \<Rightarrow> nat list \<Rightarrow> nat" where
  "max_or d xs = (case xs of [] \<Rightarrow> d | y # ys \<Rightarrow> fold max ys y)"

lemma max_or_Nil [simp]: "max_or d [] = d"
  by (simp add: max_or_def)

lemma max_or_eq_Max: "xs \<noteq> [] \<Longrightarrow> max_or d xs = Max (set xs)"
  by (cases xs) (simp_all add: max_or_def Max.set_eq_fold [symmetric] del: list.set)

lemma max_or_ge: "x \<in> set xs \<Longrightarrow> x \<le> max_or d xs"
  by (cases "xs = []") (simp_all add: max_or_eq_Max)

lemma max_or_in: "xs \<noteq> [] \<Longrightarrow> max_or d xs \<in> set xs"
  by (simp add: max_or_eq_Max)

lemma max_or_cases: "max_or d xs = d \<or> max_or d xs \<in> set xs"
  by (cases "xs = []") (simp_all add: max_or_in)

lemma max_or_less: "d < m \<Longrightarrow> (\<And>x. x \<in> set xs \<Longrightarrow> x < m) \<Longrightarrow> max_or d xs < m"
  by (metis max_or_cases)

lemma max_or_le: "d \<le> m \<Longrightarrow> (\<And>x. x \<in> set xs \<Longrightarrow> x \<le> m) \<Longrightarrow> max_or d xs \<le> m"
  by (metis max_or_cases)

section \<open>Chains of numbered blocks\<close>

text \<open>
  \<open>chain num hsh par xs\<close>: consecutive numbers, and each element names its predecessor's
  hash as its parent. The staging queue, the log server's log and the sequencer's output
  are chains over the same three projections.
\<close>

fun chain :: "('b \<Rightarrow> nat) \<Rightarrow> ('b \<Rightarrow> 'h) \<Rightarrow> ('b \<Rightarrow> 'h) \<Rightarrow> 'b list \<Rightarrow> bool" where
  "chain num hsh par [] = True"
| "chain num hsh par [b] = True"
| "chain num hsh par (b # c # bs) =
     (num c = num b + 1 \<and> par c = hsh b \<and> chain num hsh par (c # bs))"

lemma chain_ConsD: "chain num hsh par (b # bs) \<Longrightarrow> chain num hsh par bs"
  by (cases bs) auto

lemma chain_append:
  "chain num hsh par (xs @ ys) \<longleftrightarrow>
     chain num hsh par xs \<and> chain num hsh par ys \<and>
     (xs \<noteq> [] \<and> ys \<noteq> [] \<longrightarrow> num (hd ys) = num (last xs) + 1 \<and> par (hd ys) = hsh (last xs))"
proof (induction num hsh par xs rule: chain.induct)
  case (2 num hsh par b)
  then show ?case by (cases ys) auto
qed auto

lemma chain_snoc:
  "chain num hsh par (xs @ [y]) \<longleftrightarrow>
     chain num hsh par xs \<and>
     (xs \<noteq> [] \<longrightarrow> num y = num (last xs) + 1 \<and> par y = hsh (last xs))"
  by (auto simp: chain_append)

lemma chain_takeI: "chain num hsh par xs \<Longrightarrow> chain num hsh par (take k xs)"
  by (metis append_take_drop_id chain_append)

lemma chain_dropI: "chain num hsh par xs \<Longrightarrow> chain num hsh par (drop k xs)"
  by (metis append_take_drop_id chain_append)

lemma chain_nth_num:
  "chain num hsh par xs \<Longrightarrow> i < length xs \<Longrightarrow> num (xs ! i) = num (hd xs) + i"
proof (induction num hsh par xs arbitrary: i rule: chain.induct)
  case (3 num hsh par b c bs)
  then show ?case by (cases i) auto
qed auto

lemma chain_last_num:
  "chain num hsh par xs \<Longrightarrow> xs \<noteq> [] \<Longrightarrow> num (last xs) = num (hd xs) + (length xs - 1)"
  by (simp add: last_conv_nth chain_nth_num)

lemma chain_num_bounds:
  "chain num hsh par xs \<Longrightarrow> x \<in> set xs \<Longrightarrow> num (hd xs) \<le> num x \<and> num x \<le> num (last xs)"
proof -
  assume c: "chain num hsh par xs" and x: "x \<in> set xs"
  then obtain i where "i < length xs" and "x = xs ! i"
    by (auto simp: in_set_conv_nth)
  moreover from this x have "xs \<noteq> []" by auto
  ultimately show ?thesis
    using chain_nth_num [OF c] chain_last_num [OF c] by auto
qed

lemma chain_nth_link:
  "chain num hsh par xs \<Longrightarrow> Suc i < length xs \<Longrightarrow> par (xs ! Suc i) = hsh (xs ! i)"
proof (induction num hsh par xs arbitrary: i rule: chain.induct)
  case (3 num hsh par b c bs)
  then show ?case by (cases i) auto
qed auto

lemma chain_strict_sorted: "chain num hsh par xs \<Longrightarrow> sorted_wrt (\<lambda>x y. num x < num y) xs"
  by (auto simp: sorted_wrt_iff_nth_less chain_nth_num)

lemma chain_inj: "chain num hsh par xs \<Longrightarrow> x \<in> set xs \<Longrightarrow> y \<in> set xs \<Longrightarrow> num x = num y \<Longrightarrow> x = y"
  by (metis in_set_conv_nth chain_nth_num add_left_cancel)

lemma chain_has_num:
  assumes "chain num hsh par xs" and "xs \<noteq> []" and "num (hd xs) \<le> k" and "k \<le> num (last xs)"
  shows "\<exists>x \<in> set xs. num x = k"
proof -
  let ?i = "k - num (hd xs)"
  have "?i < length xs"
    using assms chain_last_num [OF assms(1,2)]
    by (metis Suc_diff_1 le_add_diff_inverse length_greater_0_conv less_Suc_eq_le nat_add_left_cancel_le)
  then have "num (xs ! ?i) = k"
    using assms chain_nth_num by fastforce
  with \<open>?i < length xs\<close> show ?thesis by (meson nth_mem)
qed

text \<open>Keeping the elements up to a number keeps a prefix; dropping them leaves a suffix.\<close>

lemma chain_hd_less: "chain num hsh par (b # bs) \<Longrightarrow> x \<in> set bs \<Longrightarrow> num b < num x"
  using chain_strict_sorted [of num hsh par "b # bs"] by simp

lemma chain_filter_le:
  "chain num hsh par xs \<Longrightarrow> filter (\<lambda>b. num b \<le> k) xs = takeWhile (\<lambda>b. num b \<le> k) xs"
proof (induction xs)
  case (Cons b bs)
  have "\<forall>x \<in> set bs. num b < num x"
    using chain_hd_less [OF Cons.prems] by blast
  then have "\<not> num b \<le> k \<Longrightarrow> filter (\<lambda>b. num b \<le> k) bs = []"
    by (fastforce simp: filter_empty_conv)
  with Cons.IH chain_ConsD [OF Cons.prems] show ?case by simp
qed simp

lemma chain_filter_gt:
  "chain num hsh par xs \<Longrightarrow> filter (\<lambda>b. k < num b) xs = dropWhile (\<lambda>b. num b \<le> k) xs"
proof (induction xs)
  case (Cons b bs)
  have "\<forall>x \<in> set bs. num b < num x"
    using chain_hd_less [OF Cons.prems] by blast
  then have "\<not> num b \<le> k \<Longrightarrow> filter (\<lambda>b. k < num b) bs = bs"
    by (fastforce simp: filter_id_conv)
  with Cons.IH chain_ConsD [OF Cons.prems] show ?case by simp
qed simp

lemma chain_takeWhileI: "chain num hsh par xs \<Longrightarrow> chain num hsh par (takeWhile P xs)"
  by (metis takeWhile_eq_take chain_takeI)

lemma chain_dropWhileI: "chain num hsh par xs \<Longrightarrow> chain num hsh par (dropWhile P xs)"
  by (metis dropWhile_eq_drop chain_dropI)

lemma chain_filter_leI: "chain num hsh par xs \<Longrightarrow> chain num hsh par (filter (\<lambda>b. num b \<le> k) xs)"
  by (simp add: chain_filter_le chain_takeWhileI)

lemma chain_filter_gtI: "chain num hsh par xs \<Longrightarrow> chain num hsh par (filter (\<lambda>b. k < num b) xs)"
  by (simp add: chain_filter_gt chain_dropWhileI)

lemma chain_filter_ge_eq:
  assumes "chain num hsh par xs"
  shows "filter (\<lambda>b. num b < k) xs = takeWhile (\<lambda>b. num b < k) xs"
proof (cases k)
  case 0
  then show ?thesis by (cases xs) simp_all
next
  case (Suc j)
  then show ?thesis
    using chain_filter_le [OF assms, of j] by (simp add: less_Suc_eq_le)
qed

lemma takeWhile_hd: "takeWhile P xs \<noteq> [] \<Longrightarrow> hd (takeWhile P xs) = hd xs"
  by (cases xs) (auto split: if_splits)

lemma chain_map: "chain num hsh par (map f xs) = chain (num \<circ> f) (hsh \<circ> f) (par \<circ> f) xs"
proof (induction xs)
  case (Cons x xs)
  then show ?case by (cases xs) auto
qed simp

lemma chain_split_at:
  assumes "chain num hsh par xs" and "xs \<noteq> []"
    and "num (hd xs) \<le> k" and "k < num (last xs)"
  shows "dropWhile (\<lambda>b. num b \<le> k) xs \<noteq> []"
    and "num (hd (dropWhile (\<lambda>b. num b \<le> k) xs)) = k + 1"
    and "takeWhile (\<lambda>b. num b \<le> k) xs \<noteq> []"
    and "num (last (takeWhile (\<lambda>b. num b \<le> k) xs)) = k"
    and "par (hd (dropWhile (\<lambda>b. num b \<le> k) xs)) = hsh (last (takeWhile (\<lambda>b. num b \<le> k) xs))"
proof -
  let ?t = "takeWhile (\<lambda>b. num b \<le> k) xs" and ?d = "dropWhile (\<lambda>b. num b \<le> k) xs"
  show d: "?d \<noteq> []"
    using assms by (metis dropWhile_eq_Nil_conv last_in_set leD)
  show t: "?t \<noteq> []"
    using assms by (cases xs) auto
  have app: "chain num hsh par (?t @ ?d)" using assms(1) by simp
  have link: "num (hd ?d) = num (last ?t) + 1 \<and> par (hd ?d) = hsh (last ?t)"
    using app d t unfolding chain_append by blast
  have "\<not> num (hd ?d) \<le> k" using d by (metis hd_dropWhile)
  moreover have "num (last ?t) \<le> k" using t by (meson last_in_set set_takeWhileD)
  ultimately show "num (hd ?d) = k + 1" and "num (last ?t) = k"
    and "par (hd ?d) = hsh (last ?t)"
    using link by auto
qed

section \<open>Binary search\<close>

text \<open>
  \<open>binary_search_by\<close> of the standard library, comparing a \<open>u64\<close> key: the window
  \<open>[base, base + sz)\<close> is halved until one element is left. The result is the index, or
  \<open>None\<close> for \<open>Err(_)\<close> (the insertion point is not used by the callers).
\<close>

function bsearch_loop :: "('b \<Rightarrow> nat) \<Rightarrow> nat \<Rightarrow> 'b list \<Rightarrow> nat \<Rightarrow> nat \<Rightarrow> nat" where
  "bsearch_loop num k xs base sz =
     (if sz > 1 then
        (let half = sz div 2; mid = base + half
         in bsearch_loop num k xs (if num (xs ! mid) > k then base else mid) (sz - half))
      else base)"
  by pat_completeness auto
termination
  by (relation "measure (\<lambda>(num, k, xs, base, sz). sz)") auto

declare bsearch_loop.simps [simp del]

definition binary_search :: "('b \<Rightarrow> nat) \<Rightarrow> nat \<Rightarrow> 'b list \<Rightarrow> nat option" where
  "binary_search num k xs =
     (if xs = [] then None
      else let base = bsearch_loop num k xs 0 (length xs)
           in if num (xs ! base) = k then Some base else None)"

lemma bsearch_loop_finds:
  assumes "sorted_wrt (\<lambda>x y. num x < num y) xs"
    and "base \<le> j" and "j < base + sz" and "base + sz \<le> length xs" and "num (xs ! j) = k"
  shows "bsearch_loop num k xs base sz = j"
  using assms
proof (induction num k xs base sz rule: bsearch_loop.induct)
  case (1 num k xs base sz)
  show ?case
  proof (cases "sz > 1")
    case True
    define mid where "mid = base + sz div 2"
    have mid: "mid < length xs" using True 1(5) by (simp add: mid_def)
    have gt: "num (xs ! mid) > k \<longleftrightarrow> j < mid"
    proof
      assume "j < mid"
      then show "num (xs ! mid) > k"
        using sorted_wrt_nth_less [OF 1(2), of j mid] mid 1(6) by simp
    next
      assume gt: "num (xs ! mid) > k"
      have "j \<noteq> mid" using gt 1(6) by auto
      moreover have "\<not> mid < j"
        using sorted_wrt_nth_less [OF 1(2), of mid j] gt 1(4,5,6) by auto
      ultimately show "j < mid" by simp
    qed
    show ?thesis
    proof (cases "num (xs ! mid) > k")
      case True
      have "bsearch_loop num k xs base (sz - sz div 2) = j"
        using 1(1) [OF \<open>sz > 1\<close> refl refl] True gt 1(2-6) \<open>sz > 1\<close>
        by (auto simp: mid_def)
      with True \<open>sz > 1\<close> show ?thesis
        by (subst bsearch_loop.simps) (simp add: Let_def mid_def)
    next
      case False
      have "bsearch_loop num k xs mid (sz - sz div 2) = j"
        using 1(1) [OF \<open>sz > 1\<close> refl refl] False gt 1(2-6) \<open>sz > 1\<close>
        by (auto simp: mid_def)
      with False \<open>sz > 1\<close> show ?thesis
        by (subst bsearch_loop.simps) (simp add: Let_def mid_def)
    qed
  next
    case False
    with 1(3,4) show ?thesis by (subst bsearch_loop.simps) simp
  qed
qed

lemma bsearch_loop_bound:
  "0 < sz \<Longrightarrow> bsearch_loop num k xs base sz < base + sz"
proof (induction num k xs base sz rule: bsearch_loop.induct)
  case (1 num k xs base sz)
  show ?case
  proof (cases "sz > 1")
    case True
    let ?b = "if k < num (xs ! (base + sz div 2)) then base else base + sz div 2"
    have "bsearch_loop num k xs ?b (sz - sz div 2) < ?b + (sz - sz div 2)"
      using 1(1) [OF True refl refl] True by simp
    then have "bsearch_loop num k xs ?b (sz - sz div 2) < base + sz"
      using True by (auto split: if_splits)
    with True show ?thesis
      by (subst bsearch_loop.simps) (simp add: Let_def)
  next
    case False
    with 1(2) show ?thesis by (subst bsearch_loop.simps) simp
  qed
qed

lemma binary_search_Some:
  assumes "binary_search num k xs = Some i"
  shows "i < length xs \<and> num (xs ! i) = k"
proof -
  have ne: "xs \<noteq> []" using assms by (auto simp: binary_search_def)
  with assms have "i = bsearch_loop num k xs 0 (length xs)" and "num (xs ! i) = k"
    by (auto simp: binary_search_def Let_def split: if_splits)
  with ne show ?thesis
    using bsearch_loop_bound [of "length xs" num k xs 0] by simp
qed

lemma binary_search_sorted:
  assumes "sorted_wrt (\<lambda>x y. num x < num y) xs" and "j < length xs" and "num (xs ! j) = k"
  shows "binary_search num k xs = Some j"
proof -
  have "bsearch_loop num k xs 0 (length xs) = j"
    using assms by (intro bsearch_loop_finds) auto
  with assms show ?thesis by (auto simp: binary_search_def Let_def)
qed

lemma binary_search_None:
  assumes "sorted_wrt (\<lambda>x y. num x < num y) xs"
  shows "binary_search num k xs = None \<longleftrightarrow> (\<forall>x \<in> set xs. num x \<noteq> k)"
proof (cases "binary_search num k xs")
  case None
  have "num x \<noteq> k" if "x \<in> set xs" for x
  proof
    assume "num x = k"
    moreover from that obtain j where "j < length xs" and "x = xs ! j"
      by (auto simp: in_set_conv_nth)
    ultimately show False
      using binary_search_sorted [OF assms, of j k] None by simp
  qed
  with None show ?thesis by simp
next
  case (Some i)
  from binary_search_Some [OF this] have "xs ! i \<in> set xs" and "num (xs ! i) = k"
    by simp_all
  with Some show ?thesis by auto
qed

section \<open>Big-endian byte strings\<close>

fun to_be :: "nat \<Rightarrow> nat \<Rightarrow> bytes" where
  "to_be 0 v = []"
| "to_be (Suc k) v = to_be k (v div 256) @ [of_nat (v mod 256)]"

definition from_be :: "bytes \<Rightarrow> nat" where
  "from_be bs = foldl (\<lambda>a b. a * 256 + unat b) 0 bs"

lemma from_be_snoc [simp]: "from_be (bs @ [b]) = from_be bs * 256 + unat b"
  by (simp add: from_be_def)

lemma from_be_Nil [simp]: "from_be [] = 0"
  by (simp add: from_be_def)

lemma length_to_be [simp]: "length (to_be k v) = k"
  by (induction k arbitrary: v) auto

lemma unat_of_nat_u8: "v < 256 \<Longrightarrow> unat (of_nat v :: u8) = v"
  by (simp add: unat_of_nat)

lemma from_be_to_be: "v < 256 ^ k \<Longrightarrow> from_be (to_be k v) = v"
proof (induction k arbitrary: v)
  case (Suc k)
  have "v div 256 < 256 ^ k"
    using Suc.prems by (simp add: less_mult_imp_div_less mult.commute)
  then have "from_be (to_be k (v div 256)) = v div 256" by (rule Suc.IH)
  then show ?case by (simp add: unat_of_nat_u8)
qed simp

lemma from_be_bound: "from_be bs < 256 ^ length bs"
proof (induction bs rule: rev_induct)
  case (snoc b bs)
  have "unat b < 256" using unsigned_less [of b] by simp
  with snoc have "from_be bs * 256 + unat b < (from_be bs + 1) * 256" by simp
  also have "\<dots> \<le> 256 ^ length bs * 256" using snoc by (simp add: mult_le_mono1)
  finally show ?case by (simp add: mult.commute)
qed simp

lemma to_be_from_be: "to_be (length bs) (from_be bs) = bs"
proof (induction bs rule: rev_induct)
  case (snoc b bs)
  have "unat b < 256" using unsigned_less [of b] by simp
  with snoc show ?case by simp
qed simp

lemma to_be_inj: "v < 256 ^ k \<Longrightarrow> w < 256 ^ k \<Longrightarrow> to_be k v = to_be k w \<Longrightarrow> v = w"
  by (metis from_be_to_be)

section \<open>Association lists\<close>

text \<open>
  A \<open>HashMap\<close> is an association list with distinct keys. Its order stands for the
  unspecified iteration order of the map, so a statement about all such lists covers
  every order.
\<close>

abbreviation keys_distinct :: "('k \<times> 'v) list \<Rightarrow> bool" where
  "keys_distinct m \<equiv> distinct (map fst m)"

lemma keys_distinct_update [simp]: "keys_distinct m \<Longrightarrow> keys_distinct (AList.update k v m)"
  by (rule distinct_update)

lemma keys_distinct_delete [simp]: "keys_distinct m \<Longrightarrow> keys_distinct (AList.delete k m)"
  by (rule distinct_delete)

lemma keys_distinct_filter [simp]: "keys_distinct m \<Longrightarrow> keys_distinct (filter P m)"
  by (simp add: distinct_map_filter)

lemma length_alist_update:
  "keys_distinct m \<Longrightarrow> length (AList.update k v m) = (if k \<in> fst ` set m then length m else Suc (length m))"
  by (induction m) auto

lemma map_of_alist_update [simp]: "map_of (AList.update k v m) = (map_of m)(k \<mapsto> v)"
  by (rule update_conv')

lemma map_of_alist_delete [simp]: "map_of (AList.delete k m) = (map_of m)(k := None)"
  by (rule delete_conv')

section \<open>Sorted maps\<close>

text \<open>A \<open>BTreeMap\<close> with \<open>u64\<close> keys is its list of entries in key order.\<close>

fun btree_insert :: "nat \<Rightarrow> 'v \<Rightarrow> (nat \<times> 'v) list \<Rightarrow> (nat \<times> 'v) list" where
  "btree_insert k v [] = [(k, v)]"
| "btree_insert k v ((k', v') # m) =
     (if k < k' then (k, v) # (k', v') # m
      else if k = k' then (k, v) # m
      else (k', v') # btree_insert k v m)"

definition btree_ok :: "(nat \<times> 'v) list \<Rightarrow> bool" where
  "btree_ok m = sorted_wrt (\<lambda>x y. fst x < fst y) m"

lemma set_btree_insert: "set (btree_insert k v m) \<subseteq> insert (k, v) (set m)"
  by (induction k v m rule: btree_insert.induct) auto

lemma btree_ok_insert: "btree_ok m \<Longrightarrow> btree_ok (btree_insert k v m)"
proof (induction k v m rule: btree_insert.induct)
  case (2 k v k' v' m)
  then have "btree_ok m" and above: "\<forall>e \<in> set m. k' < fst e"
    by (auto simp: btree_ok_def)
  with 2(1) have "k' < k \<Longrightarrow> btree_ok (btree_insert k v m)" by simp
  with above \<open>btree_ok m\<close> set_btree_insert [of k v m] show ?case
    by (fastforce simp: btree_ok_def)
qed (simp add: btree_ok_def)

lemma map_of_btree_insert: "btree_ok m \<Longrightarrow> map_of (btree_insert k v m) = (map_of m)(k \<mapsto> v)"
proof (induction k v m rule: btree_insert.induct)
  case (2 k v k' v' m)
  then show ?case by (auto simp: btree_ok_def fun_eq_iff)
qed auto

lemma length_btree_insert: "length (btree_insert k v m) \<le> Suc (length m)"
  by (induction k v m rule: btree_insert.induct) auto

lemma btree_ok_tl: "btree_ok m \<Longrightarrow> btree_ok (tl m)"
  by (cases m) (auto simp: btree_ok_def)

lemma btree_ok_filter: "btree_ok m \<Longrightarrow> btree_ok (filter P m)"
  by (simp add: btree_ok_def sorted_wrt_filter)

section \<open>Strings\<close>

text \<open>A \<open>String\<close> of the source is the list of its UTF-8 bytes, each written as a character.\<close>

definition as_bytes :: "string \<Rightarrow> bytes" where
  "as_bytes s = map of_char s"

lemma as_bytes_inj: "as_bytes s = as_bytes s' \<Longrightarrow> s = s'"
proof (induction s arbitrary: s')
  case (Cons c s)
  then obtain c' t where s': "s' = c' # t" "(of_char c :: u8) = of_char c'" "as_bytes s = as_bytes t"
    by (cases s') (auto simp: as_bytes_def)
  have "unat (of_char c :: u8) = of_char c" "unat (of_char c' :: u8) = of_char c'"
    by (simp_all add: of_char_def unat_of_nat)
  with s'(2) have "c = c'" by (metis of_char_eq_iff)
  with Cons.IH [OF s'(3)] s'(1) show ?case by simp
qed (simp add: as_bytes_def)

lemma length_as_bytes [simp]: "length (as_bytes s) = length s"
  by (simp add: as_bytes_def)

end
