(* ===== verification/Types.thy ===== *)
theory Types
  imports Prelude
begin

text \<open>
  The data that travels between the components: the protobuf messages of
  \<open>src/proto\<close>, the cached blocks of the crypto service, the configuration, the
  compile-time features, and the command types of every component's input channel.
\<close>

section \<open>Transactions (execution.proto)\<close>

datatype tx_op_type =
    NOOP | READ | WRITE | INCREMENT | CAS | ADD_LEARNER | UPGRADE_FULL_NODE
  | DEL_LEARNER | DOWNGRADE_FULL_NODE | CUSTOM | PROBE

text \<open>The enum is carried as an \<open>i32\<close>; \<open>from_i32\<close> is \<open>None\<close> on an unknown number.\<close>

fun op_type_number :: "tx_op_type \<Rightarrow> int" where
  "op_type_number NOOP = 0"
| "op_type_number READ = 1"
| "op_type_number WRITE = 2"
| "op_type_number INCREMENT = 3"
| "op_type_number CAS = 4"
| "op_type_number ADD_LEARNER = 5"
| "op_type_number UPGRADE_FULL_NODE = 6"
| "op_type_number DEL_LEARNER = 7"
| "op_type_number DOWNGRADE_FULL_NODE = 8"
| "op_type_number CUSTOM = 9"
| "op_type_number PROBE = 10"

definition all_op_types :: "tx_op_type list" where
  "all_op_types = [NOOP, READ, WRITE, INCREMENT, CAS, ADD_LEARNER, UPGRADE_FULL_NODE,
     DEL_LEARNER, DOWNGRADE_FULL_NODE, CUSTOM, PROBE]"

definition op_type_from_i32 :: "int \<Rightarrow> tx_op_type option" where
  "op_type_from_i32 i = List.find (\<lambda>t. op_type_number t = i) all_op_types"

record tx_op =
  op_type :: int
  operands :: "bytes list"

record tx_phase =
  ops :: "tx_op list"

record transaction =
  on_receive :: "tx_phase option"
  on_crash_commit :: "tx_phase option"
  on_byzantine_commit :: "tx_phase option"
  is_reconfiguration :: bool
  is_2pc :: bool

record op_result =
  or_success :: bool
  or_values :: "bytes list"

record tx_result =
  tr_result :: "op_result list"

record byz_response =
  br_block_n :: u64
  br_tx_n :: u64
  br_client_tag :: u64

section \<open>Blocks and consensus messages (consensus.proto, checkpoint.proto)\<close>

record quorum_certificate =
  qc_digest :: bytes
  qc_n :: u64
  qc_sig :: "(string \<times> bytes) list"
  qc_view :: u64

record fork_validation =
  fv_vc_view :: u64
  fv_vc_config_num :: u64
  fv_block_hashes :: "bytes list"
  fv_fork_last_n :: u64
  fv_fork_last_qc :: "quorum_certificate option"
  fv_fork_last_view :: u64
  fv_fork_last_config_num :: u64
  fv_vc_sig :: bytes
  fv_sender :: string

datatype block_sig = NoSig | ProposerSig bytes

record proto_block =
  tx_list :: "transaction list"
  blk_n :: u64
  blk_parent :: bytes
  blk_view :: u64
  blk_qc :: "quorum_certificate list"
  blk_fork_validation :: "fork_validation list"
  blk_view_is_stable :: bool
  blk_config_num :: u64
  blk_sig :: "block_sig option"

record cached_block =
  cb_block :: proto_block
  cb_ser :: bytes
  cb_hash :: bytes

abbreviation cb_n :: "cached_block \<Rightarrow> u64" where
  "cb_n b \<equiv> blk_n (cb_block b)"

abbreviation cb_parent :: "cached_block \<Rightarrow> bytes" where
  "cb_parent b \<equiv> blk_parent (cb_block b)"

definition is_signed :: "proto_block \<Rightarrow> bool" where
  "is_signed b = (case blk_sig b of Some (ProposerSig _) \<Rightarrow> True | _ \<Rightarrow> False)"

record half_block =
  hs_n :: u64
  hs_view :: u64
  hs_view_is_stable :: bool
  hs_config_num :: u64
  hs_body :: bytes

text \<open>A \<open>ProtoFork\<close> is its list of half-serialized blocks.\<close>

type_synonym proto_fork = "half_block list"

definition half_serialize :: "cached_block \<Rightarrow> half_block" where
  "half_serialize b =
     \<lparr>hs_n = cb_n b, hs_view = blk_view (cb_block b),
      hs_view_is_stable = blk_view_is_stable (cb_block b),
      hs_config_num = blk_config_num (cb_block b), hs_body = cb_ser b\<rparr>"

record append_entries =
  ae_fork :: "proto_fork option"
  ae_commit_index :: u64
  ae_view :: u64
  ae_view_is_stable :: bool
  ae_config_num :: u64
  ae_is_backfill_response :: bool

record sig_entry =
  se_n :: u64
  se_sig :: bytes

record vote =
  vote_sig_array :: "sig_entry list"
  vote_fork_digest :: bytes
  vote_n :: u64
  vote_view :: u64
  vote_config_num :: u64

record view_change =
  vc_view :: u64
  vc_config_num :: u64
  vc_fork :: "proto_fork option"
  vc_fork_sig :: bytes
  vc_fork_last_n :: u64
  vc_fork_last_qc :: "quorum_certificate option"

record block_hint =
  bh_block_n :: u64
  bh_digest :: bytes

datatype nack_origin = Origin_Ae append_entries | Origin_Vc view_change

record backfill_nack =
  nk_origin :: "nack_origin option"
  nk_hints :: "block_hint list"
  nk_last_index_needed :: u64
  nk_reply_name :: string

section \<open>Senders and clients (rpc/mod.rs, client.proto)\<close>

datatype sender_type = Anon | Auth string u64

fun to_name_and_sub_id :: "sender_type \<Rightarrow> string \<times> u64" where
  "to_name_and_sub_id Anon = (''Anon'', 0)"
| "to_name_and_sub_id (Auth s i) = (s, i)"

text \<open>
  A reply channel is named by a number; \<open>MsgAckChanWithTag\<close> is the channel, the client's
  tag and the client.
\<close>

type_synonym msg_ack_chan = "nat \<times> u64 \<times> sender_type"

record client_request =
  cr_tx :: "transaction option"
  cr_origin :: string
  cr_sig :: bytes
  cr_client_tag :: u64

record tx_receipt =
  rc_req_digest :: bytes
  rc_block_n :: u64
  rc_tx_n :: u64
  rc_results :: "tx_result option"
  rc_await_byz_response :: bool
  rc_byz_responses :: "byz_response list"

datatype reply_body =
    Reply_Receipt tx_receipt
  | Reply_TryAgain string
  | Reply_Leader string string
  | Reply_TentativeReceipt u64 u64

record client_reply_msg =
  rp_reply :: "reply_body option"
  rp_client_tag :: u64

section \<open>Configuration and features (config/mod.rs, Cargo.toml)\<close>

datatype leader_policy = Round_Robin_Leader | Fixed_Leader
datatype sign_policy = Dynamic_Sign | Never_Sign | Always_Sign

record features =
  ft_leader :: leader_policy
  ft_sign :: sign_policy
  ft_view_change :: bool
  ft_no_qc :: bool
  ft_fast_path :: bool
  ft_platforms :: bool
  ft_extra_2pc :: bool
  ft_no_pipeline :: bool
  ft_extra_qc_check :: bool
  ft_storage :: bool
  ft_evil :: bool

record consensus_config =
  node_list :: "string list"
  learner_list :: "string list"
  max_backlog_batch_size :: nat
  batch_max_delay_ms :: u64
  signature_max_delay_blocks :: u64
  liveness_u :: u64
  commit_index_gap_soft :: u64
  commit_index_gap_hard :: u64

record config =
  net_name :: string
  node_infos :: string
  consensus :: consensus_config
  simulate_byzantine_behavior :: bool
  byzantine_start_block :: u64

text \<open>The default build (\<open>pirateship\<close>) and the crash-fault build (\<open>lucky_raft\<close>).\<close>

definition pirateship :: features where
  "pirateship = \<lparr>ft_leader = Round_Robin_Leader, ft_sign = Dynamic_Sign,
     ft_view_change = True, ft_no_qc = False, ft_fast_path = True, ft_platforms = True,
     ft_extra_2pc = False, ft_no_pipeline = False, ft_extra_qc_check = False,
     ft_storage = True, ft_evil = False\<rparr>"

definition lucky_raft :: features where
  "lucky_raft = \<lparr>ft_leader = Fixed_Leader, ft_sign = Never_Sign,
     ft_view_change = False, ft_no_qc = True, ft_fast_path = False, ft_platforms = False,
     ft_extra_2pc = False, ft_no_pipeline = False, ft_extra_qc_check = False,
     ft_storage = False, ft_evil = False\<rparr>"

definition get_leader_for_view :: "features \<Rightarrow> consensus_config \<Rightarrow> u64 \<Rightarrow> string result" where
  "get_leader_for_view ft cc view =
     (case ft_leader ft of
        Round_Robin_Leader \<Rightarrow>
          (let k = length (node_list cc)
           in if k = 0 then Inl Division_By_Zero
              else Inr (node_list cc ! (u64_sub view 1 mod k)))
      | Fixed_Leader \<Rightarrow>
          (if node_list cc = [] then Inl Out_Of_Bounds else Inr (node_list cc ! 0)))"

text \<open>Every component asks in the same way whether its node leads a view.\<close>

definition i_am_leader :: "features \<Rightarrow> config \<Rightarrow> u64 \<Rightarrow> bool result" where
  "i_am_leader ft cfg view =
     bindE (get_leader_for_view ft (consensus cfg) view) (\<lambda>leader. Inr (leader = net_name cfg))"

definition validate_or_die :: "consensus_config \<Rightarrow> unit result" where
  "validate_or_die cc =
     (let n = length (node_list cc); majority = n div 2 + 1
      in if liveness_u cc > u64_sub n majority then Inl Explicit_Panic else Inr ())"

text \<open>
  \<open>AtomicConfig::set_checked\<close>: the new configuration replaces the old one, with the
  \<open>platforms\<close> feature only if it validates.
\<close>

definition set_checked :: "features \<Rightarrow> config \<Rightarrow> config \<Rightarrow> config result" where
  "set_checked ft old new =
     (if ft_platforms ft then bindE (validate_or_die (consensus new)) (\<lambda>_. Inr new)
      else Inr new)"

section \<open>Commands between components\<close>

record ae_stats =
  st_view :: u64
  st_view_is_stable :: bool
  st_config_num :: u64
  st_sender :: string
  st_ci :: u64

text \<open>The errors of verification and storage that travel through channels.\<close>

datatype io_error =
    Invalid_New_Block | Invalid_Block_Length | Invalid_Hash | Decode_Error
  | Invalid_Signature | Invalid_QC | QC_Without_Signed_Block | Key_Not_Found | Engine_Error

datatype sequencer_command =
    NewUnstableView u64 u64
  | ViewStabilised u64 u64
  | NewViewMessage u64 u64 "fork_validation list" bytes u64

datatype broadcaster_command =
    UpdateCI u64
  | NextAEForkPrefix "(io_error + cached_block) list"

datatype fork_receiver_command =
    UpdateView u64 u64
  | MultipartNack nat
  | UseBackfillResponse append_entries sender_type

datatype pacemaker_command =
    PM_UpdateView u64 u64
  | MyViewJumped u64 u64 view_change
  | NewViewForks u64 u64 "(sender_type \<times> view_change) list"
  | PM_UpdateBCI u64
  | QueryEnoughVCMsg u64 u64

datatype app_command =
    NewRequestBatch u64 u64 bool bool nat bytes
  | CrashCommit "cached_block list"
  | ByzCommit "cached_block list"
  | Rollback u64

datatype logserver_command =
    LS_NewBlock cached_block
  | LS_Rollback u64
  | LS_UpdateBCI u64

text \<open>
  A one-shot receiver of a result that another component computes is named by a number.
\<close>

datatype client_reply_command =
    CancelAllRequests
  | StopCancelling
  | CrashCommitAck "(bytes \<times> (u64 \<times> tx_result list)) list"
  | ByzCommitAck "(bytes \<times> (u64 \<times> byz_response list)) list"
  | UnloggedRequestAck nat msg_ack_chan
  | ProbeRequestAck u64 msg_ack_chan

datatype engraft_action =
    Engraft_None
  | AsLeader string vote
  | AsFollower string vote

record two_pc_command =
  tp_key :: string
  tp_value :: bytes
  tp_action :: engraft_action

text \<open>The resolved value of a storage acknowledgement: \<open>Ok(())\<close> or \<open>Err(_)\<close>.\<close>

datatype storage_ack = StorageOk | StorageErr

section \<open>Lemmas\<close>

lemma op_type_roundtrip: "op_type_from_i32 (op_type_number t) = Some t"
  by (cases t) (simp_all add: op_type_from_i32_def all_op_types_def)

lemma op_type_from_i32_SomeD: "op_type_from_i32 i = Some t \<Longrightarrow> op_type_number t = i"
  by (auto simp: op_type_from_i32_def find_Some_iff)

lemma is_signed_iff: "is_signed b \<longleftrightarrow> (\<exists>s. blk_sig b = Some (ProposerSig s))"
  by (auto simp: is_signed_def split: option.splits block_sig.splits)

lemma half_serialize_simps [simp]:
  "hs_n (half_serialize b) = cb_n b"
  "hs_view (half_serialize b) = blk_view (cb_block b)"
  "hs_view_is_stable (half_serialize b) = blk_view_is_stable (cb_block b)"
  "hs_config_num (half_serialize b) = blk_config_num (cb_block b)"
  "hs_body (half_serialize b) = cb_ser b"
  by (simp_all add: half_serialize_def)

lemma get_leader_total:
  "node_list cc \<noteq> [] \<Longrightarrow> \<exists>l. get_leader_for_view ft cc v = Inr l \<and> l \<in> set (node_list cc)"
  by (cases "ft_leader ft") (auto simp: get_leader_for_view_def Let_def)

lemma get_leader_Inr_node_list: "get_leader_for_view ft cc v = Inr l \<Longrightarrow> node_list cc \<noteq> []"
  by (auto simp: get_leader_for_view_def Let_def split: leader_policy.splits if_splits)

lemma i_am_leader_total: "node_list (consensus cfg) \<noteq> [] \<Longrightarrow> \<exists>b. i_am_leader ft cfg v = Inr b"
  using get_leader_total [of "consensus cfg" ft v] by (auto simp: i_am_leader_def)

end
