(* ===== verification/Serialize.thy ===== *)
theory Serialize
  imports Types
begin

text \<open>
  The wire format of a block (\<open>src/utils/serialize.rs\<close>): 64 bytes of signature, 64 bytes
  of parent hash, then the protobuf body. The protobuf codec is code that the build
  generates; it is the parameter \<open>enc\<close> / \<open>dec\<close> of the definitions.
\<close>

section \<open>Definitions\<close>

definition SIGNATURE_LENGTH :: nat where
  "SIGNATURE_LENGTH = 64"

definition DIGEST_LENGTH :: nat where
  "DIGEST_LENGTH = 64"

definition default_hash :: bytes where
  "default_hash = replicate DIGEST_LENGTH 0"

lemmas lengths = SIGNATURE_LENGTH_def DIGEST_LENGTH_def

definition serialize_proto_block_nascent ::
  "(proto_block \<Rightarrow> bytes) \<Rightarrow> proto_block \<Rightarrow> io_error + bytes" where
  "serialize_proto_block_nascent enc block =
     (if blk_parent block \<noteq> [] \<or> (blk_sig block \<noteq> None \<and> blk_sig block \<noteq> Some NoSig)
      then Inl Invalid_New_Block
      else Inr (replicate SIGNATURE_LENGTH 0 @ replicate DIGEST_LENGTH 0 @ enc block))"

definition serialize_proto_block_prefilled ::
  "(proto_block \<Rightarrow> bytes) \<Rightarrow> proto_block \<Rightarrow> bytes" where
  "serialize_proto_block_prefilled enc block =
     (case blk_sig block of
        Some (ProposerSig sg) \<Rightarrow> sg
      | Some NoSig \<Rightarrow> replicate SIGNATURE_LENGTH 0
      | None \<Rightarrow> replicate SIGNATURE_LENGTH 0)
     @ blk_parent block
     @ enc (block\<lparr>blk_parent := [], blk_sig := None\<rparr>)"

text \<open>\<open>copy_from_slice\<close> panics if the target slice is out of range or the lengths differ.\<close>

definition update_parent_hash_in_proto_block_ser :: "bytes \<Rightarrow> bytes \<Rightarrow> bytes result" where
  "update_parent_hash_in_proto_block_ser block parent_hash =
     (if length block < SIGNATURE_LENGTH + DIGEST_LENGTH \<or> length parent_hash \<noteq> DIGEST_LENGTH
      then Inl Out_Of_Bounds
      else Inr (take SIGNATURE_LENGTH block @ parent_hash
                @ drop (SIGNATURE_LENGTH + DIGEST_LENGTH) block))"

definition get_parent_hash_in_proto_block_ser :: "bytes \<Rightarrow> bytes option" where
  "get_parent_hash_in_proto_block_ser block =
     (if length block < DIGEST_LENGTH + SIGNATURE_LENGTH then None
      else Some (take DIGEST_LENGTH (drop SIGNATURE_LENGTH block)))"

definition update_signature_in_proto_block_ser :: "bytes \<Rightarrow> bytes \<Rightarrow> bytes result" where
  "update_signature_in_proto_block_ser block signature =
     (if length block < SIGNATURE_LENGTH \<or> length signature \<noteq> SIGNATURE_LENGTH
      then Inl Out_Of_Bounds
      else Inr (signature @ drop SIGNATURE_LENGTH block))"

text \<open>
  A body that does not decode makes the function panic (the \<open>unwrap\<close> on the decoder's
  result); only a short input gives the \<open>Err\<close> that the signature announces.
\<close>

definition deserialize_proto_block ::
  "(bytes \<Rightarrow> proto_block option) \<Rightarrow> bytes \<Rightarrow> (io_error + proto_block) result" where
  "deserialize_proto_block dec bs =
     (if length bs < DIGEST_LENGTH + SIGNATURE_LENGTH then Inr (Inl Invalid_Block_Length)
      else bindE (unwrap (dec (drop (DIGEST_LENGTH + SIGNATURE_LENGTH) bs))) (\<lambda>block.
        let parent = take DIGEST_LENGTH (drop SIGNATURE_LENGTH bs);
            sg = take SIGNATURE_LENGTH bs;
            sig_is_null = list_all (\<lambda>x. x = 0) sg
        in Inr (Inr (block\<lparr>blk_parent := parent,
             blk_sig := Some (if sig_is_null then NoSig else ProposerSig sg)\<rparr>))))"

section \<open>Round trips\<close>

text \<open>
  The block as the wire format carries it: a missing signature and \<open>NoSig\<close> are the same
  64 zero bytes, and come back as \<open>NoSig\<close>.
\<close>

definition wire_sig :: "block_sig option \<Rightarrow> bytes" where
  "wire_sig s = (case s of Some (ProposerSig sg) \<Rightarrow> sg | _ \<Rightarrow> replicate SIGNATURE_LENGTH 0)"

definition wire_block :: "proto_block \<Rightarrow> proto_block" where
  "wire_block b =
     b\<lparr>blk_sig := Some (if list_all (\<lambda>x. x = 0) (wire_sig (blk_sig b)) then NoSig
                        else ProposerSig (wire_sig (blk_sig b)))\<rparr>"

definition wire_ok :: "proto_block \<Rightarrow> bool" where
  "wire_ok b \<longleftrightarrow> length (blk_parent b) = DIGEST_LENGTH
     \<and> length (wire_sig (blk_sig b)) = SIGNATURE_LENGTH"

lemma prefilled_eq:
  "serialize_proto_block_prefilled enc b =
     wire_sig (blk_sig b) @ blk_parent b @ enc (b\<lparr>blk_parent := [], blk_sig := None\<rparr>)"
  by (auto simp: serialize_proto_block_prefilled_def wire_sig_def split: option.splits block_sig.splits)

lemma deserialize_prefilled:
  assumes "dec (enc (b\<lparr>blk_parent := [], blk_sig := None\<rparr>)) = Some (b\<lparr>blk_parent := [], blk_sig := None\<rparr>)"
    and "wire_ok b"
  shows "deserialize_proto_block dec (serialize_proto_block_prefilled enc b) = Inr (Inr (wire_block b))"
  using assms
  by (simp add: deserialize_proto_block_def prefilled_eq wire_ok_def wire_block_def lengths Let_def)

lemma wire_block_signed:
  assumes "blk_sig b = Some (ProposerSig sg)" and "\<not> list_all (\<lambda>x. x = 0) sg"
  shows "wire_block b = b"
  using assms by (simp add: wire_block_def wire_sig_def)

lemma wire_block_unsigned: "blk_sig b = Some NoSig \<Longrightarrow> wire_block b = b"
  by (simp add: wire_block_def wire_sig_def list_all_iff)

lemma get_parent_hash_prefilled:
  "wire_ok b \<Longrightarrow>
     get_parent_hash_in_proto_block_ser (serialize_proto_block_prefilled enc b) = Some (blk_parent b)"
  by (simp add: get_parent_hash_in_proto_block_ser_def prefilled_eq wire_ok_def lengths)

lemma get_parent_hash_length:
  "get_parent_hash_in_proto_block_ser bs = Some h \<Longrightarrow> length h = DIGEST_LENGTH"
  by (auto simp: get_parent_hash_in_proto_block_ser_def lengths split: if_splits)

lemma get_parent_hash_update:
  assumes "update_parent_hash_in_proto_block_ser bs h = Inr bs'"
  shows "get_parent_hash_in_proto_block_ser bs' = Some h"
  using assms
  by (auto simp: update_parent_hash_in_proto_block_ser_def get_parent_hash_in_proto_block_ser_def
      lengths min_def split: if_splits)

text \<open>
  Filling the parent and the signature into a nascent serialization is the same as
  serializing the finished block.
\<close>

lemma nascent_then_fill:
  assumes "serialize_proto_block_nascent enc (b\<lparr>blk_parent := [], blk_sig := None\<rparr>) = Inr s0"
    and "update_parent_hash_in_proto_block_ser s0 p = Inr s1"
  shows "s1 = serialize_proto_block_prefilled enc (b\<lparr>blk_parent := p, blk_sig := None\<rparr>)"
    and "update_signature_in_proto_block_ser s1 sg = Inr s2 \<Longrightarrow>
       s2 = serialize_proto_block_prefilled enc (b\<lparr>blk_parent := p, blk_sig := Some (ProposerSig sg)\<rparr>)"
  using assms
  by (auto simp: serialize_proto_block_nascent_def update_parent_hash_in_proto_block_ser_def
      update_signature_in_proto_block_ser_def prefilled_eq wire_sig_def lengths split: if_splits)

lemma update_signature_total:
  "SIGNATURE_LENGTH \<le> length bs \<Longrightarrow> length sg = SIGNATURE_LENGTH \<Longrightarrow>
     update_signature_in_proto_block_ser bs sg = Inr (sg @ drop SIGNATURE_LENGTH bs)"
  by (simp add: update_signature_in_proto_block_ser_def)

lemma deserialize_parent:
  assumes "deserialize_proto_block dec bs = Inr (Inr b)"
  shows "get_parent_hash_in_proto_block_ser bs = Some (blk_parent b)"
  using assms
  by (auto simp: deserialize_proto_block_def get_parent_hash_in_proto_block_ser_def Let_def resultE
      split: if_splits)

end
