(* ===== verification/Quorums.thy ===== *)
theory Quorums
  imports Types
begin

text \<open>
  The vote thresholds that the components compute from the configuration, the quorum
  systems they define, and the interface \<open>overlap_quorums\<close>: what a client of a quorum
  system may rely on. The rotation of the leader role is here too.
\<close>

section \<open>Thresholds\<close>

text \<open>\<open>Staging\<close>.\<close>

definition crash_commit_threshold :: "consensus_config \<Rightarrow> nat" where
  "crash_commit_threshold cc = length (node_list cc) div 2 + 1"

definition byzantine_liveness_threshold :: "features \<Rightarrow> consensus_config \<Rightarrow> nat result" where
  "byzantine_liveness_threshold ft cc =
     (let n = length (node_list cc)
      in if ft_platforms ft
         then bindE (assertE Assertion (n \<ge> liveness_u cc)) (\<lambda>_. Inr (u64_sub n (liveness_u cc)))
         else let f = n div 3 in Inr (u64_sub n f))"

definition byzantine_commit_threshold :: "features \<Rightarrow> consensus_config \<Rightarrow> nat result" where
  "byzantine_commit_threshold ft cc = byzantine_liveness_threshold ft cc"

definition byzantine_fast_path_threshold :: "consensus_config \<Rightarrow> nat" where
  "byzantine_fast_path_threshold cc = length (node_list cc)"

definition fast_path_selection_threshold :: "consensus_config \<Rightarrow> nat" where
  "fast_path_selection_threshold cc = liveness_u cc + 1"

text \<open>\<open>ForkReceiver\<close>: the same number without the assertion.\<close>

definition fr_byzantine_liveness_threshold :: "features \<Rightarrow> consensus_config \<Rightarrow> nat" where
  "fr_byzantine_liveness_threshold ft cc =
     (let n = length (node_list cc)
      in if ft_platforms ft then u64_sub n (liveness_u cc) else let f = n div 3 in u64_sub n f)"

text \<open>\<open>Pacemaker\<close>.\<close>

definition pacemaker_view_update_threshold :: "features \<Rightarrow> consensus_config \<Rightarrow> nat" where
  "pacemaker_view_update_threshold ft cc =
     (let n = length (node_list cc)
      in if ft_platforms ft then u64_sub n (2 * liveness_u cc) else n div 3 + 1)"

definition new_view_bcast_threshold :: "features \<Rightarrow> consensus_config \<Rightarrow> nat" where
  "new_view_bcast_threshold ft cc =
     (let n = length (node_list cc)
      in if ft_platforms ft then u64_sub n (liveness_u cc) else let f = n div 3 in u64_sub n f)"

text \<open>\<open>BlockBroadcaster\<close>: the number of peers a broadcast waits for.\<close>

definition get_byzantine_broadcast_threshold :: "features \<Rightarrow> consensus_config \<Rightarrow> nat" where
  "get_byzantine_broadcast_threshold ft cc =
     (let k = length (node_list cc)
      in if ft_no_qc ft then k div 2
         else if ft_platforms ft then
           (if k \<le> liveness_u cc then 0 else u64_sub (u64_sub k (liveness_u cc)) 1)
         else 2 * (k div 3))"

section \<open>The interface of a quorum system\<close>

locale overlap_quorums =
  fixes members :: "'p set"
    and quorum :: "'p set \<Rightarrow> bool"
    and overlap :: nat
  assumes finite_members: "finite members"
    and quorum_members: "quorum Q \<Longrightarrow> Q \<subseteq> members"
    and quorum_overlap: "quorum Q \<Longrightarrow> quorum R \<Longrightarrow> overlap \<le> card (Q \<inter> R)"
begin

lemma common_member_outside:
  assumes "quorum Q" and "quorum R" and "finite F" and "card F < overlap"
  shows "\<exists>p. p \<in> Q \<inter> R \<and> p \<notin> F"
proof (rule ccontr)
  assume "\<not> ?thesis"
  then have "Q \<inter> R \<subseteq> F" by blast
  with assms(3) have "card (Q \<inter> R) \<le> card F" by (rule card_mono)
  with quorum_overlap [OF assms(1,2)] assms(4) show False by simp
qed

text \<open>
  Two quorums that vote for \<open>v\<close> and \<open>w\<close> vote for the same thing, if fewer than
  \<open>overlap\<close> members vote twice.
\<close>

lemma votes_agree:
  assumes "quorum Q" and "quorum R" and "finite F" and "card F < overlap"
    and "\<forall>p \<in> Q. voted p v" and "\<forall>p \<in> R. voted p w"
    and "\<forall>p \<in> members - F. voted p v \<longrightarrow> voted p w \<longrightarrow> v = w"
  shows "v = w"
proof -
  from common_member_outside [OF assms(1-4)] obtain p where "p \<in> Q \<inter> R" and "p \<notin> F"
    by blast
  moreover from this quorum_members [OF assms(1)] have "p \<in> members" by blast
  ultimately show ?thesis using assms(5-7) by blast
qed

end

section \<open>The quorum systems of the configuration\<close>

definition threshold_quorum :: "nat \<Rightarrow> consensus_config \<Rightarrow> string set \<Rightarrow> bool" where
  "threshold_quorum t cc Q \<longleftrightarrow> Q \<subseteq> set (node_list cc) \<and> t \<le> card Q"

definition crash_quorum :: "consensus_config \<Rightarrow> string set \<Rightarrow> bool" where
  "crash_quorum cc = threshold_quorum (crash_commit_threshold cc) cc"

definition byz_quorum :: "features \<Rightarrow> consensus_config \<Rightarrow> string set \<Rightarrow> bool" where
  "byz_quorum ft cc Q \<longleftrightarrow>
     (case byzantine_commit_threshold ft cc of Inl _ \<Rightarrow> False | Inr t \<Rightarrow> threshold_quorum t cc Q)"

definition byz_overlap :: "features \<Rightarrow> consensus_config \<Rightarrow> nat" where
  "byz_overlap ft cc =
     (let n = length (node_list cc)
      in if ft_platforms ft then n - 2 * liveness_u cc else n - 2 * (n div 3))"

lemma threshold_overlap:
  assumes "threshold_quorum t cc Q" and "threshold_quorum t cc R"
  shows "2 * t - length (node_list cc) \<le> card (Q \<inter> R)"
proof -
  let ?M = "set (node_list cc)"
  have sub: "Q \<subseteq> ?M" "R \<subseteq> ?M" and t: "t \<le> card Q" "t \<le> card R"
    using assms by (simp_all add: threshold_quorum_def)
  then have "finite Q" "finite R" by (meson List.finite_set finite_subset)+
  then have "card Q + card R = card (Q \<union> R) + card (Q \<inter> R)"
    by (rule card_Un_Int)
  moreover have "card (Q \<union> R) \<le> card ?M"
    using sub by (intro card_mono) auto
  moreover have "card ?M \<le> length (node_list cc)" by (rule card_length)
  ultimately show ?thesis using t by linarith
qed

interpretation crash: overlap_quorums "set (node_list cc)" "crash_quorum cc" 1
  for cc
proof unfold_locales
  fix Q R assume "crash_quorum cc Q" and "crash_quorum cc R"
  then have "2 * crash_commit_threshold cc - length (node_list cc) \<le> card (Q \<inter> R)"
    unfolding crash_quorum_def by (rule threshold_overlap)
  then show "1 \<le> card (Q \<inter> R)" by (simp add: crash_commit_threshold_def)
qed (auto simp: crash_quorum_def threshold_quorum_def)

lemma byz_quorumE:
  assumes "byz_quorum ft cc Q"
  obtains t where "byzantine_commit_threshold ft cc = Inr t" and "threshold_quorum t cc Q"
  using assms by (auto simp: byz_quorum_def split: sum.splits)

lemma byz_threshold_overlap:
  "byzantine_commit_threshold ft cc = Inr t \<Longrightarrow> byz_overlap ft cc = 2 * t - length (node_list cc)"
  by (auto simp: byzantine_commit_threshold_def byzantine_liveness_threshold_def byz_overlap_def
      Let_def bindE_Inr_conv split: if_splits)

interpretation byz: overlap_quorums "set (node_list cc)" "byz_quorum ft cc" "byz_overlap ft cc"
  for ft cc
proof unfold_locales
  fix Q R assume Q: "byz_quorum ft cc Q" and R: "byz_quorum ft cc R"
  from Q obtain t where t: "byzantine_commit_threshold ft cc = Inr t" "threshold_quorum t cc Q"
    by (rule byz_quorumE)
  moreover from R t(1) have "threshold_quorum t cc R" by (auto elim: byz_quorumE)
  ultimately show "byz_overlap ft cc \<le> card (Q \<inter> R)"
    using threshold_overlap byz_threshold_overlap by metis
qed (auto elim!: byz_quorumE simp: threshold_quorum_def)

lemma byz_overlap_exceeds_faults:
  "\<not> ft_platforms ft \<Longrightarrow> node_list cc \<noteq> [] \<Longrightarrow>
     length (node_list cc) div 3 < byz_overlap ft cc \<longleftrightarrow> length (node_list cc) mod 3 \<noteq> 0"
  unfolding byz_overlap_def Let_def by simp presburger

section \<open>Rotation of the leader\<close>

lemma round_robin_leader:
  assumes "ft_leader ft = Round_Robin_Leader" and "node_list cc \<noteq> []" and "1 \<le> v"
  shows "get_leader_for_view ft cc v = Inr (node_list cc ! ((v - 1) mod length (node_list cc)))"
  using assms by (simp add: get_leader_for_view_def Let_def)

lemma round_robin_covers:
  assumes "i < (k::nat)"
  shows "\<exists>d < k. (w + d) mod k = i"
proof -
  let ?d = "(i + k - w mod k) mod k"
  have "(w + ?d) mod k = (w mod k + (i + k - w mod k)) mod k"
    by (metis mod_add_left_eq mod_add_right_eq)
  also have "w mod k + (i + k - w mod k) = i + k"
    using assms by (simp add: add.commute less_imp_le_nat trans_le_add2)
  finally have "(w + ?d) mod k = i" using assms by simp
  moreover have "?d < k" using assms by simp
  ultimately show ?thesis by blast
qed

end
