(* ===== verification/Crypto.thy ===== *)
theory Crypto
  imports Serialize Quorums
begin

text \<open>
  The crypto service (\<open>src/crypto/service.rs\<close>, \<open>ed25519.rs\<close>, \<open>sha512.rs\<close>): hashing,
  signing and verifying blocks, quorum certificates and view change messages. SHA-512,
  Ed25519 and the generated protobuf codec are the parameter \<open>crypto_lib\<close>; a worker's
  answer on a one-shot channel is the value of the definition.
\<close>

section \<open>Definitions\<close>

record 'k crypto_lib =
  sha512 :: "bytes \<Rightarrow> bytes"
  lib_sign :: "bytes \<Rightarrow> bytes"
  lib_verify :: "'k \<Rightarrow> bytes \<Rightarrow> bytes \<Rightarrow> bool"
  lib_verify_batch :: "bytes list \<Rightarrow> bytes list \<Rightarrow> 'k list \<Rightarrow> bool"
  pb_encode :: "proto_block \<Rightarrow> bytes"
  pb_decode :: "bytes \<Rightarrow> proto_block option"
  qc_encode :: "quorum_certificate \<Rightarrow> bytes"

text \<open>The public keys of a \<open>KeyStore\<close>; the private key is inside \<open>lib_sign\<close>.\<close>

type_synonym 'k keystore = "string \<rightharpoonup> 'k"

definition keystore_verify :: "'k crypto_lib \<Rightarrow> 'k keystore \<Rightarrow> string \<Rightarrow> bytes \<Rightarrow> bytes \<Rightarrow> bool" where
  "keystore_verify lib ks name sg data =
     (case ks name of None \<Rightarrow> False | Some k \<Rightarrow> lib_verify lib k data sg)"

datatype future_hash =
    FH_None
  | FH_Immediate bytes
  | FH_Future bytes
  | FH_FutureResult "io_error + bytes"

text \<open>\<open>FutureHash::take\<close> leaves \<open>None\<close> behind.\<close>

definition future_hash_take :: "future_hash \<Rightarrow> future_hash \<times> future_hash" where
  "future_hash_take f = (f, FH_None)"

definition hash_proto_block_ser :: "'k crypto_lib \<Rightarrow> bytes \<Rightarrow> bytes result" where
  "hash_proto_block_ser lib data =
     (if length data < DIGEST_LENGTH + SIGNATURE_LENGTH then Inl Out_Of_Bounds
      else Inr (sha512 lib
        (drop (DIGEST_LENGTH + SIGNATURE_LENGTH) data
         @ take DIGEST_LENGTH (drop SIGNATURE_LENGTH data)
         @ take SIGNATURE_LENGTH data)))"

text \<open>
  \<open>verify_qc\<close> collects keys and signatures in a loop that returns \<open>false\<close> at the first
  malformed signature or unknown signer.
\<close>

fun qc_keys :: "'k keystore \<Rightarrow> (string \<times> bytes) list \<Rightarrow> ('k list \<times> bytes list) option" where
  "qc_keys ks [] = Some ([], [])"
| "qc_keys ks ((name, sg) # sgs) =
     (if length sg \<noteq> SIGNATURE_LENGTH then None
      else case ks name of
             None \<Rightarrow> None
           | Some k \<Rightarrow> map_option (\<lambda>(kl, sl). (k # kl, sg # sl)) (qc_keys ks sgs))"

definition verify_qc :: "'k crypto_lib \<Rightarrow> 'k keystore \<Rightarrow> quorum_certificate \<Rightarrow> nat \<Rightarrow> bool" where
  "verify_qc lib ks qc min_len =
     (case qc_keys ks (qc_sig qc) of
        None \<Rightarrow> False
      | Some (keys, sigs) \<Rightarrow>
          if length keys < min_len then False
          else let msgs = map (\<lambda>_. qc_digest qc) [0..<length keys]
               in lib_verify_batch lib msgs sigs keys)"

text \<open>The command \<open>PrepareBlock\<close>.\<close>

definition await_future_hash :: "future_hash \<Rightarrow> bytes result" where
  "await_future_hash f =
     (case f of
        FH_None \<Rightarrow> Inr default_hash
      | FH_Immediate v \<Rightarrow> Inr v
      | FH_Future v \<Rightarrow> Inr v
      | FH_FutureResult r \<Rightarrow> (case r of Inl _ \<Rightarrow> Inl Unwrap_None | Inr v \<Rightarrow> Inr v))"

definition prepare_block ::
  "'k crypto_lib \<Rightarrow> proto_block \<Rightarrow> bool \<Rightarrow> future_hash \<Rightarrow> cached_block result" where
  "prepare_block lib blk0 must_sign parent_hash_rx =
     (let blk = blk0\<lparr>blk_sig := None, blk_parent := []\<rparr>
      in case serialize_proto_block_nascent (pb_encode lib) blk of
           Inl _ \<Rightarrow> Inl Unwrap_None
         | Inr buf0 \<Rightarrow>
             bindE (await_future_hash parent_hash_rx) (\<lambda>parent.
             bindE (update_parent_hash_in_proto_block_ser buf0 parent) (\<lambda>buf1.
             let hashed = drop (DIGEST_LENGTH + SIGNATURE_LENGTH) buf0
                          @ take DIGEST_LENGTH (drop SIGNATURE_LENGTH buf1);
                 blk1 = blk\<lparr>blk_parent := parent\<rparr>
             in if must_sign then
                  let partial_hsh = sha512 lib (drop SIGNATURE_LENGTH buf1);
                      sg = lib_sign lib partial_hsh;
                      blk2 = blk1\<lparr>blk_sig := Some (ProposerSig sg)\<rparr>
                  in bindE (update_signature_in_proto_block_ser buf1 sg) (\<lambda>buf2.
                       Inr \<lparr>cb_block = blk2, cb_ser = buf2,
                            cb_hash = sha512 lib (hashed @ take SIGNATURE_LENGTH buf2)\<rparr>)
                else
                  Inr \<lparr>cb_block = blk1, cb_ser = buf1,
                       cb_hash = sha512 lib (hashed @ take SIGNATURE_LENGTH buf1)\<rparr>)))"

text \<open>The command \<open>CheckBlockSer\<close>: the bytes come from the storage service.\<close>

definition check_block_ser ::
  "'k crypto_lib \<Rightarrow> bytes \<Rightarrow> io_error + bytes \<Rightarrow> (io_error + cached_block) result" where
  "check_block_ser lib hsh res =
     (case res of
        Inl e \<Rightarrow> Inr (Inl e)
      | Inr block_ser \<Rightarrow>
          bindE (hash_proto_block_ser lib block_ser) (\<lambda>chk_hsh.
            if chk_hsh \<noteq> hsh then Inr (Inl Invalid_Hash)
            else bindE (deserialize_proto_block (pb_decode lib) block_ser) (\<lambda>block.
              case block of
                Inr blk \<Rightarrow> Inr (Inr \<lparr>cb_block = blk, cb_ser = block_ser, cb_hash = hsh\<rparr>)
              | Inl _ \<Rightarrow> Inr (Inl Decode_Error))))"

text \<open>
  The command \<open>VerifyBlockSer\<close>; the second channel gets the hash of the same block, or
  the same error.
\<close>

definition verify_block_ser ::
  "'k crypto_lib \<Rightarrow> features \<Rightarrow> consensus_config \<Rightarrow> 'k keystore \<Rightarrow> nat \<Rightarrow> bytes
     \<Rightarrow> (io_error + cached_block) result" where
  "verify_block_ser lib ft cc ks min_qc_len block_ser =
     bindE (deserialize_proto_block (pb_decode lib) block_ser) (\<lambda>block.
     bindE (hash_proto_block_ser lib block_ser) (\<lambda>hsh.
       case block of
         Inl _ \<Rightarrow> Inr (Inl Decode_Error)
       | Inr blk \<Rightarrow>
           (case blk_sig blk of
              Some (ProposerSig sg) \<Rightarrow>
                (let partial_hsh = sha512 lib (drop SIGNATURE_LENGTH block_ser)
                 in bindE (get_leader_for_view ft cc (blk_view blk)) (\<lambda>leader_for_view.
                   if length sg \<noteq> SIGNATURE_LENGTH then Inr (Inl Invalid_Signature)
                   else if \<not> keystore_verify lib ks leader_for_view sg partial_hsh
                   then Inr (Inl Invalid_Signature)
                   else if \<not> list_all (\<lambda>qc. verify_qc lib ks qc min_qc_len) (blk_qc blk)
                   then Inr (Inl Invalid_QC)
                   else Inr (Inr \<lparr>cb_block = blk, cb_ser = block_ser, cb_hash = hsh\<rparr>)))
            | _ \<Rightarrow>
                if length (blk_qc blk) > 0 then Inr (Inl QC_Without_Signed_Block)
                else Inr (Inr \<lparr>cb_block = blk, cb_ser = block_ser, cb_hash = hsh\<rparr>))))"

text \<open>The commands \<open>PrepareVC\<close> and \<open>VerifyVC\<close> sign and check the same string.\<close>

definition vc_signed_bytes :: "'k crypto_lib \<Rightarrow> view_change \<Rightarrow> bytes result" where
  "vc_signed_bytes lib vc =
     bindE (case vc_fork vc of
              Some fork \<Rightarrow> if length fork > 0 then hash_proto_block_ser lib (hs_body (last fork))
                          else Inr default_hash
            | None \<Rightarrow> Inr default_hash) (\<lambda>last_block_hash.
       let last_qc_hash =
             (case vc_fork_last_qc vc of Some qc \<Rightarrow> sha512 lib (qc_encode lib qc)
              | None \<Rightarrow> default_hash)
       in Inr (last_block_hash @ last_qc_hash @ to_be 8 (vc_view vc) @ to_be 8 (vc_config_num vc)
               @ to_be 8 (vc_fork_last_n vc)))"

definition prepare_vc :: "'k crypto_lib \<Rightarrow> view_change \<Rightarrow> view_change result" where
  "prepare_vc lib vc =
     bindE (vc_signed_bytes lib vc) (\<lambda>buf. Inr (vc\<lparr>vc_fork_sig := lib_sign lib buf\<rparr>))"

definition verify_vc :: "'k crypto_lib \<Rightarrow> 'k keystore \<Rightarrow> view_change \<Rightarrow> string \<Rightarrow> bool result" where
  "verify_vc lib ks vc name =
     bindE (vc_signed_bytes lib vc) (\<lambda>buf.
       if length (vc_fork_sig vc) \<noteq> SIGNATURE_LENGTH then Inl Unwrap_None
       else Inr (keystore_verify lib ks name (vc_fork_sig vc) buf))"

text \<open>\<open>prepare_fork\<close> and \<open>prepare_for_rebroadcast\<close>: every block of a part is verified.\<close>

record multipart_fork =
  mf_fork_future :: "(io_error + cached_block) list"
  mf_remaining_parts :: nat
  mf_ae_stats :: ae_stats

definition prepare_fork ::
  "'k crypto_lib \<Rightarrow> features \<Rightarrow> consensus_config \<Rightarrow> 'k keystore \<Rightarrow> half_block list \<Rightarrow> nat
     \<Rightarrow> ae_stats \<Rightarrow> nat \<Rightarrow> (multipart_fork \<times> (io_error + bytes) list) result" where
  "prepare_fork lib ft cc ks part remaining stats min_qc_len =
     bindE (mapsE (\<lambda>e. verify_block_ser lib ft cc ks min_qc_len (hs_body e)) part) (\<lambda>blocks.
       Inr (\<lparr>mf_fork_future = blocks, mf_remaining_parts = remaining, mf_ae_stats = stats\<rparr>,
            map (mapE cb_hash) blocks))"

definition prepare_for_rebroadcast ::
  "'k crypto_lib \<Rightarrow> features \<Rightarrow> consensus_config \<Rightarrow> 'k keystore \<Rightarrow> half_block list \<Rightarrow> nat
     \<Rightarrow> ((io_error + cached_block) \<times> (io_error + bytes)) list result" where
  "prepare_for_rebroadcast lib ft cc ks part min_qc_len =
     bindE (mapsE (\<lambda>e. verify_block_ser lib ft cc ks min_qc_len (hs_body e)) part) (\<lambda>blocks.
       Inr (map (\<lambda>b. (b, mapE cb_hash b)) blocks))"

text \<open>What every handler gets from its node: libraries, features, configuration and keys.\<close>

record 'k node_env =
  env_lib :: "'k crypto_lib"
  env_ft :: features
  env_cfg :: config
  env_keys :: "'k keystore"

abbreviation env_cc :: "'k node_env \<Rightarrow> consensus_config" where
  "env_cc e \<equiv> consensus (env_cfg e)"

section \<open>Quorum certificates\<close>

lemma qc_keys_Some:
  "qc_keys ks sgs = Some (kl, sl) \<Longrightarrow>
     sl = map snd sgs \<and> map Some kl = map (\<lambda>(name, _). ks name) sgs
     \<and> (\<forall>(name, sg) \<in> set sgs. length sg = SIGNATURE_LENGTH)"
proof (induction ks sgs arbitrary: kl sl rule: qc_keys.induct)
  case (2 ks name sg sgs)
  then show ?case by (fastforce split: if_split_asm option.split_asm)
qed simp

lemma qc_keys_total:
  "(\<And>name sg. (name, sg) \<in> set sgs \<Longrightarrow> length sg = SIGNATURE_LENGTH \<and> ks name = Some (f name)) \<Longrightarrow>
     qc_keys ks sgs = Some (map (f \<circ> fst) sgs, map snd sgs)"
proof (induction sgs)
  case (Cons p sgs)
  obtain name sg where p: "p = (name, sg)" by force
  have "length sg = SIGNATURE_LENGTH \<and> ks name = Some (f name)"
    by (rule Cons.prems) (simp add: p)
  moreover have "qc_keys ks sgs = Some (map (f \<circ> fst) sgs, map snd sgs)"
    by (rule Cons.IH) (rule Cons.prems, simp)
  ultimately show ?case by (simp add: p)
qed simp

lemma verify_qcD:
  assumes "verify_qc lib ks qc min_len"
  shows "min_len \<le> length (qc_sig qc)"
    and "(name, sg) \<in> set (qc_sig qc) \<Longrightarrow> length sg = SIGNATURE_LENGTH \<and> ks name \<noteq> None"
proof -
  obtain kl sl where k: "qc_keys ks (qc_sig qc) = Some (kl, sl)" and l: "min_len \<le> length kl"
    using assms by (auto simp: verify_qc_def split: option.splits if_splits)
  from qc_keys_Some [OF k]
  have m: "map Some kl = map (\<lambda>(name, _). ks name) (qc_sig qc)"
    and s: "\<forall>(name, sg) \<in> set (qc_sig qc). length sg = SIGNATURE_LENGTH"
    by auto
  from m have "length kl = length (qc_sig qc)" by (metis length_map)
  with l show "min_len \<le> length (qc_sig qc)" by simp
  assume in_qc: "(name, sg) \<in> set (qc_sig qc)"
  then have "ks name \<in> set (map (\<lambda>(name, _). ks name) (qc_sig qc))" by force
  also have "\<dots> = Some ` set kl" by (metis m set_map)
  finally show "length sg = SIGNATURE_LENGTH \<and> ks name \<noteq> None"
    using s in_qc by auto
qed

section \<open>Hashes of prepared and verified blocks\<close>

lemma hash_prefilled:
  "wire_ok b \<Longrightarrow>
   hash_proto_block_ser lib (serialize_proto_block_prefilled enc b) =
     Inr (sha512 lib (enc (b\<lparr>blk_parent := [], blk_sig := None\<rparr>) @ blk_parent b @ wire_sig (blk_sig b)))"
  by (simp add: hash_proto_block_ser_def prefilled_eq wire_ok_def lengths)

lemma prepare_block_cases:
  assumes "prepare_block lib b must_sign f = Inr cb"
  obtains parent where
    "await_future_hash f = Inr parent" and "length parent = DIGEST_LENGTH"
    and "blk_parent (cb_block cb) = parent"
    and "cb_block cb = b\<lparr>blk_parent := parent, blk_sig := blk_sig (cb_block cb)\<rparr>"
    and "cb_ser cb = serialize_proto_block_prefilled (pb_encode lib) (cb_block cb)"
    and "wire_ok (cb_block cb)"
    and "hash_proto_block_ser lib (cb_ser cb) = Inr (cb_hash cb)"
    and "blk_sig (cb_block cb) =
      (if must_sign then Some (ProposerSig (lib_sign lib (sha512 lib (drop SIGNATURE_LENGTH (cb_ser cb)))))
       else None)"
proof -
  let ?b = "b\<lparr>blk_parent := [], blk_sig := None\<rparr>"
  have swap: "b\<lparr>blk_sig := None, blk_parent := []\<rparr> = ?b" by (cases b) simp
  have nasc: "serialize_proto_block_nascent (pb_encode lib) ?b =
      Inr (replicate 64 0 @ replicate 64 0 @ pb_encode lib ?b)"
    by (simp add: serialize_proto_block_nascent_def lengths)
  from assms nasc obtain parent buf1 where
    f: "await_future_hash f = Inr parent" and
    u: "update_parent_hash_in_proto_block_ser (replicate 64 0 @ replicate 64 0 @ pb_encode lib ?b) parent
        = Inr buf1"
    by (auto simp: prepare_block_def swap Let_def resultE split: sum.split_asm)
  from u have lp: "length parent = DIGEST_LENGTH"
    and buf1: "buf1 = replicate 64 0 @ parent @ pb_encode lib ?b"
    by (auto simp: update_parent_hash_in_proto_block_ser_def lengths split: if_splits)
  show thesis
  proof (cases must_sign)
    case False
    with assms nasc f u have cb: "cb = \<lparr>cb_block = ?b\<lparr>blk_parent := parent\<rparr>, cb_ser = buf1,
        cb_hash = sha512 lib (pb_encode lib ?b @ parent @ replicate 64 0)\<rparr>"
      using lp by (auto simp: prepare_block_def swap Let_def resultE buf1 lengths)
    show thesis
      by (rule that [OF f lp])
        (use False lp in \<open>simp_all add: cb prefilled_eq wire_sig_def wire_ok_def lengths buf1
          hash_proto_block_ser_def\<close>)
  next
    case True
    let ?sg = "lib_sign lib (sha512 lib (parent @ pb_encode lib ?b))"
    from True assms nasc f u have ls: "length ?sg = 64"
      and cb: "cb = \<lparr>cb_block = ?b\<lparr>blk_parent := parent, blk_sig := Some (ProposerSig ?sg)\<rparr>,
        cb_ser = ?sg @ parent @ pb_encode lib ?b,
        cb_hash = sha512 lib (pb_encode lib ?b @ parent @ ?sg)\<rparr>"
      using lp by (auto simp: prepare_block_def swap Let_def resultE buf1 lengths
          update_signature_in_proto_block_ser_def split: if_splits)
    show thesis
      by (rule that [OF f lp])
        (use True lp ls in \<open>simp_all add: cb prefilled_eq wire_sig_def wire_ok_def lengths
          hash_proto_block_ser_def\<close>)
  qed
qed

lemma hash_proto_block_ser_sha: "hash_proto_block_ser lib bs = Inr h \<Longrightarrow> \<exists>d. h = sha512 lib d"
  by (auto simp: hash_proto_block_ser_def split: if_split_asm)

lemma prepare_block_hash:
  assumes "prepare_block lib b must_sign f = Inr cb"
  shows "hash_proto_block_ser lib (cb_ser cb) = Inr (cb_hash cb)"
  using assms by (rule prepare_block_cases)

lemma prepare_block_total:
  assumes "await_future_hash f = Inr parent" and "length parent = DIGEST_LENGTH"
    and "must_sign \<Longrightarrow> (\<forall>d. length (lib_sign lib d) = SIGNATURE_LENGTH)"
  shows "\<exists>cb. prepare_block lib b must_sign f = Inr cb"
  using assms
  by (auto simp: prepare_block_def serialize_proto_block_nascent_def Let_def lengths
      update_parent_hash_in_proto_block_ser_def update_signature_in_proto_block_ser_def)

lemma verify_block_serD:
  assumes "verify_block_ser lib ft cc ks m ser = Inr (Inr cb)"
  shows "cb_ser cb = ser" and "hash_proto_block_ser lib ser = Inr (cb_hash cb)"
    and "deserialize_proto_block (pb_decode lib) ser = Inr (Inr (cb_block cb))"
    and "\<not> is_signed (cb_block cb) \<Longrightarrow> blk_qc (cb_block cb) = []"
    and "is_signed (cb_block cb) \<Longrightarrow> qc \<in> set (blk_qc (cb_block cb)) \<Longrightarrow> verify_qc lib ks qc m"
  using assms
  by (auto simp: verify_block_ser_def Let_def is_signed_def list_all_iff
      elim!: result_elims
      split: case_splits block_sig.split_asm)

lemma verify_block_ser_proposer:
  assumes "verify_block_ser lib ft cc ks m ser = Inr (Inr cb)"
    and "blk_sig (cb_block cb) = Some (ProposerSig sg)"
  shows "\<exists>leader. get_leader_for_view ft cc (blk_view (cb_block cb)) = Inr leader
     \<and> keystore_verify lib ks leader sg (sha512 lib (drop SIGNATURE_LENGTH ser))"
  using assms
  by (auto simp: verify_block_ser_def Let_def list_all_iff
      elim!: result_elims
      split: case_splits block_sig.split_asm)

lemma check_block_serD:
  assumes "check_block_ser lib h r = Inr (Inr cb)"
  shows "cb_hash cb = h" and "r = Inr (cb_ser cb)" and "hash_proto_block_ser lib (cb_ser cb) = Inr h"
    and "deserialize_proto_block (pb_decode lib) (cb_ser cb) = Inr (Inr (cb_block cb))"
  using assms by (auto simp: check_block_ser_def elim!: result_elims split: case_splits)

lemma prepared_verifies:
  assumes "pb_decode lib (pb_encode lib (b\<lparr>blk_parent := [], blk_sig := None\<rparr>))
             = Some (b\<lparr>blk_parent := [], blk_sig := None\<rparr>)"
    and "\<And>d. length (lib_sign lib d) = SIGNATURE_LENGTH \<and> lib_sign lib d \<noteq> replicate SIGNATURE_LENGTH 0"
    and "get_leader_for_view ft cc (blk_view b) = Inr leader" and "ks leader = Some k"
    and "\<And>d. lib_verify lib k d (lib_sign lib d)"
    and "if must_sign then list_all (\<lambda>qc. verify_qc lib ks qc m) (blk_qc b) else blk_qc b = []"
    and cb: "prepare_block lib b must_sign f = Inr cb"
  shows "verify_block_ser lib ft cc ks m (cb_ser cb) = Inr (Inr (cb\<lparr>cb_block := wire_block (cb_block cb)\<rparr>))"
proof -
  obtain p where p: "await_future_hash f = Inr p" "blk_parent (cb_block cb) = p"
      "cb_block cb = b\<lparr>blk_parent := p, blk_sig := blk_sig (cb_block cb)\<rparr>"
    and ser: "cb_ser cb = serialize_proto_block_prefilled (pb_encode lib) (cb_block cb)"
    and ok: "wire_ok (cb_block cb)"
    and h: "hash_proto_block_ser lib (cb_ser cb) = Inr (cb_hash cb)"
    and sg: "blk_sig (cb_block cb) =
      (if must_sign then Some (ProposerSig (lib_sign lib (sha512 lib (drop SIGNATURE_LENGTH (cb_ser cb)))))
       else None)"
    by (rule prepare_block_cases [OF cb])
  have strip: "(cb_block cb)\<lparr>blk_parent := [], blk_sig := None\<rparr> = b\<lparr>blk_parent := [], blk_sig := None\<rparr>"
    and flds: "blk_view (cb_block cb) = blk_view b" "blk_qc (cb_block cb) = blk_qc b"
    by (subst p(3), simp)+
  have des: "deserialize_proto_block (pb_decode lib) (cb_ser cb) = Inr (Inr (wire_block (cb_block cb)))"
    unfolding ser by (rule deserialize_prefilled) (simp_all only: strip assms(1) ok)
  show ?thesis
  proof (cases must_sign)
    case True
    have "\<not> list_all (\<lambda>x. x = 0) (lib_sign lib d)" for d
    proof
      assume "list_all (\<lambda>x. x = 0) (lib_sign lib d)"
      then have "lib_sign lib d = replicate (length (lib_sign lib d)) 0"
        by (intro replicate_eqI) (auto simp: list_all_iff)
      with assms(2) [of d] show False by simp
    qed
    with True sg have "wire_block (cb_block cb) = cb_block cb"
      by (intro wire_block_signed) simp_all
    with True sg show ?thesis
      using assms(2-6) by (simp add: verify_block_ser_def des h flds keystore_verify_def Let_def)
  next
    case False
    with sg have "blk_sig (wire_block (cb_block cb)) = Some NoSig"
      by (simp add: wire_block_def wire_sig_def list_all_iff)
    moreover have "blk_qc (wire_block (cb_block cb)) = []"
      using False assms(6) flds by (simp add: wire_block_def)
    ultimately show ?thesis by (simp add: verify_block_ser_def des h)
  qed
qed

section \<open>Properties\<close>

text \<open>A library for the concrete instances: keys are unit, the only valid signature is 64 ones.\<close>

definition demo_lib :: "proto_block \<Rightarrow> unit crypto_lib" where
  "demo_lib b0 = \<lparr>sha512 = (\<lambda>d. take 64 (d @ replicate 64 7)), lib_sign = (\<lambda>_. replicate 64 1),
     lib_verify = (\<lambda>_ _ sg. sg = replicate 64 1),
     lib_verify_batch = (\<lambda>_ sgs _. list_all (\<lambda>sg. sg = replicate 64 1) sgs),
     pb_encode = (\<lambda>_. [9]), pb_decode = (\<lambda>d. if d = [9] then Some b0 else None),
     qc_encode = (\<lambda>_. [3])\<rparr>"

definition demo_block :: "u64 \<Rightarrow> u64 \<Rightarrow> quorum_certificate list \<Rightarrow> proto_block" where
  "demo_block n v qcs = \<lparr>tx_list = [], blk_n = n, blk_parent = [], blk_view = v, blk_qc = qcs,
     blk_fork_validation = [], blk_view_is_stable = True, blk_config_num = 1, blk_sig = None\<rparr>"

definition demo_cc :: "consensus_config" where
  "demo_cc = \<lparr>node_list = [''node1'', ''node2'', ''node3'', ''node4''], learner_list = [],
     max_backlog_batch_size = 1, batch_max_delay_ms = 5, signature_max_delay_blocks = 10,
     liveness_u = 1, commit_index_gap_soft = 500, commit_index_gap_hard = 1000\<rparr>"

definition demo_cfg :: "string \<Rightarrow> config" where
  "demo_cfg name = \<lparr>net_name = name, node_infos = ''infos'', consensus = demo_cc,
     simulate_byzantine_behavior = False, byzantine_start_block = 0\<rparr>"

definition demo_ks :: "unit keystore" where
  "demo_ks = (\<lambda>_. Some ())"

text \<open>
  C21: Block round trip. A block that the leader of its view prepares (parent hash filled in,
  signed or not) is accepted by every node that verifies its bytes: the verifier gets the same
  block, the same bytes and the same hash. The signature of the wire format is the only field
  that may change its form (no signature becomes \<open>NoSig\<close>). Assumed of the libraries: the
  protobuf codec decodes what it encoded, signatures are 64 bytes, not all zero, and verify
  under the leader's public key.
\<close>

theorem prepare_then_verify:
  assumes "pb_decode lib (pb_encode lib (b\<lparr>blk_parent := [], blk_sig := None\<rparr>))
             = Some (b\<lparr>blk_parent := [], blk_sig := None\<rparr>)"
    and "\<And>d. length (lib_sign lib d) = SIGNATURE_LENGTH \<and> lib_sign lib d \<noteq> replicate SIGNATURE_LENGTH 0"
    and "get_leader_for_view ft cc (blk_view b) = Inr leader" and "ks leader = Some k"
    and "\<And>d. lib_verify lib k d (lib_sign lib d)"
    and "if must_sign then list_all (\<lambda>qc. verify_qc lib ks qc m) (blk_qc b) else blk_qc b = []"
    and "await_future_hash f = Inr parent" and "length parent = DIGEST_LENGTH"
  shows "\<exists>cb. prepare_block lib b must_sign f = Inr cb \<and>
     cb_parent cb = parent \<and>
     verify_block_ser lib ft cc ks m (cb_ser cb) = Inr (Inr (cb\<lparr>cb_block := wire_block (cb_block cb)\<rparr>))"
proof -
  obtain cb where cb: "prepare_block lib b must_sign f = Inr cb"
    using prepare_block_total [OF assms(7,8)] assms(2) by blast
  moreover have "cb_parent cb = parent"
    by (rule prepare_block_cases [OF cb]) (use assms(7) in simp)
  ultimately show ?thesis using prepared_verifies [OF assms(1-6) cb] by blast
qed

theorem prepare_then_verify_witness:
  "\<exists>cb. prepare_block (demo_lib (demo_block 1 1 [])) (demo_block 1 1 []) True FH_None = Inr cb \<and>
     cb_parent cb = default_hash \<and>
     verify_block_ser (demo_lib (demo_block 1 1 [])) pirateship demo_cc demo_ks 3 (cb_ser cb)
       = Inr (Inr (cb\<lparr>cb_block := wire_block (cb_block cb)\<rparr>))"
  by (rule prepare_then_verify [where leader = "''node1''" and k = "()"])
    (simp_all add: demo_lib_def demo_block_def demo_ks_def demo_cc_def lengths pirateship_def
      get_leader_for_view_def Let_def await_future_hash_def default_hash_def)


definition demo_qc :: quorum_certificate where
  "demo_qc = \<lparr>qc_digest = [1], qc_n = 1, qc_sig = [(''node1'', replicate 64 1)], qc_view = 1\<rparr>"

definition demo_ser :: bytes where
  "demo_ser = replicate 64 1 @ replicate 64 5 @ [9]"

lemma demo_verifies:
  "\<exists>cb. verify_block_ser (demo_lib (demo_block 2 2 [demo_qc])) pirateship demo_cc demo_ks 1 demo_ser
     = Inr (Inr cb) \<and> blk_qc (cb_block cb) = [demo_qc]"
  by (simp add: verify_block_ser_def demo_ser_def demo_lib_def demo_block_def demo_qc_def demo_cc_def
      demo_ks_def deserialize_proto_block_def hash_proto_block_ser_def lengths Let_def list_all_iff
      get_leader_for_view_def pirateship_def keystore_verify_def verify_qc_def)


text \<open>What is assumed of the library: a batch verifies if every entry of it verifies.\<close>

definition verifies_batches :: "'k crypto_lib \<Rightarrow> bool" where
  "verifies_batches lib \<longleftrightarrow> (\<forall>msgs sigs keys. length msgs = length sigs \<longrightarrow> length sigs = length keys \<longrightarrow>
     lib_verify_batch lib msgs sigs keys =
       list_all (\<lambda>i. lib_verify lib (keys ! i) (msgs ! i) (sigs ! i)) [0..<length sigs])"

lemma verify_qc_conv:
  assumes "verifies_batches lib"
  shows "verify_qc lib ks qc m \<longleftrightarrow>
     m \<le> length (qc_sig qc) \<and>
     (\<forall>(name, sg) \<in> set (qc_sig qc).
        length sg = SIGNATURE_LENGTH \<and> keystore_verify lib ks name sg (qc_digest qc))"
proof -
  have keys: "verify_qc lib ks qc m \<longleftrightarrow>
     m \<le> length (qc_sig qc) \<and>
     (\<forall>(name, sg) \<in> set (qc_sig qc). keystore_verify lib ks name sg (qc_digest qc))"
    if k: "qc_keys ks (qc_sig qc) = Some (kl, sl)" for kl sl
  proof -
    from qc_keys_Some [OF k] have sl: "sl = map snd (qc_sig qc)"
      and kl: "map Some kl = map (\<lambda>(name, _). ks name) (qc_sig qc)" by simp_all
    from kl have len: "length kl = length (qc_sig qc)" by (metis length_map)
    have nth: "ks (fst (qc_sig qc ! i)) = Some (kl ! i)" if "i < length (qc_sig qc)" for i
    proof -
      have "map Some kl ! i = map (\<lambda>(name, _). ks name) (qc_sig qc) ! i" using kl by simp
      with that len show ?thesis by (simp add: split_beta)
    qed
    show ?thesis
      by (auto simp: verify_qc_def k sl len Let_def assms [unfolded verifies_batches_def] list_all_iff keystore_verify_def nth
          all_set_conv_all_nth split_beta)
  qed
  show ?thesis
  proof (cases "qc_keys ks (qc_sig qc)")
    case None
    have "\<exists>(name, sg) \<in> set (qc_sig qc). length sg \<noteq> SIGNATURE_LENGTH \<or> ks name = None"
    proof (rule ccontr)
      assume "\<not> ?thesis"
      then have "qc_keys ks (qc_sig qc) =
          Some (map ((\<lambda>n. the (ks n)) \<circ> fst) (qc_sig qc), map snd (qc_sig qc))"
        by (intro qc_keys_total) (metis (mono_tags, lifting) case_prodI option.collapse)
      with None show False by simp
    qed
    with None show ?thesis by (fastforce simp: verify_qc_def keystore_verify_def)
  next
    case (Some a)
    then obtain kl sl where "qc_keys ks (qc_sig qc) = Some (kl, sl)" by (cases a) auto
    from keys [OF this] qc_keys_Some [OF this] show ?thesis by fastforce
  qed
qed

text \<open>
  \<open>verify_qc\<close> accepts exactly the certificates with at least the required number of list
  entries, each a 64 byte signature of the certificate's digest by a known key. The library
  is assumed to verify a batch by verifying every entry.
\<close>

theorem verify_qc_iff:
  assumes "verifies_batches lib"
  shows "verify_qc lib ks qc m \<longleftrightarrow>
     m \<le> length (qc_sig qc) \<and>
     (\<forall>(name, sg) \<in> set (qc_sig qc).
        length sg = SIGNATURE_LENGTH \<and> keystore_verify lib ks name sg (qc_digest qc))"
  by (rule verify_qc_conv [OF assms])

lemma demo_lib_batches: "verifies_batches (demo_lib b)"
  by (simp add: verifies_batches_def demo_lib_def list_all_length)

theorem verify_qc_iff_witness:
  "verify_qc (demo_lib (demo_block 1 1 [])) demo_ks demo_qc 1"
proof -
  have "verify_qc (demo_lib (demo_block 1 1 [])) demo_ks demo_qc 1 \<longleftrightarrow>
     1 \<le> length (qc_sig demo_qc) \<and>
     (\<forall>(name, sg) \<in> set (qc_sig demo_qc). length sg = SIGNATURE_LENGTH \<and>
       keystore_verify (demo_lib (demo_block 1 1 [])) demo_ks name sg (qc_digest demo_qc))"
    by (rule verify_qc_iff [OF demo_lib_batches])
  then show ?thesis
    by (simp add: demo_qc_def demo_lib_def demo_ks_def keystore_verify_def lengths)
qed

text \<open>
  C37: A quorum certificate can be made by one signer. If a single node's signature over a digest
  is valid, then the certificate that repeats that one signature as often as the threshold
  demands is accepted, whatever block number and view it claims: \<open>verify_qc\<close> checks neither
  that the signers are distinct nor that \<open>n\<close> and \<open>view\<close> are what the signers voted for.
\<close>

theorem verify_qc_single_signer:
  assumes "verifies_batches lib"
    and "length sg = SIGNATURE_LENGTH" and "keystore_verify lib ks name sg d"
  shows "verify_qc lib ks \<lparr>qc_digest = d, qc_n = n, qc_sig = replicate m (name, sg), qc_view = v\<rparr> m"
  using assms(2,3) by (simp add: verify_qc_conv [OF assms(1)])

theorem verify_qc_single_signer_witness:
  "verify_qc (demo_lib (demo_block 1 1 [])) demo_ks
     \<lparr>qc_digest = [1], qc_n = 77, qc_sig = replicate 3 (''node2'', replicate 64 1), qc_view = 42\<rparr> 3"
  by (rule verify_qc_single_signer [OF demo_lib_batches])
    (simp_all add: demo_lib_def demo_ks_def keystore_verify_def lengths)

text \<open>
  View change messages round trip. A view change message that a node prepares (\<open>PrepareVC\<close>)
  differs from the input only in the signature, and \<open>VerifyVC\<close> under the sender's key accepts
  it: both sides derive the signed string from the last block of the fork, the last
  certificate, the view, the configuration number and the last block number.
\<close>

theorem prepare_vc_verifies:
  assumes "prepare_vc lib vc = Inr vc'" and "ks name = Some k"
    and "\<And>d. length (lib_sign lib d) = SIGNATURE_LENGTH \<and> lib_verify lib k d (lib_sign lib d)"
  shows "vc'\<lparr>vc_fork_sig := vc_fork_sig vc\<rparr> = vc \<and> verify_vc lib ks vc' name = Inr True"
proof -
  obtain buf where buf: "vc_signed_bytes lib vc = Inr buf"
    and vc': "vc' = vc\<lparr>vc_fork_sig := lib_sign lib buf\<rparr>"
    using assms(1) by (auto simp: prepare_vc_def elim: bindE_InrE)
  have "vc_signed_bytes lib vc' = Inr buf"
    using buf by (simp add: vc' vc_signed_bytes_def)
  with assms(2,3) show ?thesis
    by (simp add: verify_vc_def keystore_verify_def vc')
qed

theorem prepare_vc_verifies_witness:
  "verify_vc (demo_lib (demo_block 1 1 [])) demo_ks
     \<lparr>vc_view = 3, vc_config_num = 1, vc_fork = Some [], vc_fork_sig = replicate 64 1,
      vc_fork_last_n = 0, vc_fork_last_qc = None\<rparr> ''node1'' = Inr True"
proof -
  let ?vc = "\<lparr>vc_view = 3, vc_config_num = 1, vc_fork = Some [], vc_fork_sig = [],
      vc_fork_last_n = 0, vc_fork_last_qc = None\<rparr> :: view_change"
  have "prepare_vc (demo_lib (demo_block 1 1 [])) ?vc = Inr (?vc\<lparr>vc_fork_sig := replicate 64 1\<rparr>)"
    by (simp add: prepare_vc_def vc_signed_bytes_def demo_lib_def Let_def)
  from prepare_vc_verifies [OF this, of demo_ks "''node1''" "()"] show ?thesis
    by (simp add: demo_ks_def demo_lib_def lengths)
qed

end
