(* ===== verification/ForkChoice.thy ===== *)
theory ForkChoice
  imports Crypto
begin

text \<open>
  The fork choice of a new leader (\<open>src/consensus/staging/fork_choice.rs\<close>): view change
  messages are summarised, and the summaries are filtered by the view of the last
  certificate, by possible fast path commits, by the view of the last block and by length.
  A map from senders is an association list; its order is the unspecified order of the
  \<open>HashMap\<close>.
\<close>

section \<open>Definitions\<close>

record fork_stat =
  fs_block_hashes :: "bytes list"
  fs_fork_last_n :: u64
  fs_first_n :: u64
  fs_first_parent :: bytes
  fs_last_qc :: "quorum_certificate option"
  fs_last_view :: u64
  fs_last_config_num :: u64

type_synonym fork_stats = "(sender_type \<times> fork_stat) list"

text \<open>The hash of a block is the parent of its successor; only the last one is computed.\<close>

definition fork_block_hashes :: "'k crypto_lib \<Rightarrow> proto_fork \<Rightarrow> bytes list result" where
  "fork_block_hashes lib fork =
     (if fork = [] then Inr []
      else bindE (hash_proto_block_ser lib (hs_body (last fork))) (\<lambda>last_hash.
           bindE (mapsE (\<lambda>b. unwrap (get_parent_hash_in_proto_block_ser (hs_body b))) (tl fork)) (\<lambda>hs.
             Inr (hs @ [last_hash]))))"

definition vc_stat :: "'k crypto_lib \<Rightarrow> view_change \<Rightarrow> fork_stat result" where
  "vc_stat lib vc =
     bindE (unwrap (vc_fork vc)) (\<lambda>fork.
     bindE (fork_block_hashes lib fork) (\<lambda>hs.
       Inr \<lparr>fs_block_hashes = hs,
            fs_fork_last_n = (if fork = [] then 0 else hs_n (last fork)),
            fs_first_n = (if fork = [] then 0 else hs_n (hd fork)),
            fs_first_parent =
              (if fork = [] then default_hash
               else case get_parent_hash_in_proto_block_ser (hs_body (hd fork)) of
                      None \<Rightarrow> default_hash | Some h \<Rightarrow> h),
            fs_last_qc = vc_fork_last_qc vc,
            fs_last_view = (if fork = [] then 0 else hs_view (last fork)),
            fs_last_config_num = (if fork = [] then 0 else hs_config_num (last fork))\<rparr>))"

definition vc_to_stats :: "'k crypto_lib \<Rightarrow> (sender_type \<times> view_change) list \<Rightarrow> fork_stats result" where
  "vc_to_stats lib forks = mapsE (\<lambda>(sender, vc). mapE (Pair sender) (vc_stat lib vc)) forks"

definition qc_view_of :: "fork_stat \<Rightarrow> u64" where
  "qc_view_of f = (case fs_last_qc f of None \<Rightarrow> 0 | Some qc \<Rightarrow> qc_view qc)"

definition qc_n_of :: "fork_stat \<Rightarrow> u64" where
  "qc_n_of f = (case fs_last_qc f of None \<Rightarrow> 0 | Some qc \<Rightarrow> qc_n qc)"

definition fork_choice_filter_highest_qc_view :: "fork_stats \<Rightarrow> fork_stats" where
  "fork_choice_filter_highest_qc_view stats =
     (let highest_qc_view = max_or 0 (map (qc_view_of \<circ> snd) stats)
      in filter (\<lambda>(_, f). highest_qc_view = 0 \<or>
           (case fs_last_qc f of None \<Rightarrow> False | Some qc \<Rightarrow> qc_view qc = highest_qc_view)) stats)"

text \<open>
  The fast path rule. \<open>fp_hash_at\<close> is the other fork's block with number \<open>block_n\<close>; the code
  skips forks whose \<open>fork_last_n\<close> is not above \<open>block_n\<close>, and an index beyond the list panics.
\<close>

definition fp_hash_at :: "u64 \<Rightarrow> fork_stat \<Rightarrow> bytes option result" where
  "fp_hash_at block_n other =
     (if fs_first_n other > block_n then Inr None
      else if fs_fork_last_n other \<le> block_n then Inr None
      else let idx = block_n - fs_first_n other
           in if idx < length (fs_block_hashes other) then Inr (Some (fs_block_hashes other ! idx))
              else Inl Out_Of_Bounds)"

definition fp_supported :: "fork_stats \<Rightarrow> nat \<Rightarrow> u64 \<Rightarrow> bytes \<Rightarrow> bool result" where
  "fp_supported stats thr block_n my_hash =
     bindE (mapsE (fp_hash_at block_n \<circ> snd) stats) (\<lambda>found.
       let others = List.map_filter id found;
           support = count_list others my_hash;
           anti_support = filter (\<lambda>h. h \<noteq> my_hash) others
       in Inr (support \<ge> thr \<and> max_or 0 (map (count_list anti_support) anti_support) < thr))"

definition fp_highest :: "fork_stats \<Rightarrow> nat \<Rightarrow> fork_stat \<Rightarrow> u64 option result" where
  "fp_highest stats thr stat =
     foldE (\<lambda>i best.
         let block_n = fs_first_n stat + i
         in mapE (\<lambda>ok. if ok then Some block_n else best)
              (fp_supported stats thr block_n (fs_block_hashes stat ! i)))
       [0..<length (fs_block_hashes stat)] None"

definition fork_choice_filter_fast_path :: "nat \<Rightarrow> fork_stats \<Rightarrow> fork_stats result" where
  "fork_choice_filter_fast_path thr stats =
     (let highest_qc_n = max_or 0 (map (qc_n_of \<circ> snd) stats);
          matching = length (filter (\<lambda>(_, f). case fs_last_qc f of None \<Rightarrow> False
                                              | Some qc \<Rightarrow> qc_n qc = highest_qc_n) stats)
      in if matching < thr then Inr stats
         else bindE (mapsE (\<lambda>(s, f). mapE (Pair s) (fp_highest stats thr f)) stats) (\<lambda>highest.
           let committed = List.map_filter (\<lambda>(s, v). map_option (Pair s) v) highest;
               max_index = max_or 0 (map snd committed);
               applicable = map fst (filter (\<lambda>(_, v). v \<ge> max_index) committed)
           in Inr (filter (\<lambda>(s, _). s \<in> set applicable) stats)))"

definition fork_choice_filter_highest_view :: "fork_stats \<Rightarrow> fork_stats" where
  "fork_choice_filter_highest_view stats =
     (let highest_view = max_or 0 (map (fs_last_view \<circ> snd) stats)
      in filter (\<lambda>(_, f). fs_last_view f = highest_view) stats)"

definition fork_choice_filter_highest_len :: "fork_stats \<Rightarrow> fork_stats" where
  "fork_choice_filter_highest_len stats =
     (let highest_len = max_or 0 (map (fs_fork_last_n \<circ> snd) stats)
      in filter (\<lambda>(_, f). fs_fork_last_n f = highest_len) stats)"

definition fork_choice_filter :: "features \<Rightarrow> nat \<Rightarrow> fork_stats \<Rightarrow> sender_type list result" where
  "fork_choice_filter ft fast_path_threshold stats =
     (let s1 = fork_choice_filter_highest_qc_view stats
      in bindE (if ft_fast_path ft then fork_choice_filter_fast_path fast_path_threshold s1 else Inr s1)
        (\<lambda>s2. let s3 = fork_choice_filter_highest_view s2;
                  s4 = fork_choice_filter_highest_len s3
              in Inr (map fst s4)))"

definition fork_choice_filter_from_forks ::
  "features \<Rightarrow> consensus_config \<Rightarrow> (sender_type \<times> view_change) list \<Rightarrow> fork_stats
     \<Rightarrow> view_change list result" where
  "fork_choice_filter_from_forks ft cc forks stats =
     bindE (fork_choice_filter ft (fast_path_selection_threshold cc) stats)
       (mapsE (\<lambda>s. unwrap (map_of forks s)))"

section \<open>The rules without the fast path\<close>

lemma highest_qc_view_nonempty:
  assumes "stats \<noteq> []"
  shows "fork_choice_filter_highest_qc_view stats \<noteq> []"
proof -
  let ?m = "max_or 0 (map (qc_view_of \<circ> snd) stats)"
  have "?m \<in> set (map (qc_view_of \<circ> snd) stats)" using assms by (intro max_or_in) simp
  then obtain s f where f: "(s, f) \<in> set stats" "qc_view_of f = ?m" by force
  then have "?m = 0 \<or> (case fs_last_qc f of None \<Rightarrow> False | Some qc \<Rightarrow> qc_view qc = ?m)"
    by (cases "fs_last_qc f") (simp_all add: qc_view_of_def)
  with f(1) show ?thesis
    by (auto simp: fork_choice_filter_highest_qc_view_def Let_def filter_empty_conv)
qed

lemma highest_filter_nonempty:
  assumes "stats \<noteq> []"
  shows "filter (\<lambda>(_, f). g f = max_or 0 (map (g \<circ> snd) stats)) stats \<noteq> []"
proof -
  have "max_or 0 (map (g \<circ> snd) stats) \<in> set (map (g \<circ> snd) stats)"
    using assms by (intro max_or_in) simp
  then obtain s f where "(s, f) \<in> set stats" "g f = max_or 0 (map (g \<circ> snd) stats)" by force
  then show ?thesis by (auto simp: filter_empty_conv)
qed

lemma fork_choice_slow:
  assumes "\<not> ft_fast_path ft" and "stats \<noteq> []"
  shows "\<exists>chosen. fork_choice_filter ft thr stats = Inr (map fst chosen) \<and> chosen \<noteq> []
     \<and> set chosen \<subseteq> set stats \<and> chosen =
       fork_choice_filter_highest_len (fork_choice_filter_highest_view (fork_choice_filter_highest_qc_view stats))"
proof -
  let ?s1 = "fork_choice_filter_highest_qc_view stats"
  let ?s3 = "fork_choice_filter_highest_view ?s1" and ?s4 = "fork_choice_filter_highest_len (fork_choice_filter_highest_view ?s1)"
  have "?s1 \<noteq> []" by (rule highest_qc_view_nonempty [OF assms(2)])
  then have "?s3 \<noteq> []"
    using highest_filter_nonempty [of ?s1 fs_last_view] by (simp add: fork_choice_filter_highest_view_def Let_def)
  then have "?s4 \<noteq> []"
    using highest_filter_nonempty [of ?s3 fs_fork_last_n] by (simp add: fork_choice_filter_highest_len_def Let_def)
  moreover have "set ?s4 \<subseteq> set stats"
    by (auto simp: fork_choice_filter_highest_len_def fork_choice_filter_highest_view_def
        fork_choice_filter_highest_qc_view_def Let_def)
  ultimately show ?thesis using assms(1) by (auto simp: fork_choice_filter_def Let_def)
qed

text \<open>The order in which forks are preferred: certificate view, then block view, then length.\<close>

definition fork_key :: "fork_stat \<Rightarrow> u64 \<times> u64 \<times> u64" where
  "fork_key f = (qc_view_of f, fs_last_view f, fs_fork_last_n f)"

fun key_le :: "u64 \<times> u64 \<times> u64 \<Rightarrow> u64 \<times> u64 \<times> u64 \<Rightarrow> bool" where
  "key_le (a, b, c) (a', b', c') \<longleftrightarrow> a < a' \<or> a = a' \<and> (b < b' \<or> b = b' \<and> c \<le> c')"

lemma highest_filter_le:
  assumes "(s, f) \<in> set (filter (\<lambda>(_, f). g f = max_or 0 (map (g \<circ> snd) stats)) stats)" and "(t, h) \<in> set stats"
  shows "g h \<le> g f"
  using assms by (force intro: max_or_ge)

lemma qc_filter_spec:
  assumes "(s, f) \<in> set (fork_choice_filter_highest_qc_view stats)" and "(t, h) \<in> set stats"
  shows "qc_view_of h \<le> qc_view_of f"
    and "qc_view_of h = qc_view_of f \<Longrightarrow> (t, h) \<in> set (fork_choice_filter_highest_qc_view stats)"
proof -
  let ?m = "max_or 0 (map (qc_view_of \<circ> snd) stats)"
  have le: "qc_view_of h \<le> ?m" using assms(2) by (force intro: max_or_ge)
  have lf: "qc_view_of f \<le> ?m"
    using assms(1) by (force simp: fork_choice_filter_highest_qc_view_def Let_def intro: max_or_ge)
  have f: "?m = 0 \<or> qc_view_of f = ?m"
    using assms(1) by (auto simp: fork_choice_filter_highest_qc_view_def Let_def qc_view_of_def split: case_splits)
  then show "qc_view_of h \<le> qc_view_of f" using le lf by auto
  assume "qc_view_of h = qc_view_of f"
  with f lf assms(2) show "(t, h) \<in> set (fork_choice_filter_highest_qc_view stats)"
    by (auto simp: fork_choice_filter_highest_qc_view_def Let_def qc_view_of_def split: option.split)
qed

lemma fork_choice_maximal:
  assumes "(s, f) \<in> set (fork_choice_filter_highest_len (fork_choice_filter_highest_view
       (fork_choice_filter_highest_qc_view stats)))" and "(t, h) \<in> set stats"
  shows "key_le (fork_key h) (fork_key f)"
proof -
  let ?s1 = "fork_choice_filter_highest_qc_view stats" and ?s2 = "fork_choice_filter_highest_view (fork_choice_filter_highest_qc_view stats)"
  have s2: "(s, f) \<in> set ?s2" and s1: "(s, f) \<in> set ?s1"
    using assms(1) by (auto simp: fork_choice_filter_highest_len_def fork_choice_filter_highest_view_def Let_def)
  consider "qc_view_of h < qc_view_of f" | "qc_view_of h = qc_view_of f" "(t, h) \<in> set ?s1"
    using qc_filter_spec [OF s1 assms(2)] by (cases "qc_view_of h = qc_view_of f") auto
  then show ?thesis
  proof cases
    case 1
    then show ?thesis by (simp add: fork_key_def)
  next
    case 2
    have le: "fs_last_view h \<le> fs_last_view f"
      using highest_filter_le [of s f fs_last_view ?s1 t h] s2 2(2)
      by (simp add: fork_choice_filter_highest_view_def Let_def)
    show ?thesis
    proof (cases "fs_last_view h = fs_last_view f")
      case True
      then have "(t, h) \<in> set ?s2"
        using 2(2) s2 by (auto simp: fork_choice_filter_highest_view_def Let_def)
      then have "fs_fork_last_n h \<le> fs_fork_last_n f"
        using highest_filter_le [of s f fs_fork_last_n ?s2 t h] assms(1)
        by (simp add: fork_choice_filter_highest_len_def Let_def)
      with True 2 show ?thesis by (simp add: fork_key_def)
    next
      case False
      with le 2 show ?thesis by (simp add: fork_key_def)
    qed
  qed
qed

section \<open>Properties\<close>

text \<open>
  C28: Without the fast path, the fork choice always selects a fork, and every selected fork is
  maximal: no view change message offers a fork with a certificate of a higher view, or with
  an equally high one and a last block of a higher view, or with both equal and a longer
  chain.
\<close>

theorem fork_choice_selects_best:
  assumes "\<not> ft_fast_path ft" and "stats \<noteq> []"
  shows "\<exists>chosen. fork_choice_filter ft thr stats = Inr (map fst chosen) \<and> chosen \<noteq> []
     \<and> set chosen \<subseteq> set stats
     \<and> (\<forall>(s, f) \<in> set chosen. \<forall>(t, h) \<in> set stats. key_le (fork_key h) (fork_key f))"
proof -
  obtain chosen where c: "fork_choice_filter ft thr stats = Inr (map fst chosen)" "chosen \<noteq> []"
    "set chosen \<subseteq> set stats" and eq: "chosen =
       fork_choice_filter_highest_len (fork_choice_filter_highest_view (fork_choice_filter_highest_qc_view stats))"
    using fork_choice_slow [OF assms] by blast
  have "\<forall>(s, f) \<in> set chosen. \<forall>(t, h) \<in> set stats. key_le (fork_key h) (fork_key f)"
    unfolding eq by (auto intro: fork_choice_maximal)
  with c show ?thesis by blast
qed

definition demo_stat :: "u64 \<Rightarrow> u64 \<Rightarrow> bytes list \<Rightarrow> quorum_certificate option \<Rightarrow> fork_stat" where
  "demo_stat first v hs qc = \<lparr>fs_block_hashes = hs, fs_fork_last_n = first + length hs - 1,
     fs_first_n = first, fs_first_parent = [], fs_last_qc = qc, fs_last_view = v, fs_last_config_num = 1\<rparr>"

definition demo_stats :: fork_stats where
  "demo_stats = [(Auth ''node1'' 0, demo_stat 1 1 [[1], [2]] None),
     (Auth ''node2'' 0, demo_stat 1 1 [[1], [2], [3]] None)]"

theorem fork_choice_selects_best_witness:
  "\<exists>chosen :: fork_stats. fork_choice_filter lucky_raft 2 demo_stats = Inr (map fst chosen) \<and> chosen \<noteq> []"
proof -
  have "\<not> ft_fast_path lucky_raft" and "demo_stats \<noteq> []" by (simp_all add: lucky_raft_def demo_stats_def)
  from fork_choice_selects_best [OF this, of 2] show ?thesis by blast
qed

text \<open>
  With the fast path, the fork choice can select nothing. If enough forks share the highest
  certificate but no block is supported by enough of them, the fast path rule drops every
  fork instead of leaving them to the later rules, although no block can have been committed
  on the fast path.
\<close>

theorem fast_path_drops_all_forks:
  assumes "thr \<le> length (filter (\<lambda>(_, f). case fs_last_qc f of None \<Rightarrow> False
              | Some qc \<Rightarrow> qc_n qc = max_or 0 (map (qc_n_of \<circ> snd) stats)) stats)"
    and "\<forall>(s, f) \<in> set stats. fp_highest stats thr f = Inr None"
  shows "fork_choice_filter_fast_path thr stats = Inr []"
proof -
  have "mapsE (\<lambda>(s, f). mapE (Pair s) (fp_highest stats thr f)) stats = Inr (map (\<lambda>(s, f). (s, None)) stats)"
    using assms(2) by (intro mapsE_total) auto
  moreover have "List.map_filter (\<lambda>(s, v). map_option (Pair s) v) (map (\<lambda>(s, f). (s, None :: u64 option)) xs) = []"
    for xs :: fork_stats by (induction xs) (auto simp: List.map_filter_def)
  ultimately show ?thesis
    using assms(1) by (simp add: fork_choice_filter_fast_path_def Let_def)
qed

definition demo_conflict :: fork_stats where
  "demo_conflict = [(Auth ''node1'' 0, demo_stat 2 1 [[1]] (Some demo_qc)),
     (Auth ''node2'' 0, demo_stat 2 1 [[2]] (Some demo_qc))]"

theorem fast_path_drops_all_forks_witness:
  "fork_choice_filter_fast_path 2 demo_conflict = Inr []"
  by (rule fast_path_drops_all_forks)
    (simp_all add: demo_conflict_def demo_stat_def demo_qc_def qc_n_of_def max_or_def fp_highest_def
      fp_supported_def fp_hash_at_def Let_def List.map_filter_def)

end
