(* ===== verification/Staging.thy ===== *)
theory Staging
  imports ForkChoice
begin

text \<open>
  Staging (\<open>src/consensus/staging\<close>), where all consensus decisions are made: blocks are
  appended to the pending queue, votes are counted, certificates are made, blocks are
  crash committed and byzantine committed, and views change. This theory has the
  definitions; the theories \<open>StagingInv\<close> and \<open>StagingProps\<close> have the lemmas. Every send to
  another component is appended to \<open>sg_out\<close>, in the order of the code.
\<close>

section \<open>State\<close>

record block_with_votes =
  bv_block :: cached_block
  bv_vote_sigs :: "(string \<times> sig_entry) list"
  bv_replication_set :: "string list"
  bv_qc_is_proposed :: bool
  bv_fast_qc_is_proposed :: bool

abbreviation bv_n :: "block_with_votes \<Rightarrow> u64" where
  "bv_n b \<equiv> cb_n (bv_block b)"

definition fresh_block :: "cached_block \<Rightarrow> block_with_votes" where
  "fresh_block b = \<lparr>bv_block = b, bv_vote_sigs = [], bv_replication_set = [],
     bv_qc_is_proposed = False, bv_fast_qc_is_proposed = False\<rparr>"

datatype staging_out =
    ToSequencer sequencer_command
  | ToBatchProposer bool string
  | ToClientReply client_reply_command
  | ToForkReceiver fork_receiver_command
  | ToPacemaker pacemaker_command
  | ToApp app_command
  | ToBroadcaster broadcaster_command
  | ToLogServer logserver_command
  | ToTwoPC two_pc_command
  | QcTx quorum_certificate
  | SendVote string vote
  | BroadcastVC "string list" view_change nat
  | TimerReset
  | TimerFire

record staging =
  sg_ci :: u64
  sg_bci :: u64
  sg_view :: u64
  sg_view_is_stable :: bool
  sg_config_num :: u64
  sg_last_qc :: "quorum_certificate option"
  sg_curr_parent :: "cached_block option"
  sg_pending :: "block_with_votes list"
  sg_pending_signatures :: "(u64 \<times> sig_entry) list"
  sg_vc_retry_num :: nat
  sg_storage_ack_buffer :: "storage_ack list"
  sg_ae_seen :: nat
  sg_out :: "staging_out list"

definition staging_new :: "features \<Rightarrow> staging" where
  "staging_new ft =
     \<lparr>sg_ci = 0, sg_bci = 0, sg_view = (if ft_view_change ft then 0 else 1),
      sg_view_is_stable = (\<not> ft_view_change ft), sg_config_num = 1, sg_last_qc = None,
      sg_curr_parent = None, sg_pending = [], sg_pending_signatures = [], sg_vc_retry_num = 0,
      sg_storage_ack_buffer = [], sg_ae_seen = 0, sg_out = []\<rparr>"

definition emit :: "staging_out list \<Rightarrow> staging \<Rightarrow> staging" where
  "emit os s = s\<lparr>sg_out := sg_out s @ os\<rparr>"

definition staging_i_am_leader :: "'k node_env \<Rightarrow> staging \<Rightarrow> bool result" where
  "staging_i_am_leader e s = i_am_leader (env_ft e) (env_cfg e) (sg_view s)"

section \<open>Commits\<close>

definition do_crash_commit :: "u64 \<Rightarrow> u64 \<Rightarrow> staging \<Rightarrow> staging" where
  "do_crash_commit old_ci new_ci s =
     (if new_ci \<le> old_ci then s
      else let blocks = map bv_block
                 (filter (\<lambda>b. bv_n b > old_ci \<and> bv_n b \<le> new_ci) (sg_pending s))
           in emit [ToBroadcaster (UpdateCI new_ci), ToApp (CrashCommit blocks)] (s\<lparr>sg_ci := new_ci\<rparr>))"

definition crash_commit_index :: "nat \<Rightarrow> u64 \<Rightarrow> block_with_votes list \<Rightarrow> u64" where
  "crash_commit_index thresh ci pending =
     foldl (\<lambda>ci b. if bv_n b \<le> ci then ci
                    else if length (bv_replication_set b) \<ge> thresh then bv_n b else ci) ci pending"

definition maybe_crash_commit :: "'k node_env \<Rightarrow> staging \<Rightarrow> staging result" where
  "maybe_crash_commit e s =
     (let old_ci = sg_ci s; non_bcied = int (sg_ci s) - int (sg_bci s)
      in bindE (if ft_no_qc (env_ft e) then Inr (crash_commit_threshold (env_cc e))
                else if non_bcied > int (commit_index_gap_soft (env_cc e))
                then byzantine_commit_threshold (env_ft e) (env_cc e)
                else Inr (crash_commit_threshold (env_cc e))) (\<lambda>thresh.
           let new_ci = crash_commit_index thresh (sg_ci s) (sg_pending s)
           in Inr (do_crash_commit old_ci new_ci (s\<lparr>sg_ci := new_ci\<rparr>))))"

text \<open>
  The loop of \<open>do_byzantine_commit\<close> pops blocks from the front while their number is not
  above \<open>new_bci\<close>; the popped block with that number becomes the parent of the queue.
\<close>

definition do_byzantine_commit :: "u64 \<Rightarrow> u64 \<Rightarrow> staging \<Rightarrow> staging" where
  "do_byzantine_commit old_bci new_bci s =
     (if new_bci \<le> old_bci then s
      else let popped = takeWhile (\<lambda>b. bv_n b \<le> new_bci) (sg_pending s);
               byz_blocks = map bv_block popped;
               parent = foldl (\<lambda>p b. if cb_n b = new_bci then Some b else p) (sg_curr_parent s) byz_blocks
           in emit [ToApp (ByzCommit byz_blocks), ToLogServer (LS_UpdateBCI new_bci)]
                (s\<lparr>sg_bci := new_bci,
                   sg_pending := dropWhile (\<lambda>b. bv_n b \<le> new_bci) (sg_pending s),
                   sg_curr_parent := parent\<rparr>))"

definition last_qc_n :: "staging \<Rightarrow> u64" where
  "last_qc_n s = (case sg_last_qc s of None \<Rightarrow> 0 | Some qc \<Rightarrow> qc_n qc)"

definition maybe_update_last_qc :: "quorum_certificate \<Rightarrow> staging \<Rightarrow> staging" where
  "maybe_update_last_qc qc s = (if qc_n qc > last_qc_n s then s\<lparr>sg_last_qc := Some qc\<rparr> else s)"

text \<open>The highest certificate in the pending blocks up to a number.\<close>

definition highest_qc_upto :: "u64 \<Rightarrow> u64 \<Rightarrow> block_with_votes list \<Rightarrow> u64" where
  "highest_qc_upto dflt n pending =
     max_or dflt (concat (map (\<lambda>b. map qc_n (blk_qc (cb_block (bv_block b))))
       (filter (\<lambda>b. bv_n b \<le> n) (rev pending))))"

definition new_byz_index :: "'k node_env \<Rightarrow> quorum_certificate \<Rightarrow> staging \<Rightarrow> u64" where
  "new_byz_index e incoming_qc s =
     (let old_bci = sg_bci s;
          fast = (if sg_view_is_stable s
                     \<and> length (qc_sig incoming_qc) \<ge> byzantine_fast_path_threshold (env_cc e)
                     \<and> ft_fast_path (env_ft e)
                  then qc_n incoming_qc else old_bci);
          slow0 = highest_qc_upto old_bci (qc_n incoming_qc) (sg_pending s);
          slow = (if ft_extra_qc_check (env_ft e) \<and> slow0 > old_bci
                  then highest_qc_upto old_bci slow0 (sg_pending s) else slow0)
      in max fast slow)"

definition maybe_byzantine_commit :: "'k node_env \<Rightarrow> quorum_certificate \<Rightarrow> staging \<Rightarrow> staging" where
  "maybe_byzantine_commit e incoming_qc s0 =
     (let s1 = (if sg_view s0 \<le> qc_view incoming_qc \<and> last_qc_n s0 < qc_n incoming_qc
                then maybe_update_last_qc incoming_qc (emit [TimerReset] s0) else s0);
          s = s1\<lparr>sg_pending_signatures :=
                filter (\<lambda>(n, _). n > qc_n incoming_qc) (sg_pending_signatures s1)\<rparr>
      in do_byzantine_commit (sg_bci s) (new_byz_index e incoming_qc s) s)"

definition rollback :: "u64 \<Rightarrow> staging \<Rightarrow> staging" where
  "rollback n s =
     emit [ToApp (Rollback n), ToLogServer (LS_Rollback n)]
       (s\<lparr>sg_pending := filter (\<lambda>b. bv_n b \<le> n) (sg_pending s),
          sg_pending_signatures := filter (\<lambda>(k, _). k \<le> n) (sg_pending_signatures s)\<rparr>)"

section \<open>View changes\<close>

definition get_everyone_except_me :: "'k node_env \<Rightarrow> string list" where
  "get_everyone_except_me e = filter (\<lambda>name. name \<noteq> net_name (env_cfg e)) (node_list (env_cc e))"

definition create_my_vc_msg :: "'k node_env \<Rightarrow> staging \<Rightarrow> view_change result" where
  "create_my_vc_msg e s =
     (let my_fork = (case sg_curr_parent s of Some p \<Rightarrow> [half_serialize p] | None \<Rightarrow> [])
                    @ map (half_serialize \<circ> bv_block) (sg_pending s);
          fork_last_n = (if sg_pending s \<noteq> [] then bv_n (last (sg_pending s))
                         else case sg_curr_parent s of Some p \<Rightarrow> cb_n p | None \<Rightarrow> 0)
      in prepare_vc (env_lib e)
           \<lparr>vc_view = sg_view s, vc_config_num = sg_config_num s, vc_fork = Some my_fork,
            vc_fork_sig = [], vc_fork_last_n = fork_last_n, vc_fork_last_qc = sg_last_qc s\<rparr>)"

definition update_view :: "'k node_env \<Rightarrow> u64 \<Rightarrow> u64 \<Rightarrow> staging \<Rightarrow> staging result" where
  "update_view e view_num config_num s0 =
     (let s = s0\<lparr>sg_view := view_num, sg_config_num := config_num, sg_view_is_stable := False\<rparr>
      in bindE (create_my_vc_msg e s) (\<lambda>vc_msg.
         bindE (get_leader_for_view (env_ft e) (env_cc e) view_num) (\<lambda>current_leader.
         bindE (byzantine_liveness_threshold (env_ft e) (env_cc e)) (\<lambda>thresh.
           Inr (emit [BroadcastVC (get_everyone_except_me e) vc_msg (u64_sub thresh 1)]
                 ((emit [ToSequencer (NewUnstableView view_num config_num),
                         ToBatchProposer False current_leader,
                         ToClientReply CancelAllRequests,
                         ToForkReceiver (UpdateView view_num config_num),
                         ToPacemaker (MyViewJumped view_num config_num vc_msg)] s)
                  \<lparr>sg_ae_seen := 0\<rparr>))))))"

definition maybe_update_view :: "'k node_env \<Rightarrow> u64 \<Rightarrow> u64 \<Rightarrow> staging \<Rightarrow> staging result" where
  "maybe_update_view e view_num config_num s =
     (if sg_view s \<ge> view_num then Inr s else update_view e view_num config_num s)"

definition maybe_stabilize_view :: "'k node_env \<Rightarrow> quorum_certificate \<Rightarrow> staging \<Rightarrow> staging result" where
  "maybe_stabilize_view e qc s =
     (if sg_pending s = [] then Inl Unwrap_None
      else if qc_view qc \<noteq> sg_view s then Inr s
      else bindE (get_leader_for_view (env_ft e) (env_cc e) (sg_view s)) (\<lambda>current_leader.
           bindE (staging_i_am_leader e s) (\<lambda>leader.
             Inr (emit [ToSequencer (ViewStabilised (sg_view s) (sg_config_num s)),
                        ToBatchProposer leader current_leader,
                        ToClientReply StopCancelling] (s\<lparr>sg_view_is_stable := True\<rparr>)))))"

definition stats_to_validation ::
  "fork_stats \<Rightarrow> (sender_type \<times> view_change) list \<Rightarrow> fork_validation list result" where
  "stats_to_validation stats forks =
     mapsE (\<lambda>(sender, stat).
         mapE (\<lambda>vc. \<lparr>fv_vc_view = vc_view vc, fv_vc_config_num = vc_config_num vc,
                     fv_block_hashes = fs_block_hashes stat, fv_fork_last_n = fs_fork_last_n stat,
                     fv_fork_last_qc = fs_last_qc stat, fv_fork_last_view = fs_last_view stat,
                     fv_fork_last_config_num = fs_last_config_num stat, fv_vc_sig = vc_fork_sig vc,
                     fv_sender = fst (to_name_and_sub_id sender)\<rparr>)
           (unwrap (map_of forks sender))) stats"

definition send_blocks_to_broadcaster_and_get_stats ::
  "'k node_env \<Rightarrow> view_change \<Rightarrow> staging \<Rightarrow> (staging \<times> fork_stat) result" where
  "send_blocks_to_broadcaster_and_get_stats e vc s =
     bindE (unwrap (vc_fork vc)) (\<lambda>fork.
     bindE (byzantine_liveness_threshold (env_ft e) (env_cc e)) (\<lambda>thresh.
     bindE (prepare_for_rebroadcast (env_lib e) (env_ft e) (env_cc e) (env_keys e) fork thresh) (\<lambda>futs.
     bindE (mapsE (\<lambda>(_, h). case h of Inl _ \<Rightarrow> Inl Unwrap_None | Inr x \<Rightarrow> Inr x) futs) (\<lambda>block_hashes.
     bindE (if fork = [] then Inr default_hash
            else unwrap (get_parent_hash_in_proto_block_ser (hs_body (hd fork)))) (\<lambda>first_parent.
       Inr (emit [ToBroadcaster (NextAEForkPrefix (map fst futs))] s,
            \<lparr>fs_block_hashes = block_hashes,
             fs_fork_last_n = (if fork = [] then 0 else hs_n (last fork)),
             fs_first_n = (if fork = [] then 0 else hs_n (hd fork)),
             fs_first_parent = first_parent, fs_last_qc = vc_fork_last_qc vc,
             fs_last_view = (if fork = [] then 0 else hs_view (last fork)),
             fs_last_config_num = (if fork = [] then 0 else hs_config_num (last fork))\<rparr>))))))"

definition apply_fork_choice_rule ::
  "'k node_env \<Rightarrow> (sender_type \<times> view_change) list \<Rightarrow> staging
     \<Rightarrow> (staging \<times> fork_stat \<times> fork_validation list) result" where
  "apply_fork_choice_rule e forks s =
     bindE (vc_to_stats (env_lib e) forks) (\<lambda>stats.
     bindE (stats_to_validation stats forks) (\<lambda>validation.
     bindE (fork_choice_filter_from_forks (env_ft e) (env_cc e) forks stats) (\<lambda>applicable.
       case applicable of
         [] \<Rightarrow> Inl Assertion
       | chosen # _ \<Rightarrow>
           mapE (\<lambda>(s', stat). (s', stat, validation))
             (send_blocks_to_broadcaster_and_get_stats e chosen s))))"

definition check_byz_commit_invariant :: "fork_stat \<Rightarrow> staging \<Rightarrow> u64 result" where
  "check_byz_commit_invariant chosen s =
     (if sg_bci s = 0 then Inr 0
      else bindE (unwrap (sg_curr_parent s)) (\<lambda>curr_parent.
        if fs_fork_last_n chosen = 0
        then Inr (if sg_pending s = [] then sg_bci s else bv_n (last (sg_pending s)))
        else if fs_first_n chosen \<le> sg_bci s
        then (if cb_hash curr_parent \<notin> set (fs_block_hashes chosen) then Inl Err_Unit
              else Inr (sg_bci s))
        else if fs_first_n chosen = sg_bci s + 1
        then (if cb_hash curr_parent \<noteq> fs_first_parent chosen then Inl Err_Unit else Inr (sg_bci s))
        else let find_n = fs_first_n chosen - 1
             in if \<not> list_ex (\<lambda>b. bv_n b = find_n \<and> cb_hash (bv_block b) = fs_first_parent chosen)
                       (sg_pending s)
                then Inl Err_Unit else Inr find_n))"

definition propose_new_view ::
  "'k node_env \<Rightarrow> u64 \<Rightarrow> u64 \<Rightarrow> (sender_type \<times> view_change) list \<Rightarrow> staging \<Rightarrow> staging result" where
  "propose_new_view e view_num config_num forks s =
     (if view_num \<noteq> sg_view s \<or> config_num \<noteq> sg_config_num s then Inr s
      else if sg_view_is_stable s then Inr s
      else bindE (staging_i_am_leader e s) (\<lambda>leader.
        if \<not> leader then Inr s
        else bindE (apply_fork_choice_rule e forks s) (\<lambda>(s1, chosen, validation).
          case check_byz_commit_invariant chosen s1 of
            Inl _ \<Rightarrow> Inl Unwrap_None
          | Inr retain_n \<Rightarrow>
              (let s2 = s1\<lparr>sg_pending := filter (\<lambda>b. bv_n b \<le> retain_n) (sg_pending s1)\<rparr>;
                   s3 = (if sg_ci s2 > retain_n
                         then emit [ToApp (Rollback retain_n)] (s2\<lparr>sg_ci := retain_n\<rparr>) else s2);
                   new_parent_hash =
                     (if fs_block_hashes chosen \<noteq> [] then last (fs_block_hashes chosen)
                      else if sg_pending s3 \<noteq> [] then cb_hash (bv_block (last (sg_pending s3)))
                      else case sg_curr_parent s3 of Some p \<Rightarrow> cb_hash p | None \<Rightarrow> default_hash)
               in Inr (emit [ToSequencer (NewViewMessage (sg_view s3) (sg_config_num s3) validation
                               new_parent_hash (fs_fork_last_n chosen))] s3)))))"

fun process_view_change_message :: "'k node_env \<Rightarrow> pacemaker_command \<Rightarrow> staging \<Rightarrow> staging result" where
  "process_view_change_message e (PM_UpdateView v c) s = maybe_update_view e v c s"
| "process_view_change_message e (NewViewForks v c forks) s = propose_new_view e v c forks s"
| "process_view_change_message e _ s = Inl Explicit_Panic"

section \<open>Votes and certificates\<close>

definition block_qc :: "u64 \<Rightarrow> block_with_votes \<Rightarrow> quorum_certificate" where
  "block_qc view b =
     \<lparr>qc_digest = cb_hash (bv_block b), qc_n = bv_n b,
      qc_sig = map (\<lambda>(name, sg). (name, se_sig sg)) (bv_vote_sigs b), qc_view = view\<rparr>"

text \<open>One turn of the loop in \<open>maybe_create_qcs\<close>: the block with its flags, and its certificate.\<close>

definition create_qc ::
  "nat \<Rightarrow> nat \<Rightarrow> u64 \<Rightarrow> block_with_votes \<Rightarrow> block_with_votes \<times> quorum_certificate option" where
  "create_qc thresh fast_thresh view b =
     (if bv_qc_is_proposed b \<and> bv_fast_qc_is_proposed b then (b, None)
      else let t = (if bv_qc_is_proposed b then fast_thresh else thresh)
           in if length (bv_vote_sigs b) \<ge> t
              then (b\<lparr>bv_qc_is_proposed := True,
                      bv_fast_qc_is_proposed :=
                        (if length (bv_vote_sigs b) \<ge> fast_thresh then True
                         else bv_fast_qc_is_proposed b)\<rparr>,
                    Some (block_qc view b))
              else (b, None))"

definition propose_qc :: "'k node_env \<Rightarrow> quorum_certificate \<Rightarrow> staging \<Rightarrow> staging result" where
  "propose_qc e qc s =
     bindE (if sg_view_is_stable s then Inr s else maybe_stabilize_view e qc s) (\<lambda>s1.
       Inr (maybe_byzantine_commit e qc (emit [QcTx qc] s1)))"

definition maybe_create_qcs :: "'k node_env \<Rightarrow> staging \<Rightarrow> staging result" where
  "maybe_create_qcs e s =
     bindE (byzantine_commit_threshold (env_ft e) (env_cc e)) (\<lambda>thresh.
       let made = map (create_qc thresh (byzantine_fast_path_threshold (env_cc e)) (sg_view s)) (sg_pending s)
       in foldE (propose_qc e) (List.map_filter snd made) (s\<lparr>sg_pending := map fst made\<rparr>))"

text \<open>
  \<open>process_vote\<close> walks over the pending blocks: a vote for a block is a vote for all its
  ancestors, and a signed block takes its entries out of the signature array.
\<close>

definition vote_block :: "string \<Rightarrow> u64 \<Rightarrow> sig_entry list \<Rightarrow> block_with_votes \<Rightarrow> block_with_votes" where
  "vote_block sender n sigs b =
     (let b1 = (if bv_n b \<le> n then b\<lparr>bv_replication_set := List.insert sender (bv_replication_set b)\<rparr> else b)
      in if is_signed (cb_block (bv_block b))
         then b1\<lparr>bv_vote_sigs :=
                foldl (\<lambda>m en. AList.update sender en m) (bv_vote_sigs b1) (filter (\<lambda>en. se_n en = bv_n b) sigs)\<rparr>
         else b1)"

fun vote_blocks :: "string \<Rightarrow> u64 \<Rightarrow> sig_entry list \<Rightarrow> block_with_votes list \<Rightarrow> block_with_votes list" where
  "vote_blocks sender n sigs [] = []"
| "vote_blocks sender n sigs (b # bs) =
     vote_block sender n sigs b
     # vote_blocks sender n
         (if is_signed (cb_block (bv_block b)) then filter (\<lambda>en. se_n en \<noteq> bv_n b) sigs else sigs) bs"

definition process_vote :: "'k node_env \<Rightarrow> string \<Rightarrow> vote \<Rightarrow> staging \<Rightarrow> staging result" where
  "process_vote e sender v s =
     (if sg_view s \<noteq> vote_view v then Inr s
      else if sg_pending s = [] then Inr s
      else if \<not> (bv_n (hd (sg_pending s)) \<le> vote_n v \<and> vote_n v \<le> bv_n (last (sg_pending s))) then Inr s
      else let s1 = s\<lparr>sg_pending := vote_blocks sender (vote_n v) (vote_sig_array v) (sg_pending s)\<rparr>
           in bindE (maybe_crash_commit e s1) (\<lambda>s2.
                if ft_no_qc (env_ft e) then Inr (do_byzantine_commit (sg_bci s2) (sg_ci s2) s2)
                else maybe_create_qcs e s2))"

text \<open>
  The signatures of a vote for blocks that are still pending: \<open>None\<close> if one is malformed,
  else whether each verifies.
\<close>

fun vote_sigs_verified ::
  "'k node_env \<Rightarrow> string \<Rightarrow> block_with_votes list \<Rightarrow> sig_entry list \<Rightarrow> bool list option" where
  "vote_sigs_verified e sender pending [] = Some []"
| "vote_sigs_verified e sender pending (sg # sgs) =
     (case binary_search bv_n (se_n sg) pending of
        None \<Rightarrow> vote_sigs_verified e sender pending sgs
      | Some idx \<Rightarrow>
          if length (se_sig sg) \<noteq> SIGNATURE_LENGTH then None
          else map_option ((#) (keystore_verify (env_lib e) (env_keys e) sender (se_sig sg)
                                  (cb_hash (bv_block (pending ! idx)))))
                 (vote_sigs_verified e sender pending sgs))"

definition verify_and_process_vote :: "'k node_env \<Rightarrow> string \<Rightarrow> vote \<Rightarrow> staging \<Rightarrow> staging result" where
  "verify_and_process_vote e sender v s =
     (case vote_sigs_verified e sender (sg_pending s) (vote_sig_array v) of
        None \<Rightarrow> Inr s
      | Some results \<Rightarrow> if \<not> list_all id results then Inr s else process_vote e sender v s)"

section \<open>Blocks\<close>

definition check_continuity :: "cached_block \<Rightarrow> staging \<Rightarrow> bool" where
  "check_continuity block s =
     (if sg_pending s = [] then
        (case sg_curr_parent s of
           None \<Rightarrow> cb_n block = 1
         | Some p \<Rightarrow> cb_parent block = cb_hash p \<and> cb_n block = cb_n p + 1)
      else
        (let last_block = bv_block (last (sg_pending s)); first_block = bv_block (hd (sg_pending s))
         in if cb_n block > cb_n last_block + 1 then False
            else if cb_n block < cb_n first_block then False
            else if cb_n block = cb_n last_block + 1 then cb_parent block = cb_hash last_block
            else list_ex (\<lambda>b. bv_n b = cb_n block \<and> cb_hash (bv_block b) = cb_hash block) (sg_pending s)))"

text \<open>The signature that a vote carries for the last block, if that block is signed.\<close>

definition own_sig :: "'k node_env \<Rightarrow> cached_block \<Rightarrow> sig_entry list" where
  "own_sig e b = (if is_signed (cb_block b)
     then [\<lparr>se_n = cb_n b, se_sig = lib_sign (env_lib e) (cb_hash b)\<rparr>] else [])"

text \<open>With \<open>extra_2pc\<close> the vote waits until two metadata files are stored by two-phase commit.\<close>

definition two_pc_commands :: "u64 \<Rightarrow> u64 \<Rightarrow> bytes \<Rightarrow> engraft_action \<Rightarrow> staging_out list" where
  "two_pc_commands n view digest action =
     [ToTwoPC \<lparr>tp_key = ''raft_meta'', tp_value = to_be 8 n @ to_be 8 view, tp_action = Engraft_None\<rparr>,
      ToTwoPC \<lparr>tp_key = ''log_meta'', tp_value = digest, tp_action = action\<rparr>]"

definition vote_on_last_block_for_self :: "'k node_env \<Rightarrow> storage_ack \<Rightarrow> staging \<Rightarrow> staging result" where
  "vote_on_last_block_for_self e ack s0 =
     (if sg_pending s0 = [] then Inl Err_Unit
      else let last_block = bv_block (last (sg_pending s0));
               s = s0\<lparr>sg_storage_ack_buffer := []\<rparr>;
               v = \<lparr>vote_sig_array = own_sig e last_block, vote_fork_digest = cb_hash last_block,
                    vote_n = cb_n last_block, vote_view = sg_view s, vote_config_num = sg_config_num s\<rparr>
           in if ft_extra_2pc (env_ft e)
              then Inr (emit (two_pc_commands (vote_n v) (vote_view v) (vote_fork_digest v)
                                (AsLeader (net_name (env_cfg e)) v)) s)
              else process_vote e (net_name (env_cfg e)) v s)"

definition send_vote_on_last_block_to_leader :: "'k node_env \<Rightarrow> storage_ack \<Rightarrow> staging \<Rightarrow> staging result" where
  "send_vote_on_last_block_to_leader e ack s0 =
     (if sg_pending s0 = [] then Inl Err_Unit
      else let last_block = bv_block (last (sg_pending s0));
               s1 = s0\<lparr>sg_storage_ack_buffer := []\<rparr>;
               sig_array = (if is_signed (cb_block last_block) then map snd (sg_pending_signatures s1) else []);
               own = own_sig e last_block;
               v = \<lparr>vote_sig_array = sig_array @ own, vote_fork_digest = cb_hash last_block,
                    vote_n = cb_n last_block, vote_view = sg_view s1, vote_config_num = sg_config_num s1\<rparr>;
               s = s1\<lparr>sg_pending_signatures :=
                      sg_pending_signatures s1 @ map (Pair (cb_n last_block)) own\<rparr>
           in bindE (get_leader_for_view (env_ft e) (env_cc e) (sg_view s)) (\<lambda>leader.
                Inr (emit (if ft_extra_2pc (env_ft e)
                           then two_pc_commands (vote_n v) (vote_view v) (vote_fork_digest v) (AsFollower leader v)
                           else [SendVote leader v]) s)))"

text \<open>
  The common first half of \<open>process_block_as_leader\<close> and \<open>process_block_as_follower\<close> for a
  block of the current view: the stability flag may only go down here, an unstable view
  rolls back to the block's parent, and \<open>None\<close> means the block does not continue the log.
\<close>

definition enter_same_view :: "cached_block \<Rightarrow> ae_stats \<Rightarrow> staging \<Rightarrow> staging" where
  "enter_same_view block ae s =
     (let s1 = (if sg_view_is_stable s \<or> \<not> st_view_is_stable ae
                then s\<lparr>sg_view_is_stable := st_view_is_stable ae\<rparr> else s)
      in if \<not> sg_view_is_stable s1 then rollback (u64_sub (cb_n block) 1) s1 else s1)"

definition push_block :: "cached_block \<Rightarrow> bool \<Rightarrow> staging \<Rightarrow> staging" where
  "push_block block final s =
     (emit [ToLogServer (LS_NewBlock block)] s)
       \<lparr>sg_ae_seen := sg_ae_seen s + (if final then 1 else 0),
        sg_pending := sg_pending s @ [fresh_block block]\<rparr>"

definition buffer_ack :: "storage_ack \<Rightarrow> staging \<Rightarrow> staging" where
  "buffer_ack ack s = s\<lparr>sg_storage_ack_buffer := sg_storage_ack_buffer s @ [ack]\<rparr>"

definition leader_same_view ::
  "'k node_env \<Rightarrow> cached_block \<Rightarrow> storage_ack \<Rightarrow> ae_stats \<Rightarrow> bool \<Rightarrow> staging \<Rightarrow> staging result" where
  "leader_same_view e block ack ae final s0 =
     (let s = enter_same_view block ae s0
      in if \<not> check_continuity block s then Inr s
         else let s1 = push_block block final s
              in if final then vote_on_last_block_for_self e ack s1
                 else Inr (buffer_ack ack s1))"

definition follower_qc :: "'k node_env \<Rightarrow> bool \<Rightarrow> quorum_certificate \<Rightarrow> staging \<Rightarrow> staging result" where
  "follower_qc e old_view_is_stable qc s =
     bindE (if \<not> old_view_is_stable then maybe_stabilize_view e qc s else Inr s) (\<lambda>s1.
       Inr (maybe_byzantine_commit e qc s1))"

definition gap_too_large :: "'k node_env \<Rightarrow> bool \<Rightarrow> staging \<Rightarrow> bool" where
  "gap_too_large e old_view_is_stable s \<longleftrightarrow>
     old_view_is_stable \<and> sg_ae_seen s > commit_index_gap_soft (env_cc e)
     \<and> int (sg_ci s) - int (sg_bci s) > int (commit_index_gap_hard (env_cc e))"

definition follower_same_view ::
  "'k node_env \<Rightarrow> cached_block \<Rightarrow> storage_ack \<Rightarrow> ae_stats \<Rightarrow> bool \<Rightarrow> staging \<Rightarrow> staging result" where
  "follower_same_view e block ack ae final s0 =
     (let s = enter_same_view block ae s0
      in if \<not> check_continuity block s then Inr s
         else let s1 = push_block block final s;
                  s2 = (if final then do_crash_commit (sg_ci s1) (st_ci ae) s1 else s1);
                  old_view_is_stable = sg_view_is_stable s2
              in bindE (foldE (follower_qc e old_view_is_stable) (blk_qc (cb_block block)) s2) (\<lambda>s3.
                 let s4 = (if ft_no_qc (env_ft e) \<and> final
                           then do_byzantine_commit (sg_bci s3) (sg_ci s3) s3 else s3)
                 in bindE (if final then send_vote_on_last_block_to_leader e ack s4
                           else Inr (buffer_ack ack s4)) (\<lambda>s5.
                    Inr (if gap_too_large e old_view_is_stable s5 then emit [TimerFire] s5 else s5))))"

definition clear_votes :: "block_with_votes \<Rightarrow> block_with_votes" where
  "clear_votes b = b\<lparr>bv_replication_set := [], bv_vote_sigs := []\<rparr>"

text \<open>Jumping to a higher view; the two roles differ in the configuration number and the rollback.\<close>

definition leader_jump :: "cached_block \<Rightarrow> ae_stats \<Rightarrow> staging \<Rightarrow> staging" where
  "leader_jump block ae s =
     (let s1 = emit [ToSequencer (NewUnstableView (st_view ae) (st_config_num ae)),
                     ToForkReceiver (UpdateView (st_view ae) (st_config_num ae))]
                 (s\<lparr>sg_view := st_view ae, sg_ae_seen := 0, sg_view_is_stable := False,
                    sg_config_num := st_config_num ae\<rparr>);
          s2 = emit [ToClientReply CancelAllRequests] (rollback (u64_sub (cb_n block) 1) s1)
      in s2\<lparr>sg_pending := map clear_votes (sg_pending s2)\<rparr>)"

definition follower_jump :: "cached_block \<Rightarrow> ae_stats \<Rightarrow> staging \<Rightarrow> staging" where
  "follower_jump block ae s =
     (let s1 = emit [ToSequencer (NewUnstableView (st_view ae) (blk_config_num (cb_block block))),
                     ToForkReceiver (UpdateView (st_view ae) (blk_config_num (cb_block block)))]
                 (s\<lparr>sg_view := st_view ae, sg_ae_seen := 0, sg_view_is_stable := False,
                    sg_config_num := blk_config_num (cb_block block)\<rparr>);
          s2 = emit [ToClientReply CancelAllRequests]
                 (s1\<lparr>sg_pending := filter (\<lambda>b. bv_n b < cb_n block) (sg_pending s1),
                     sg_pending_signatures :=
                       filter (\<lambda>(n, _). n < cb_n block) (sg_pending_signatures s1)\<rparr>)
      in s2\<lparr>sg_pending := map clear_votes (sg_pending s2)\<rparr>)"

text \<open>
  After a jump the source calls itself again with the same block; the view is then the
  block's view, so the call is the case for the same view of the role in the new view.
\<close>

definition same_view_by_role ::
  "'k node_env \<Rightarrow> cached_block \<Rightarrow> storage_ack \<Rightarrow> ae_stats \<Rightarrow> bool \<Rightarrow> staging \<Rightarrow> staging result" where
  "same_view_by_role e block ack ae final s =
     bindE (staging_i_am_leader e s) (\<lambda>leader.
       if leader then leader_same_view e block ack ae final s
       else follower_same_view e block ack ae final s)"

definition process_block_as_leader ::
  "'k node_env \<Rightarrow> cached_block \<Rightarrow> storage_ack \<Rightarrow> ae_stats \<Rightarrow> bool \<Rightarrow> staging \<Rightarrow> staging result" where
  "process_block_as_leader e block ack ae final s =
     (if st_view ae < sg_view s then Inr s
      else if st_view ae = sg_view s then leader_same_view e block ack ae final s
      else same_view_by_role e block ack ae final (leader_jump block ae s))"

definition process_block_as_follower ::
  "'k node_env \<Rightarrow> cached_block \<Rightarrow> storage_ack \<Rightarrow> ae_stats \<Rightarrow> bool \<Rightarrow> staging \<Rightarrow> staging result" where
  "process_block_as_follower e block ack ae final s =
     (if st_view ae < sg_view s then Inr s
      else if st_view ae = sg_view s then follower_same_view e block ack ae final s
      else same_view_by_role e block ack ae final (follower_jump block ae s))"

section \<open>The worker\<close>

text \<open>\<open>enough\<close> is the pacemaker's answer to \<open>QueryEnoughVCMsg\<close>.\<close>

definition handle_view_change_timer_tick :: "'k node_env \<Rightarrow> bool \<Rightarrow> staging \<Rightarrow> staging result" where
  "handle_view_change_timer_tick e enough s =
     (if \<not> ft_view_change (env_ft e) then Inr s
      else if sg_view s = 0 \<or> sg_view_is_stable s
      then maybe_update_view e (sg_view s + 1) (sg_config_num s) s
      else let s1 = emit [ToPacemaker (QueryEnoughVCMsg (sg_view s) (sg_config_num s))] s
           in if \<not> enough then Inr s1
              else if sg_vc_retry_num s1 \<ge> 100
              then bindE (maybe_update_view e (sg_view s1 + 1) (sg_config_num s1) s1) (\<lambda>s2.
                     Inr (s2\<lparr>sg_vc_retry_num := 0\<rparr>))
              else Inr (s1\<lparr>sg_vc_retry_num := sg_vc_retry_num s1 + 1\<rparr>))"

text \<open>The result of \<open>process_vote\<close> is dropped here (\<open>let _ =\<close>), but a panic still is one.\<close>

fun process_2pc_result :: "'k node_env \<Rightarrow> engraft_action \<Rightarrow> staging \<Rightarrow> staging result" where
  "process_2pc_result e Engraft_None s = Inr s"
| "process_2pc_result e (AsLeader name v) s = process_vote e name v s"
| "process_2pc_result e (AsFollower leader v) s = Inr (emit [SendVote leader v] s)"

datatype staging_event =
    SG_Tick bool
  | SG_Block "(cached_block \<times> storage_ack \<times> ae_stats \<times> bool) option"
  | SG_Vote "(sender_type \<times> vote) option"
  | SG_Pacemaker "pacemaker_command option"
  | SG_TwoPC "engraft_action option"

definition staging_worker :: "'k node_env \<Rightarrow> staging_event \<Rightarrow> staging \<Rightarrow> staging result" where
  "staging_worker e ev s =
     bindE (staging_i_am_leader e s) (\<lambda>leader.
       case ev of
         SG_Tick enough \<Rightarrow> handle_view_change_timer_tick e enough s
       | SG_Block None \<Rightarrow> Inl Err_Unit
       | SG_Block (Some (block, ack, ae, final)) \<Rightarrow>
           if leader then process_block_as_leader e block ack ae final s
           else process_block_as_follower e block ack ae final s
       | SG_Vote None \<Rightarrow> Inl Err_Unit
       | SG_Vote (Some (sender, v)) \<Rightarrow>
           if leader then verify_and_process_vote e (fst (to_name_and_sub_id sender)) v s else Inr s
       | SG_Pacemaker None \<Rightarrow> Inl Err_Unit
       | SG_Pacemaker (Some cmd) \<Rightarrow> process_view_change_message e cmd s
       | SG_TwoPC None \<Rightarrow> Inr s
       | SG_TwoPC (Some cmd) \<Rightarrow> if ft_extra_2pc (env_ft e) then process_2pc_result e cmd s else Inr s)"

end
