(* ===== verification/StagingInv.thy ===== *)
theory StagingInv
  imports Staging
begin

text \<open>
  The log invariant of staging. The blocks that were handed to the application as byzantine
  committed, followed by the pending blocks, are one hash chain that starts at number 1; the
  byzantine commit index is the length of the first part. Every handler keeps it, for blocks
  whose number is not pending already and whose certificates are for earlier blocks.
\<close>

section \<open>The log\<close>

fun byz_of :: "staging_out \<Rightarrow> cached_block list" where
  "byz_of (ToApp (ByzCommit bs)) = bs"
| "byz_of _ = []"

definition delivered :: "staging \<Rightarrow> cached_block list" where
  "delivered s = concat (map byz_of (sg_out s))"

definition pending_log :: "staging \<Rightarrow> cached_block list" where
  "pending_log s = map bv_block (sg_pending s)"

definition staging_log :: "staging \<Rightarrow> cached_block list" where
  "staging_log s = delivered s @ pending_log s"

abbreviation block_chain :: "cached_block list \<Rightarrow> bool" where
  "block_chain \<equiv> chain cb_n cb_hash cb_parent"

definition qcs_below :: "cached_block \<Rightarrow> bool" where
  "qcs_below b \<longleftrightarrow> (\<forall>qc \<in> set (blk_qc (cb_block b)). qc_n qc < cb_n b)"

definition last_opt :: "'a list \<Rightarrow> 'a option" where
  "last_opt xs = (if xs = [] then None else Some (last xs))"

definition staging_inv :: "staging \<Rightarrow> bool" where
  "staging_inv s \<longleftrightarrow>
     block_chain (staging_log s) \<and> (staging_log s \<noteq> [] \<longrightarrow> cb_n (hd (staging_log s)) = 1)
     \<and> sg_bci s = length (delivered s) \<and> sg_curr_parent s = last_opt (delivered s)
     \<and> (\<forall>b \<in> set (pending_log s). qcs_below b)"

text \<open>The invariant only reads these four things.\<close>

definition core :: "staging \<Rightarrow> cached_block list \<times> cached_block list \<times> u64 \<times> cached_block option" where
  "core s = (delivered s, pending_log s, sg_bci s, sg_curr_parent s)"

lemma core_eq_iff:
  "core s = core t \<longleftrightarrow> delivered s = delivered t \<and> pending_log s = pending_log t
     \<and> sg_bci s = sg_bci t \<and> sg_curr_parent s = sg_curr_parent t"
  by (auto simp: core_def)

lemma staging_inv_core: "core s = core t \<Longrightarrow> staging_inv s = staging_inv t"
  by (simp add: core_eq_iff staging_inv_def staging_log_def)

lemma staging_log_core: "core s = core t \<Longrightarrow> staging_log s = staging_log t"
  by (simp add: core_eq_iff staging_log_def)

lemma staging_inv_new: "staging_inv (staging_new ft)"
  by (simp add: staging_inv_def staging_log_def delivered_def pending_log_def staging_new_def last_opt_def)

lemma emit_fields [simp]:
  "sg_ci (emit os s) = sg_ci s" "sg_bci (emit os s) = sg_bci s" "sg_view (emit os s) = sg_view s"
  "sg_view_is_stable (emit os s) = sg_view_is_stable s" "sg_config_num (emit os s) = sg_config_num s"
  "sg_last_qc (emit os s) = sg_last_qc s" "sg_curr_parent (emit os s) = sg_curr_parent s"
  "sg_pending (emit os s) = sg_pending s" "sg_pending_signatures (emit os s) = sg_pending_signatures s"
  "sg_ae_seen (emit os s) = sg_ae_seen s" "sg_vc_retry_num (emit os s) = sg_vc_retry_num s"
  "sg_out (emit os s) = sg_out s @ os"
  by (simp_all add: emit_def)

lemma delivered_emit [simp]: "delivered (emit os s) = delivered s @ concat (map byz_of os)"
  by (simp add: delivered_def)

lemma delivered_cong: "sg_out s = sg_out t \<Longrightarrow> delivered s = delivered t"
  by (simp add: delivered_def)

lemma pending_log_emit [simp]: "pending_log (emit os s) = pending_log s"
  by (simp add: pending_log_def)

text \<open>Updates of the other fields do not touch the core.\<close>

lemma delivered_update [simp]:
  "delivered (s\<lparr>sg_ci := x1\<rparr>) = delivered s" "delivered (s\<lparr>sg_bci := x1\<rparr>) = delivered s"
  "delivered (s\<lparr>sg_view := x1\<rparr>) = delivered s" "delivered (s\<lparr>sg_view_is_stable := x2\<rparr>) = delivered s"
  "delivered (s\<lparr>sg_config_num := x1\<rparr>) = delivered s" "delivered (s\<lparr>sg_last_qc := x3\<rparr>) = delivered s"
  "delivered (s\<lparr>sg_curr_parent := x4\<rparr>) = delivered s" "delivered (s\<lparr>sg_pending := x5\<rparr>) = delivered s"
  "delivered (s\<lparr>sg_pending_signatures := x6\<rparr>) = delivered s" "delivered (s\<lparr>sg_vc_retry_num := x7\<rparr>) = delivered s"
  "delivered (s\<lparr>sg_storage_ack_buffer := x8\<rparr>) = delivered s" "delivered (s\<lparr>sg_ae_seen := x7\<rparr>) = delivered s"
  by (simp_all add: delivered_def)

lemma pending_log_update [simp]:
  "pending_log (s\<lparr>sg_ci := x1\<rparr>) = pending_log s" "pending_log (s\<lparr>sg_bci := x1\<rparr>) = pending_log s"
  "pending_log (s\<lparr>sg_view := x1\<rparr>) = pending_log s" "pending_log (s\<lparr>sg_view_is_stable := x2\<rparr>) = pending_log s"
  "pending_log (s\<lparr>sg_config_num := x1\<rparr>) = pending_log s" "pending_log (s\<lparr>sg_last_qc := x3\<rparr>) = pending_log s"
  "pending_log (s\<lparr>sg_curr_parent := x4\<rparr>) = pending_log s" "pending_log (s\<lparr>sg_pending := x5\<rparr>) = map bv_block x5"
  "pending_log (s\<lparr>sg_pending_signatures := x6\<rparr>) = pending_log s" "pending_log (s\<lparr>sg_vc_retry_num := x7\<rparr>) = pending_log s"
  "pending_log (s\<lparr>sg_storage_ack_buffer := x8\<rparr>) = pending_log s" "pending_log (s\<lparr>sg_ae_seen := x7\<rparr>) = pending_log s"
  by (simp_all add: pending_log_def)

lemma core_update [simp]:
  "core (s\<lparr>sg_ci := x1\<rparr>) = core s" "core (s\<lparr>sg_view := x1\<rparr>) = core s"
  "core (s\<lparr>sg_view_is_stable := x2\<rparr>) = core s" "core (s\<lparr>sg_config_num := x1\<rparr>) = core s"
  "core (s\<lparr>sg_last_qc := x3\<rparr>) = core s" "core (s\<lparr>sg_pending_signatures := x6\<rparr>) = core s"
  "core (s\<lparr>sg_vc_retry_num := x7\<rparr>) = core s" "core (s\<lparr>sg_storage_ack_buffer := x8\<rparr>) = core s"
  "core (s\<lparr>sg_ae_seen := x7\<rparr>) = core s"
  by (simp_all add: core_def)

lemma core_emit [simp]: "concat (map byz_of os) = [] \<Longrightarrow> core (emit os s) = core s"
  by (simp add: core_def)

lemma core_pending: "map bv_block p = pending_log s \<Longrightarrow> core (s\<lparr>sg_pending := p\<rparr>) = core s"
  by (simp add: core_def)

section \<open>Positions and numbers\<close>

lemma staging_inv_nth:
  assumes "staging_inv s" and "i < length (staging_log s)"
  shows "cb_n (staging_log s ! i) = i + 1"
  using assms chain_nth_num [of cb_n cb_hash cb_parent "staging_log s" i]
  by (auto simp: staging_inv_def)

lemma pending_nth_num:
  assumes "staging_inv s" and "i < length (sg_pending s)"
  shows "bv_n (sg_pending s ! i) = sg_bci s + i + 1"
  using staging_inv_nth [OF assms(1), of "sg_bci s + i"] assms
  by (simp add: staging_inv_def staging_log_def pending_log_def nth_append)

lemma log_length: "staging_inv s \<Longrightarrow> length (staging_log s) = sg_bci s + length (sg_pending s)"
  by (simp add: staging_inv_def staging_log_def pending_log_def)

lemma pending_num_bounds:
  assumes "staging_inv s" and "b \<in> set (sg_pending s)"
  shows "sg_bci s < bv_n b" and "bv_n b \<le> length (staging_log s)"
proof -
  from assms(2) obtain i where "i < length (sg_pending s)" "b = sg_pending s ! i"
    by (auto simp: in_set_conv_nth)
  with pending_nth_num [OF assms(1)] log_length [OF assms(1)]
  show "sg_bci s < bv_n b" and "bv_n b \<le> length (staging_log s)" by auto
qed

lemma pending_take:
  assumes "staging_inv s"
  shows "takeWhile (\<lambda>b. bv_n b \<le> k) (sg_pending s) = take (k - sg_bci s) (sg_pending s)"
proof (rule takeWhile_eq_take_P_nth)
  show "\<And>i. i < k - sg_bci s \<Longrightarrow> i < length (sg_pending s) \<Longrightarrow> bv_n (sg_pending s ! i) \<le> k"
    using pending_nth_num [OF assms] by fastforce
  show "k - sg_bci s < length (sg_pending s) \<Longrightarrow> \<not> bv_n (sg_pending s ! (k - sg_bci s)) \<le> k"
    using pending_nth_num [OF assms] by fastforce
qed

lemma pending_chain: "staging_inv s \<Longrightarrow> chain bv_n (cb_hash \<circ> bv_block) (cb_parent \<circ> bv_block) (sg_pending s)"
  by (simp add: staging_inv_def staging_log_def pending_log_def chain_append chain_map comp_def)

text \<open>Cutting the queue keeps the invariant.\<close>

lemma staging_inv_prefix:
  assumes "staging_inv s" and "delivered t = delivered s" and "sg_bci t = sg_bci s"
    and "sg_curr_parent t = sg_curr_parent s" and "pending_log t = take k (pending_log s)"
  shows "staging_inv t"
proof -
  have "staging_log t = take (length (delivered s) + k) (staging_log s)"
    using assms by (simp add: staging_log_def)
  then have "block_chain (staging_log t)" and "staging_log t \<noteq> [] \<longrightarrow> cb_n (hd (staging_log t)) = 1"
    using assms(1) chain_takeI by (auto simp: staging_inv_def)
  moreover have "\<forall>b \<in> set (pending_log t). qcs_below b"
    using assms(1,5) by (auto simp: staging_inv_def dest: in_set_takeD)
  ultimately show ?thesis using assms by (simp add: staging_inv_def)
qed

lemma filter_le_take:
  assumes "staging_inv s"
  shows "filter (\<lambda>b. bv_n b \<le> k) (sg_pending s) = take (k - sg_bci s) (sg_pending s)"
  using chain_filter_le [OF pending_chain [OF assms], of k] pending_take [OF assms] by simp

lemma filter_less_take:
  assumes "staging_inv s"
  shows "filter (\<lambda>b. bv_n b < k) (sg_pending s) = take (k - 1 - sg_bci s) (sg_pending s)"
proof (cases k)
  case 0
  then show ?thesis by simp
next
  case (Suc j)
  then show ?thesis using filter_le_take [OF assms, of j] by (simp add: less_Suc_eq_le)
qed

lemma staging_inv_retain:
  assumes "staging_inv s"
  shows "staging_inv (s\<lparr>sg_pending := filter (\<lambda>b. bv_n b \<le> k) (sg_pending s)\<rparr>)"
  using filter_le_take [OF assms]
  by (intro staging_inv_prefix [OF assms]) (auto simp: pending_log_def take_map)

lemma staging_inv_rollback: "staging_inv s \<Longrightarrow> staging_inv (rollback n s)"
  unfolding rollback_def
  by (subst staging_inv_core [where t = "s\<lparr>sg_pending := filter (\<lambda>b. bv_n b \<le> n) (sg_pending s)\<rparr>"])
    (auto simp: core_def pending_log_def staging_inv_retain)

section \<open>Byzantine commits\<close>

lemma foldl_last_match: "P x \<Longrightarrow> foldl (\<lambda>p b. if P b then Some b else p) p0 (xs @ [x]) = Some x"
  by simp

lemma do_byzantine_commit_log:
  "staging_log (do_byzantine_commit old_bci new_bci s) = staging_log s"
  by (auto simp: do_byzantine_commit_def Let_def staging_log_def pending_log_def simp flip: map_append)

lemma do_byzantine_commit_inv:
  assumes inv: "staging_inv s" and le: "new_bci \<le> length (staging_log s)"
  shows "staging_inv (do_byzantine_commit (sg_bci s) new_bci s)"
proof (cases "new_bci \<le> sg_bci s")
  case True
  then show ?thesis using inv by (simp add: do_byzantine_commit_def)
next
  case False
  let ?t = "do_byzantine_commit (sg_bci s) new_bci s" and ?k = "new_bci - sg_bci s"
  let ?pop = "takeWhile (\<lambda>b. bv_n b \<le> new_bci) (sg_pending s)"
  have k: "0 < ?k" "?k \<le> length (sg_pending s)" using False le log_length [OF inv] by auto
  have pop: "?pop = take ?k (sg_pending s)" by (rule pending_take [OF inv])
  have log: "staging_log ?t = staging_log s" by (rule do_byzantine_commit_log)
  have del: "delivered ?t = delivered s @ map bv_block ?pop"
    using False by (simp add: do_byzantine_commit_def Let_def)
  have len: "length (delivered ?t) = new_bci"
    using k False inv del pop by (simp add: staging_inv_def)
  have "?pop \<noteq> []" unfolding pop using k by auto
  then obtain ys y where ys: "?pop = ys @ [y]" by (meson rev_exhaust)
  have "y = sg_pending s ! (?k - 1)"
  proof -
    have "y = ?pop ! (length ?pop - 1)" using ys by simp
    also have "\<dots> = sg_pending s ! (?k - 1)" unfolding pop using k by simp
    finally show ?thesis .
  qed
  then have "bv_n y = new_bci" using pending_nth_num [OF inv, of "?k - 1"] k by simp
  then have "sg_curr_parent ?t = Some (bv_block y)"
    using False ys by (simp add: do_byzantine_commit_def Let_def)
  then have par: "sg_curr_parent ?t = last_opt (delivered ?t)" using del ys by (simp add: last_opt_def)
  have "\<forall>b \<in> set (pending_log ?t). qcs_below b"
    using inv False by (auto simp: staging_inv_def do_byzantine_commit_def Let_def pending_log_def
        dest: set_dropWhileD)
  moreover have "sg_bci ?t = new_bci" using False by (simp add: do_byzantine_commit_def Let_def)
  ultimately show ?thesis using inv log len par by (simp add: staging_inv_def)
qed

lemma highest_qc_upto_le:
  assumes "staging_inv s"
  shows "highest_qc_upto (sg_bci s) n (sg_pending s) \<le> length (staging_log s)"
  unfolding highest_qc_upto_def
proof (rule max_or_le)
  show "sg_bci s \<le> length (staging_log s)" using log_length [OF assms] by simp
  fix x assume "x \<in> set (concat (map (\<lambda>b. map qc_n (blk_qc (cb_block (bv_block b))))
       (filter (\<lambda>b. bv_n b \<le> n) (rev (sg_pending s)))))"
  then obtain b qc where b: "b \<in> set (sg_pending s)" "qc \<in> set (blk_qc (cb_block (bv_block b)))" "x = qc_n qc"
    by auto
  then have "x < bv_n b"
    using assms by (auto simp: staging_inv_def pending_log_def qcs_below_def)
  then show "x \<le> length (staging_log s)" using pending_num_bounds(2) [OF assms b(1)] by simp
qed

lemma new_byz_index_le:
  assumes "staging_inv s" and "qc_n qc \<le> length (staging_log s)"
  shows "new_byz_index e qc s \<le> length (staging_log s)"
  using assms highest_qc_upto_le [OF assms(1)] log_length [OF assms(1)]
  by (auto simp: new_byz_index_def Let_def)

text \<open>\<open>maybe_byzantine_commit\<close> is \<open>do_byzantine_commit\<close> on a state with the same core.\<close>

definition note_qc :: "quorum_certificate \<Rightarrow> staging \<Rightarrow> staging" where
  "note_qc qc s0 =
     (let s1 = (if sg_view s0 \<le> qc_view qc \<and> last_qc_n s0 < qc_n qc
                then maybe_update_last_qc qc (emit [TimerReset] s0) else s0)
      in s1\<lparr>sg_pending_signatures := filter (\<lambda>(n, _). n > qc_n qc) (sg_pending_signatures s1)\<rparr>)"

lemma maybe_byzantine_commit_eq:
  "maybe_byzantine_commit e qc s =
     do_byzantine_commit (sg_bci (note_qc qc s)) (new_byz_index e qc (note_qc qc s)) (note_qc qc s)"
  by (simp add: maybe_byzantine_commit_def note_qc_def Let_def)

lemma core_note_qc [simp]: "core (note_qc qc s) = core s"
  by (auto simp: note_qc_def maybe_update_last_qc_def Let_def)

lemma note_qc_fields [simp]:
  "sg_bci (note_qc qc s) = sg_bci s" "sg_ci (note_qc qc s) = sg_ci s" "sg_view (note_qc qc s) = sg_view s"
  "sg_view_is_stable (note_qc qc s) = sg_view_is_stable s" "sg_pending (note_qc qc s) = sg_pending s"
  "sg_config_num (note_qc qc s) = sg_config_num s"
  by (auto simp: note_qc_def maybe_update_last_qc_def Let_def)

lemma maybe_byzantine_commit_inv:
  assumes "staging_inv s" and "qc_n qc \<le> length (staging_log s)"
  shows "staging_inv (maybe_byzantine_commit e qc s)"
    and "staging_log (maybe_byzantine_commit e qc s) = staging_log s"
proof -
  have inv: "staging_inv (note_qc qc s)" using assms(1) staging_inv_core [of "note_qc qc s" s] by simp
  have log: "staging_log (note_qc qc s) = staging_log s" by (rule staging_log_core) simp
  have "new_byz_index e qc (note_qc qc s) \<le> length (staging_log (note_qc qc s))"
    using new_byz_index_le [OF inv] assms(2) log by simp
  then show "staging_inv (maybe_byzantine_commit e qc s)"
    unfolding maybe_byzantine_commit_eq by (rule do_byzantine_commit_inv [OF inv])
  show "staging_log (maybe_byzantine_commit e qc s) = staging_log s"
    unfolding maybe_byzantine_commit_eq by (simp add: do_byzantine_commit_log log)
qed


section \<open>Operations that keep the core\<close>

lemma core_do_crash_commit [simp]: "core (do_crash_commit a b s) = core s"
  by (auto simp: do_crash_commit_def Let_def)

lemma core_maybe_crash_commit: "maybe_crash_commit e s = Inr t \<Longrightarrow> core t = core s"
  by (auto simp: maybe_crash_commit_def Let_def elim!: result_elims)

lemma core_maybe_stabilize_view: "maybe_stabilize_view e qc s = Inr t \<Longrightarrow> core t = core s"
  by (auto simp: maybe_stabilize_view_def elim!: result_elims split: if_split_asm)

lemma core_update_view: "update_view e v c s = Inr t \<Longrightarrow> core t = core s"
  by (auto simp: update_view_def Let_def elim!: result_elims)

lemma core_maybe_update_view: "maybe_update_view e v c s = Inr t \<Longrightarrow> core t = core s"
  by (auto simp: maybe_update_view_def core_update_view split: if_split_asm)

lemma vote_block_block [simp]: "bv_block (vote_block sender n sigs b) = bv_block b"
  by (simp add: vote_block_def Let_def)

lemma vote_blocks_block [simp]: "map bv_block (vote_blocks sender n sigs bs) = map bv_block bs"
  by (induction sender n sigs bs rule: vote_blocks.induct) simp_all

lemma create_qc_block [simp]: "bv_block (fst (create_qc t f v b)) = bv_block b"
  by (simp add: create_qc_def Let_def)

lemma clear_votes_block [simp]: "bv_block (clear_votes b) = bv_block b"
  by (simp add: clear_votes_def)

lemma core_vote_blocks [simp]:
  "core (s\<lparr>sg_pending := vote_blocks sender n sigs (sg_pending s)\<rparr>) = core s"
  by (rule core_pending) (simp add: pending_log_def)

lemma core_process_steps:
  "send_vote_on_last_block_to_leader e ack s = Inr t \<Longrightarrow> core t = core s"
  by (auto simp: send_vote_on_last_block_to_leader_def two_pc_commands_def Let_def
      elim!: result_elims split: if_split_asm)

lemma core_buffer_ack [simp]: "core (buffer_ack ack s) = core s"
  by (simp add: buffer_ack_def)

lemma send_blocks_core:
  "send_blocks_to_broadcaster_and_get_stats e vc s = Inr (t, stat) \<Longrightarrow> core t = core s \<and> sg_ci t = sg_ci s"
  by (auto simp: send_blocks_to_broadcaster_and_get_stats_def elim!: result_elims)

lemma apply_fork_choice_core:
  "apply_fork_choice_rule e forks s = Inr (t, stat, val) \<Longrightarrow> core t = core s \<and> sg_ci t = sg_ci s"
  by (auto simp: apply_fork_choice_rule_def dest: send_blocks_core elim!: result_elims split: list.split_asm)

section \<open>Certificates\<close>

definition log_is :: "cached_block list \<Rightarrow> staging \<Rightarrow> bool" where
  "log_is L s \<longleftrightarrow> staging_inv s \<and> staging_log s = L"

lemma log_is_core: "core s = core t \<Longrightarrow> log_is L s = log_is L t"
  using staging_inv_core [of s t] staging_log_core [of s t] by (simp add: log_is_def)

lemma log_is_coreI: "core t = core s \<Longrightarrow> log_is L s \<Longrightarrow> log_is L t"
  by (simp add: log_is_core [of t s L])

lemma log_is_byz:
  "log_is L s \<Longrightarrow> qc_n qc \<le> length L \<Longrightarrow> log_is L (maybe_byzantine_commit e qc s)"
  using maybe_byzantine_commit_inv [of s qc e] by (simp add: log_is_def)

lemma log_is_do_byz: "log_is L s \<Longrightarrow> n \<le> length L \<Longrightarrow> log_is L (do_byzantine_commit (sg_bci s) n s)"
  using do_byzantine_commit_inv [of s n] do_byzantine_commit_log by (simp add: log_is_def)

lemma log_is_follower_qc:
  assumes "follower_qc e st qc s = Inr t" and "log_is L s" and "qc_n qc \<le> length L"
  shows "log_is L t"
proof -
  from assms(1) obtain s1 where s1: "(if \<not> st then maybe_stabilize_view e qc s else Inr s) = Inr s1"
    and t: "t = maybe_byzantine_commit e qc s1"
    by (auto simp: follower_qc_def elim!: bindE_InrE)
  have "core s1 = core s" using s1 core_maybe_stabilize_view by (auto split: if_split_asm)
  then show ?thesis unfolding t by (rule log_is_byz [OF log_is_coreI [OF _ assms(2)] assms(3)])
qed

lemma log_is_propose_qc:
  assumes "propose_qc e qc s = Inr t" and "log_is L s" and "qc_n qc \<le> length L"
  shows "log_is L t"
proof -
  from assms(1) obtain s1 where s1: "(if sg_view_is_stable s then Inr s else maybe_stabilize_view e qc s) = Inr s1"
    and t: "t = maybe_byzantine_commit e qc (emit [QcTx qc] s1)"
    by (auto simp: propose_qc_def elim!: bindE_InrE)
  have "core (emit [QcTx qc] s1) = core s"
    using s1 core_maybe_stabilize_view by (auto split: if_split_asm)
  then show ?thesis unfolding t by (rule log_is_byz [OF log_is_coreI [OF _ assms(2)] assms(3)])
qed

lemma created_qcs:
  assumes "qc \<in> set (List.map_filter snd (map (create_qc t f v) bs))"
  shows "\<exists>b \<in> set bs. qc = block_qc v b \<and> \<not> (bv_qc_is_proposed b \<and> bv_fast_qc_is_proposed b)
     \<and> (if bv_qc_is_proposed b then f else t) \<le> length (bv_vote_sigs b)"
proof -
  from assms obtain b where b: "b \<in> set bs" "snd (create_qc t f v b) = Some qc"
    by (auto simp: List.map_filter_def)
  then have "qc = block_qc v b \<and> \<not> (bv_qc_is_proposed b \<and> bv_fast_qc_is_proposed b)
     \<and> (if bv_qc_is_proposed b then f else t) \<le> length (bv_vote_sigs b)"
    by (simp add: create_qc_def Let_def split: if_split_asm)
  with b(1) show ?thesis by blast
qed

lemma log_is_create_qcs:
  assumes "maybe_create_qcs e s = Inr t" and "log_is L s"
  shows "log_is L t"
proof -
  obtain thresh where "foldE (propose_qc e)
        (List.map_filter snd (map (create_qc thresh (byzantine_fast_path_threshold (env_cc e)) (sg_view s)) (sg_pending s)))
        (s\<lparr>sg_pending := map fst (map (create_qc thresh (byzantine_fast_path_threshold (env_cc e)) (sg_view s)) (sg_pending s))\<rparr>)
      = Inr t" (is "foldE _ (List.map_filter snd ?made) ?s = _")
    using assms(1) by (auto simp: maybe_create_qcs_def Let_def elim!: bindE_InrE)
  then show ?thesis
  proof (rule foldE_invariant)
    have "core ?s = core s" by (rule core_pending) (simp add: pending_log_def comp_def)
    from log_is_core [OF this] show "log_is L ?s" using assms(2) by simp
    fix qc s1 t1 assume qc: "qc \<in> set (List.map_filter snd ?made)" and "log_is L s1" "propose_qc e qc s1 = Inr t1"
    moreover from created_qcs [OF qc] have "qc_n qc \<le> length L"
      using pending_num_bounds(2) assms(2) by (auto simp: log_is_def block_qc_def)
    ultimately show "log_is L t1" using log_is_propose_qc by blast
  qed
qed

lemma log_is_process_vote:
  assumes "process_vote e sender v s = Inr t" and "log_is L s" and "\<not> ft_no_qc (env_ft e)"
  shows "log_is L t"
proof -
  consider "t = s" | s2 where "maybe_crash_commit e
        (s\<lparr>sg_pending := vote_blocks sender (vote_n v) (vote_sig_array v) (sg_pending s)\<rparr>) = Inr s2"
      "maybe_create_qcs e s2 = Inr t"
    using assms(1,3) by (auto simp: process_vote_def Let_def elim!: bindE_InrE split: if_split_asm)
  then show ?thesis
  proof cases
    case 2
    from core_maybe_crash_commit [OF 2(1)] have "core s2 = core s" by simp
    from log_is_core [OF this] assms(2) have "log_is L s2" by simp
    with 2(2) show ?thesis by (rule log_is_create_qcs)
  qed (use assms(2) in simp)
qed

lemma log_is_verify_vote:
  assumes "verify_and_process_vote e sender v s = Inr t" and "log_is L s" and "\<not> ft_no_qc (env_ft e)"
  shows "log_is L t"
  using assms log_is_process_vote
  by (auto simp: verify_and_process_vote_def split: option.split_asm if_split_asm)

section \<open>Blocks\<close>

lemma staging_inv_enter: "staging_inv s \<Longrightarrow> staging_inv (enter_same_view block ae s)"
proof -
  assume inv: "staging_inv s"
  have "staging_inv (s\<lparr>sg_view_is_stable := b\<rparr>)" for b
    using inv staging_inv_core [of "s\<lparr>sg_view_is_stable := b\<rparr>" s] by simp
  then show ?thesis using inv by (auto simp: enter_same_view_def Let_def intro: staging_inv_rollback)
qed

text \<open>A block may not repeat a pending number; its certificates are for earlier blocks.\<close>

definition fresh_number :: "cached_block \<Rightarrow> staging \<Rightarrow> bool" where
  "fresh_number block s \<longleftrightarrow> (\<forall>b \<in> set (sg_pending s). bv_n b \<noteq> cb_n block)"

lemma check_continuity_next:
  assumes "staging_inv s" and "check_continuity block s" and "fresh_number block s"
  shows "block_chain (staging_log s @ [block])" and "cb_n block = length (staging_log s) + 1"
proof -
  let ?L = "staging_log s"
  have link: "cb_n block = length ?L + 1 \<and> (?L \<noteq> [] \<longrightarrow> cb_parent block = cb_hash (last ?L))"
  proof (cases "sg_pending s = []")
    case True
    then have L: "?L = delivered s" by (simp add: staging_log_def pending_log_def)
    show ?thesis
    proof (cases "delivered s = []")
      case True
      then have "sg_curr_parent s = None" using assms(1) by (simp add: staging_inv_def last_opt_def)
      with \<open>sg_pending s = []\<close> True L assms(2) show ?thesis by (simp add: check_continuity_def)
    next
      case False
      then have p: "sg_curr_parent s = Some (last ?L)" using assms(1) L by (simp add: staging_inv_def last_opt_def)
      have "cb_n (last ?L) = length ?L"
        using staging_inv_nth [OF assms(1), of "length ?L - 1"] False L by (simp add: last_conv_nth)
      with p \<open>sg_pending s = []\<close> assms(2) show ?thesis by (simp add: check_continuity_def)
    qed
  next
    case False
    then have L: "last ?L = bv_block (last (sg_pending s))" and "?L \<noteq> []"
      by (simp_all add: staging_log_def pending_log_def last_map)
    moreover have "cb_n (last ?L) = length ?L"
      using staging_inv_nth [OF assms(1), of "length ?L - 1"] \<open>?L \<noteq> []\<close> by (simp add: last_conv_nth)
    ultimately show ?thesis
      using False assms(2,3)
      by (auto simp: check_continuity_def Let_def fresh_number_def list_ex_iff split: if_split_asm)
  qed
  then show "cb_n block = length ?L + 1" by simp
  have "cb_n block = cb_n (last ?L) + 1" if "?L \<noteq> []"
    using link staging_inv_nth [OF assms(1), of "length ?L - 1"] that by (simp add: last_conv_nth)
  with link assms(1) show "block_chain (?L @ [block])" by (auto simp: chain_snoc staging_inv_def)
qed

lemma log_is_push:
  assumes "staging_inv s" and "check_continuity block s" and "fresh_number block s" and "qcs_below block"
  shows "log_is (staging_log s @ [block]) (push_block block final s)" and "cb_n block = length (staging_log s) + 1"
proof -
  let ?t = "push_block block final s"
  have log: "staging_log ?t = staging_log s @ [block]" and d: "delivered ?t = delivered s"
    by (simp_all add: push_block_def staging_log_def pending_log_def fresh_block_def delivered_def)
  note n = check_continuity_next [OF assms(1-3)]
  have "cb_n (hd (staging_log ?t)) = 1"
    using log n assms(1) by (cases "staging_log s = []") (simp_all add: staging_inv_def)
  moreover have "\<forall>b \<in> set (pending_log ?t). qcs_below b"
    using assms(1,4) by (auto simp: staging_inv_def pending_log_def push_block_def fresh_block_def)
  moreover have "sg_bci ?t = sg_bci s" "sg_curr_parent ?t = sg_curr_parent s" by (simp_all add: push_block_def)
  ultimately have "staging_inv ?t" using log d n assms(1) by (simp add: staging_inv_def)
  with log show "log_is (staging_log s @ [block]) ?t" by (simp add: log_is_def)
  show "cb_n block = length (staging_log s) + 1" by (rule n)
qed

text \<open>What a handler of a block of the current view makes of the log.\<close>

definition same_view_log :: "cached_block \<Rightarrow> ae_stats \<Rightarrow> staging \<Rightarrow> staging \<Rightarrow> bool" where
  "same_view_log block ae s t \<longleftrightarrow>
     log_is (staging_log (enter_same_view block ae s)) t
     \<or> log_is (staging_log (enter_same_view block ae s) @ [block]) t"

lemma log_is_vote_self:
  assumes "vote_on_last_block_for_self e ack s = Inr t" and "log_is L s" and "\<not> ft_no_qc (env_ft e)"
  shows "log_is L t"
proof -
  have "log_is L (emit os (s\<lparr>sg_storage_ack_buffer := []\<rparr>))" if "concat (map byz_of os) = []" for os
    using assms(2) log_is_core [of "emit os (s\<lparr>sg_storage_ack_buffer := []\<rparr>)" s] that by simp
  moreover have "log_is L (s\<lparr>sg_storage_ack_buffer := []\<rparr>)"
    using assms(2) log_is_core [of "s\<lparr>sg_storage_ack_buffer := []\<rparr>" s] by simp
  ultimately show ?thesis
    using assms(1,3) log_is_process_vote
    by (auto simp: vote_on_last_block_for_self_def two_pc_commands_def Let_def split: if_split_asm)
qed

lemma leader_same_view_log:
  assumes "leader_same_view e block ack ae final s = Inr t" and "staging_inv s" and "qcs_below block"
    and "fresh_number block (enter_same_view block ae s)" and "\<not> ft_no_qc (env_ft e)"
  shows "same_view_log block ae s t"
proof (cases "check_continuity block (enter_same_view block ae s)")
  case False
  then show ?thesis
    using assms(1) staging_inv_enter [OF assms(2)] by (auto simp: leader_same_view_def same_view_log_def log_is_def)
next
  case True
  let ?s = "enter_same_view block ae s" and ?p = "push_block block final (enter_same_view block ae s)"
  note push = log_is_push(1) [OF staging_inv_enter [OF assms(2)] True assms(4,3), of final]
  have "(if final then vote_on_last_block_for_self e ack ?p else Inr (buffer_ack ack ?p)) = Inr t"
    using assms(1) True by (simp add: leader_same_view_def Let_def)
  then have "log_is (staging_log ?s @ [block]) t"
    using push log_is_vote_self [OF _ push assms(5)] log_is_core [of "buffer_ack ack ?p" ?p]
    by (auto split: if_split_asm)
  then show ?thesis by (simp add: same_view_log_def)
qed

lemma follower_same_view_log:
  assumes "follower_same_view e block ack ae final s = Inr t" and "staging_inv s" and "qcs_below block"
    and "fresh_number block (enter_same_view block ae s)" and "\<not> ft_no_qc (env_ft e)"
  shows "same_view_log block ae s t"
proof (cases "check_continuity block (enter_same_view block ae s)")
  case False
  then show ?thesis
    using assms(1) staging_inv_enter [OF assms(2)] by (auto simp: follower_same_view_def same_view_log_def log_is_def)
next
  case True
  let ?s = "enter_same_view block ae s" and ?p = "push_block block final (enter_same_view block ae s)"
  let ?L = "staging_log ?s @ [block]"
  let ?c = "if final then do_crash_commit (sg_ci ?p) (st_ci ae) ?p else ?p"
  note push = log_is_push [OF staging_inv_enter [OF assms(2)] True assms(4,3)]
  have c: "log_is ?L ?c" by (rule log_is_coreI [OF _ push(1) [of final]]) simp
  obtain s3 s5 where s3: "foldE (follower_qc e (sg_view_is_stable ?c)) (blk_qc (cb_block block)) ?c = Inr s3"
    and s5: "(if final then send_vote_on_last_block_to_leader e ack s3 else Inr (buffer_ack ack s3)) = Inr s5"
    and t: "t = (if gap_too_large e (sg_view_is_stable ?c) s5 then emit [TimerFire] s5 else s5)"
    using assms(1,5) True by (auto simp: follower_same_view_def Let_def elim!: bindE_InrE)
  from s3 c have "log_is ?L s3"
  proof (rule foldE_invariant)
    fix qc s1 t1 assume "qc \<in> set (blk_qc (cb_block block))" "log_is ?L s1"
      "follower_qc e (sg_view_is_stable ?c) qc s1 = Inr t1"
    then show "log_is ?L t1"
      using assms(3) push(2) by (intro log_is_follower_qc [of e _ qc s1 t1]) (auto simp: qcs_below_def)
  qed
  moreover have "core s5 = core s3" using s5 core_process_steps by (auto split: if_split_asm)
  moreover have "core t = core s5" unfolding t by simp
  ultimately have "log_is ?L t" using log_is_core [of t s3 ?L] by simp
  then show ?thesis by (simp add: same_view_log_def)
qed

lemma same_view_log_inv: "same_view_log block ae s t \<Longrightarrow> staging_inv t"
  by (auto simp: same_view_log_def log_is_def)


section \<open>The worker keeps the invariant\<close>

text \<open>
  What staging relies on for a block: its certificates are for earlier blocks, and in a
  stable view its number is not pending already.
\<close>

fun admissible :: "staging_event \<Rightarrow> staging \<Rightarrow> bool" where
  "admissible (SG_Block (Some (block, ack, ae, final))) s \<longleftrightarrow>
     qcs_below block
     \<and> (st_view ae = sg_view s \<and> sg_view_is_stable s \<and> st_view_is_stable ae \<longrightarrow> fresh_number block s)"
| "admissible _ s \<longleftrightarrow> True"

lemma pending_rollback: "sg_pending (rollback n s) = filter (\<lambda>b. bv_n b \<le> n) (sg_pending s)"
  by (simp add: rollback_def)

lemma fresh_enter:
  assumes "staging_inv s" and "sg_view_is_stable s \<and> st_view_is_stable ae \<longrightarrow> fresh_number block s"
  shows "fresh_number block (enter_same_view block ae s)"
proof (cases "sg_view_is_stable s \<and> st_view_is_stable ae")
  case True
  then show ?thesis using assms(2) by (auto simp: enter_same_view_def Let_def fresh_number_def)
next
  case False
  have "bv_n b \<noteq> cb_n block" if "b \<in> set (sg_pending s)" "bv_n b \<le> u64_sub (cb_n block) 1" for b
    using that pending_num_bounds(1) [OF assms(1) that(1)] by (cases "cb_n block") (auto simp: u64_sub_def)
  with False show ?thesis by (auto simp: enter_same_view_def Let_def fresh_number_def pending_rollback)
qed

lemma core_clear_votes [simp]: "core (s\<lparr>sg_pending := map clear_votes (sg_pending s)\<rparr>) = core s"
  by (rule core_pending) (simp add: pending_log_def)

lemma staging_inv_leader_jump:
  assumes "staging_inv s" shows "staging_inv (leader_jump block ae s)"
proof -
  let ?s1 = "emit [ToSequencer (NewUnstableView (st_view ae) (st_config_num ae)),
       ToForkReceiver (UpdateView (st_view ae) (st_config_num ae))]
     (s\<lparr>sg_view := st_view ae, sg_ae_seen := 0, sg_view_is_stable := False, sg_config_num := st_config_num ae\<rparr>)"
  have "staging_inv ?s1" using assms staging_inv_core [of ?s1 s] by simp
  then have "staging_inv (rollback (u64_sub (cb_n block) 1) ?s1)" by (rule staging_inv_rollback)
  moreover have "core (leader_jump block ae s) = core (rollback (u64_sub (cb_n block) 1) ?s1)"
    by (simp only: leader_jump_def Let_def core_clear_votes) simp
  ultimately show ?thesis using staging_inv_core [of "leader_jump block ae s"] by simp
qed

lemma staging_inv_follower_jump:
  assumes "staging_inv s" shows "staging_inv (follower_jump block ae s)"
proof (rule staging_inv_prefix [OF assms])
  show "pending_log (follower_jump block ae s) = take (cb_n block - 1 - sg_bci s) (pending_log s)"
    using filter_less_take [OF assms, of "cb_n block"]
    by (simp add: follower_jump_def Let_def pending_log_def comp_def take_map)
qed (simp_all add: follower_jump_def Let_def)

lemma jump_view [simp]:
  "sg_view (leader_jump block ae s) = st_view ae" "sg_view (follower_jump block ae s) = st_view ae"
  "sg_view_is_stable (leader_jump block ae s) = False" "sg_view_is_stable (follower_jump block ae s) = False"
  by (simp_all add: leader_jump_def follower_jump_def rollback_def Let_def)

lemma same_view_by_role_log:
  assumes "same_view_by_role e block ack ae final s = Inr t" and "staging_inv s" and "qcs_below block"
    and "fresh_number block (enter_same_view block ae s)" and "\<not> ft_no_qc (env_ft e)"
  shows "same_view_log block ae s t"
  using assms(1) leader_same_view_log [OF _ assms(2-5)] follower_same_view_log [OF _ assms(2-5)]
  by (auto simp: same_view_by_role_def elim!: bindE_InrE split: if_split_asm)

text \<open>The log that a block event starts from: the one after a jump if its view is higher.\<close>

definition entered :: "bool \<Rightarrow> cached_block \<Rightarrow> ae_stats \<Rightarrow> staging \<Rightarrow> staging" where
  "entered leader block ae s =
     (if st_view ae = sg_view s then s
      else if leader then leader_jump block ae s else follower_jump block ae s)"

lemma staging_inv_entered: "staging_inv s \<Longrightarrow> staging_inv (entered leader block ae s)"
  by (simp add: entered_def staging_inv_leader_jump staging_inv_follower_jump)

definition process_block :: "'k node_env \<Rightarrow> bool \<Rightarrow> cached_block \<Rightarrow> storage_ack \<Rightarrow> ae_stats \<Rightarrow> bool \<Rightarrow> staging
     \<Rightarrow> staging result" where
  "process_block e leader block ack ae final s =
     (if leader then process_block_as_leader e block ack ae final s
      else process_block_as_follower e block ack ae final s)"

lemma process_block_log:
  assumes "process_block e leader block ack ae final s = Inr t"
    and "staging_inv s" and "admissible (SG_Block (Some (block, ack, ae, final))) s" and "\<not> ft_no_qc (env_ft e)"
  shows "(st_view ae < sg_view s \<and> t = s)
     \<or> (sg_view s \<le> st_view ae \<and> same_view_log block ae (entered leader block ae s) t)"
proof -
  have below: "qcs_below block" using assms(3) by simp
  let ?s = "entered leader block ae s"
  have inv: "staging_inv ?s" by (rule staging_inv_entered [OF assms(2)])
  have fresh: "fresh_number block (enter_same_view block ae ?s)" if "\<not> st_view ae < sg_view s"
    using assms(3) by (intro fresh_enter [OF inv]) (auto simp: entered_def)
  consider "st_view ae < sg_view s" "t = s" | "st_view ae = sg_view s" | "sg_view s < st_view ae"
    using assms(1) by (auto simp: process_block_def process_block_as_leader_def process_block_as_follower_def
        split: if_split_asm)
  then show ?thesis
  proof cases
    case 2
    then have "?s = s" by (simp add: entered_def)
    with 2 fresh assms(1) leader_same_view_log [OF _ inv below _ assms(4)]
      follower_same_view_log [OF _ inv below _ assms(4)]
    show ?thesis by (auto simp: process_block_def process_block_as_leader_def process_block_as_follower_def
        split: if_split_asm)
  next
    case 3
    then have "same_view_by_role e block ack ae final ?s = Inr t"
      using assms(1) by (auto simp: process_block_def process_block_as_leader_def process_block_as_follower_def
          entered_def split: if_split_asm)
    with 3 fresh same_view_by_role_log [OF _ inv below _ assms(4)] show ?thesis by auto
  qed simp
qed

lemma process_block_inv:
  assumes "process_block e leader block ack ae final s = Inr t"
    and "staging_inv s" and "admissible (SG_Block (Some (block, ack, ae, final))) s" and "\<not> ft_no_qc (env_ft e)"
  shows "staging_inv t"
  using process_block_log [OF assms] same_view_log_inv assms(2) by auto

lemma propose_new_view_cases:
  assumes "propose_new_view e v c forks s = Inr t"
  obtains "t = s"
  | s1 chosen val r where "apply_fork_choice_rule e forks s = Inr (s1, chosen, val)"
      and "check_byz_commit_invariant chosen s1 = Inr r"
      and "core t = core (s1\<lparr>sg_pending := filter (\<lambda>b. bv_n b \<le> r) (sg_pending s1)\<rparr>)"
proof -
  from assms consider "t = s" | leader s1 chosen val where "staging_i_am_leader e s = Inr leader"
    "apply_fork_choice_rule e forks s = Inr (s1, chosen, val)"
    by (auto simp: propose_new_view_def elim!: bindE_InrE split: if_split_asm)
  then show thesis
  proof cases
    case 2
    show thesis
    proof (cases "check_byz_commit_invariant chosen s1")
      case (Inl x)
      with assms 2 show thesis by (auto simp: propose_new_view_def split: if_split_asm intro: that(1))
    next
      case (Inr r)
      show thesis
      proof (cases "t = s")
        case False
        with assms 2 Inr have "core t = core (s1\<lparr>sg_pending := filter (\<lambda>b. bv_n b \<le> r) (sg_pending s1)\<rparr>)"
          by (auto simp: propose_new_view_def Let_def split: if_split_asm)
        with 2 Inr show thesis by (intro that(2))
      qed (rule that(1))
    qed
  qed (rule that(1))
qed

lemma propose_new_view_inv:
  assumes "propose_new_view e v c forks s = Inr t" and "staging_inv s"
  shows "staging_inv t"
  using assms(1)
proof (cases rule: propose_new_view_cases)
  case (2 s1 chosen val r)
  from apply_fork_choice_core [OF 2(1)] have "core s1 = core s" by simp
  with assms(2) have "staging_inv s1" using staging_inv_core [of s1 s] by simp
  with staging_inv_core [OF 2(3)] staging_inv_retain [of s1 r] show ?thesis by simp
qed (use assms(2) in simp)

end
