(* ===== verification/StagingProps.thy ===== *)
theory StagingProps
  imports StagingInv "HOL-Library.Sublist"
begin

text \<open>
  What staging promises: the log invariant over all runs, that views and commits only move
  forward, that its handlers do not fail on blocks and votes, how a view becomes stable,
  and what a certificate or a commit is backed by.
\<close>

section \<open>Progress\<close>

text \<open>Every handler only appends to the output and only raises the view and the commit index.\<close>

definition progress :: "staging \<Rightarrow> staging \<Rightarrow> bool" where
  "progress s t \<longleftrightarrow> (\<exists>os. sg_out t = sg_out s @ os) \<and> sg_bci s \<le> sg_bci t \<and> sg_view s \<le> sg_view t"

lemma progressI [intro?]:
  "sg_out t = sg_out s @ os \<Longrightarrow> sg_bci s \<le> sg_bci t \<Longrightarrow> sg_view s \<le> sg_view t \<Longrightarrow> progress s t"
  by (auto simp: progress_def)

lemma progress_refl [simp]: "progress s s"
  by (simp add: progress_def)

lemma progress_trans: "progress s t \<Longrightarrow> progress t u \<Longrightarrow> progress s u"
  by (auto simp: progress_def)

lemma progress_same:
  "sg_out t = sg_out s \<Longrightarrow> sg_bci t = sg_bci s \<Longrightarrow> sg_view t = sg_view s \<Longrightarrow> progress s t"
  by (simp add: progress_def)

lemma progress_emit [simp]: "progress s (emit os s)"
  by (simp add: progress_def)

lemma progress_foldE:
  assumes "foldE f xs s = Inr t" and "\<And>x s t. f x s = Inr t \<Longrightarrow> progress s t"
  shows "progress s t"
proof (rule foldE_invariant [OF assms(1), where I = "progress s"])
  show "\<And>x t u. x \<in> set xs \<Longrightarrow> progress s t \<Longrightarrow> f x t = Inr u \<Longrightarrow> progress s u"
    using assms(2) progress_trans by blast
qed simp

lemma progress_do_crash: "progress s (do_crash_commit a b s)"
  by (simp add: do_crash_commit_def Let_def progress_def)

lemma progress_do_byz: "progress s (do_byzantine_commit (sg_bci s) n s)"
  by (simp add: do_byzantine_commit_def Let_def progress_def)

lemma progress_note_qc: "progress s (note_qc qc s)"
  by (auto simp: note_qc_def maybe_update_last_qc_def Let_def progress_def)

lemma progress_maybe_byz: "progress s (maybe_byzantine_commit e qc s)"
  unfolding maybe_byzantine_commit_eq by (rule progress_trans [OF progress_note_qc progress_do_byz])

lemma progress_rollback: "progress s (rollback n s)"
  by (simp add: rollback_def progress_def)

lemma progress_stabilize: "maybe_stabilize_view e qc s = Inr t \<Longrightarrow> progress s t"
  by (auto simp: maybe_stabilize_view_def progress_def elim!: result_elims split: if_split_asm)

lemma progress_maybe_update_view: "maybe_update_view e v c s = Inr t \<Longrightarrow> progress s t"
  by (auto simp: maybe_update_view_def update_view_def progress_def Let_def elim!: result_elims split: if_split_asm)

lemma progress_maybe_crash: "maybe_crash_commit e s = Inr t \<Longrightarrow> progress s t"
  by (auto simp: maybe_crash_commit_def do_crash_commit_def Let_def progress_def elim!: result_elims)

lemma progress_follower_qc: "follower_qc e st qc s = Inr t \<Longrightarrow> progress s t"
  by (auto simp: follower_qc_def elim!: bindE_InrE split: if_split_asm
      intro: progress_maybe_byz progress_trans [OF progress_stabilize progress_maybe_byz])

lemma progress_propose_qc: "propose_qc e qc s = Inr t \<Longrightarrow> progress s t"
  by (auto simp: propose_qc_def elim!: bindE_InrE split: if_split_asm
      intro: progress_trans [OF progress_emit progress_maybe_byz]
        progress_trans [OF progress_stabilize progress_trans [OF progress_emit progress_maybe_byz]])

lemma progress_pending: "progress s (t\<lparr>sg_pending := p\<rparr>) \<longleftrightarrow> progress s t"
  "progress (s\<lparr>sg_pending := p\<rparr>) t \<longleftrightarrow> progress s t"
  by (simp_all add: progress_def)

lemma progress_create_qcs: "maybe_create_qcs e s = Inr t \<Longrightarrow> progress s t"
  by (auto simp: maybe_create_qcs_def Let_def elim!: bindE_InrE
      dest!: progress_foldE [OF _ progress_propose_qc] simp: progress_pending)

lemma progress_process_vote:
  assumes "process_vote e sender v s = Inr t" shows "progress s t"
proof -
  consider "t = s" | s2 where "maybe_crash_commit e
        (s\<lparr>sg_pending := vote_blocks sender (vote_n v) (vote_sig_array v) (sg_pending s)\<rparr>) = Inr s2"
      "t = do_byzantine_commit (sg_bci s2) (sg_ci s2) s2 \<or> maybe_create_qcs e s2 = Inr t"
    using assms by (auto simp: process_vote_def Let_def elim!: bindE_InrE split: if_split_asm)
  then show ?thesis
  proof cases
    case 2
    from progress_maybe_crash [OF 2(1)] have "progress s s2" by (simp add: progress_pending)
    with 2(2) show ?thesis using progress_do_byz progress_create_qcs progress_trans by blast
  qed simp
qed

lemma progress_vote_self: "vote_on_last_block_for_self e ack s = Inr t \<Longrightarrow> progress s t"
  by (auto simp: vote_on_last_block_for_self_def Let_def progress_def split: if_split_asm
      dest!: progress_process_vote)

lemma progress_send_vote: "send_vote_on_last_block_to_leader e ack s = Inr t \<Longrightarrow> progress s t"
  by (auto simp: send_vote_on_last_block_to_leader_def Let_def progress_def elim!: bindE_InrE split: if_split_asm)

lemma progress_enter: "progress s (enter_same_view block ae s)"
  by (simp add: enter_same_view_def rollback_def Let_def progress_def)

lemma progress_push: "progress s (push_block block final s)"
  by (simp add: push_block_def progress_def)

lemma progress_buffer: "progress s (buffer_ack ack s)"
  by (simp add: buffer_ack_def progress_def)

lemmas progress_intros = progress_refl progress_trans [OF progress_enter] progress_trans [OF progress_push]
  progress_trans [OF progress_do_crash]

lemma progress_leader_same_view:
  assumes "leader_same_view e block ack ae final s = Inr t" shows "progress s t"
proof -
  let ?s = "enter_same_view block ae s"
  have "t = ?s \<or> progress (push_block block final ?s) t"
    using assms by (auto simp: leader_same_view_def Let_def progress_buffer split: if_split_asm dest: progress_vote_self)
  then show ?thesis using progress_trans [OF progress_enter progress_trans [OF progress_push]] progress_enter by blast
qed

lemma progress_follower_same_view:
  assumes "follower_same_view e block ack ae final s = Inr t" shows "progress s t"
proof (cases "check_continuity block (enter_same_view block ae s)")
  case False
  then show ?thesis using assms progress_enter by (auto simp: follower_same_view_def)
next
  case True
  let ?p = "push_block block final (enter_same_view block ae s)"
  let ?c = "if final then do_crash_commit (sg_ci ?p) (st_ci ae) ?p else ?p"
  obtain s3 s4 s5 where s3: "foldE (follower_qc e (sg_view_is_stable ?c)) (blk_qc (cb_block block)) ?c = Inr s3"
    and s4: "s4 = (if ft_no_qc (env_ft e) \<and> final then do_byzantine_commit (sg_bci s3) (sg_ci s3) s3 else s3)"
    and s5: "(if final then send_vote_on_last_block_to_leader e ack s4 else Inr (buffer_ack ack s4)) = Inr s5"
    and t: "t = (if gap_too_large e (sg_view_is_stable ?c) s5 then emit [TimerFire] s5 else s5)"
    using assms True by (auto simp: follower_same_view_def Let_def elim!: bindE_InrE)
  have "progress s ?p" by (rule progress_trans [OF progress_enter progress_push])
  moreover have "progress ?p ?c" using progress_do_crash by simp
  moreover have "progress ?c s3" by (rule progress_foldE [OF s3]) (rule progress_follower_qc)
  moreover have "progress s3 s4" unfolding s4 using progress_do_byz by simp
  moreover have "progress s4 s5" using s5 progress_send_vote progress_buffer by (auto split: if_split_asm)
  moreover have "progress s5 t" unfolding t by simp
  ultimately show ?thesis using progress_trans by meson
qed

lemma progress_same_view_by_role: "same_view_by_role e block ack ae final s = Inr t \<Longrightarrow> progress s t"
  by (auto simp: same_view_by_role_def elim!: bindE_InrE split: if_split_asm
      dest: progress_leader_same_view progress_follower_same_view)

lemma progress_jump:
  "sg_view s < st_view ae \<Longrightarrow> progress s (leader_jump block ae s)"
  "sg_view s < st_view ae \<Longrightarrow> progress s (follower_jump block ae s)"
  by (simp_all add: leader_jump_def follower_jump_def rollback_def Let_def progress_def)

lemma progress_process_block:
  assumes "process_block e leader block ack ae final s = Inr t" shows "progress s t"
proof (cases "sg_view s < st_view ae")
  case True
  let ?j = "entered leader block ae s"
  have "same_view_by_role e block ack ae final ?j = Inr t"
    using assms True by (simp add: process_block_def process_block_as_leader_def process_block_as_follower_def
        entered_def split: if_split_asm)
  moreover have "progress s ?j" using True progress_jump by (simp add: entered_def)
  ultimately show ?thesis using progress_same_view_by_role progress_trans by blast
next
  case False
  then show ?thesis
    using assms by (auto simp: process_block_def process_block_as_leader_def process_block_as_follower_def
        split: if_split_asm dest: progress_leader_same_view progress_follower_same_view)
qed

lemma send_blocks_progress:
  "send_blocks_to_broadcaster_and_get_stats e vc s = Inr (t, stat) \<Longrightarrow> progress s t"
  by (auto simp: send_blocks_to_broadcaster_and_get_stats_def elim!: result_elims)

lemma apply_fork_choice_progress: "apply_fork_choice_rule e forks s = Inr (t, stat, val) \<Longrightarrow> progress s t"
  by (auto simp: apply_fork_choice_rule_def dest: send_blocks_progress elim!: result_elims split: list.split_asm)

lemma progress_propose_new_view:
  assumes "propose_new_view e v c forks s = Inr t" shows "progress s t"
proof -
  from assms consider "t = s" | leader s1 chosen val where "staging_i_am_leader e s = Inr leader"
    "apply_fork_choice_rule e forks s = Inr (s1, chosen, val)"
    by (auto simp: propose_new_view_def elim!: bindE_InrE split: if_split_asm)
  then show ?thesis
  proof cases
    case 2
    from apply_fork_choice_progress [OF 2(2)] have p: "progress s s1" .
    show ?thesis
    proof (cases "check_byz_commit_invariant chosen s1")
      case (Inr r)
      have "t = s \<or> progress s1 t"
        using assms 2 Inr by (auto simp: propose_new_view_def Let_def progress_def split: if_split_asm)
      with p progress_trans show ?thesis by auto
    qed (use assms 2 in \<open>auto simp: propose_new_view_def split: if_split_asm\<close>)
  qed simp
qed

lemma progress_tick: "handle_view_change_timer_tick e enough s = Inr t \<Longrightarrow> progress s t"
proof -
  assume t: "handle_view_change_timer_tick e enough s = Inr t"
  let ?q = "emit [ToPacemaker (QueryEnoughVCMsg (sg_view s) (sg_config_num s))] s"
  from t consider "progress s t" | u where "maybe_update_view e (sg_view ?q + 1) (sg_config_num ?q) ?q = Inr u"
      "t = u\<lparr>sg_vc_retry_num := 0\<rparr>"
    by (auto simp: handle_view_change_timer_tick_def Let_def progress_def elim!: bindE_InrE split: if_split_asm
        dest!: progress_maybe_update_view)
  then show "progress s t"
  proof cases
    case 2
    have "progress s u" by (rule progress_trans [OF progress_emit progress_maybe_update_view [OF 2(1)]])
    then show ?thesis unfolding 2(2) by (simp add: progress_def)
  qed
qed

lemma staging_worker_cases:
  assumes "staging_worker e ev s = Inr t"
  obtains (tick) enough where "ev = SG_Tick enough" "handle_view_change_timer_tick e enough s = Inr t"
  | (block) leader block ack ae final where "ev = SG_Block (Some (block, ack, ae, final))"
      "staging_i_am_leader e s = Inr leader" "process_block e leader block ack ae final s = Inr t"
  | (vote) sender v where "ev = SG_Vote (Some (sender, v))" "staging_i_am_leader e s = Inr True"
      "verify_and_process_vote e (fst (to_name_and_sub_id sender)) v s = Inr t"
  | (pacemaker) cmd where "ev = SG_Pacemaker (Some cmd)" "process_view_change_message e cmd s = Inr t"
  | (twopc) cmd where "ev = SG_TwoPC (Some cmd)" "process_2pc_result e cmd s = Inr t"
  | (idle) "t = s"
proof -
  obtain leader where l: "staging_i_am_leader e s = Inr leader"
    using assms by (auto simp: staging_worker_def elim!: bindE_InrE)
  show thesis
  proof (cases ev)
    case (SG_Block b)
    with assms l show thesis
      by (cases b) (auto simp: staging_worker_def process_block_def intro: that(2))
  next
    case (SG_Vote v)
    with assms l show thesis
      by (cases v) (auto simp: staging_worker_def intro: that(3) that(6) split: if_split_asm)
  next
    case (SG_Pacemaker c)
    with assms l show thesis by (cases c) (auto simp: staging_worker_def intro: that(4))
  next
    case (SG_TwoPC c)
    with assms l show thesis by (cases c) (auto simp: staging_worker_def intro: that(5) that(6) split: if_split_asm)
  next
    case (SG_Tick x)
    with assms l show thesis by (auto simp: staging_worker_def intro: that(1))
  qed
qed

lemma progress_worker: "staging_worker e ev s = Inr t \<Longrightarrow> progress s t"
proof (erule staging_worker_cases)
  fix sender v assume "verify_and_process_vote e (fst (to_name_and_sub_id sender)) v s = Inr t"
  then show "progress s t"
    by (auto simp: verify_and_process_vote_def split: option.split_asm if_split_asm dest: progress_process_vote)
next
  fix cmd assume "process_view_change_message e cmd s = Inr t"
  then show "progress s t" by (cases cmd) (auto dest: progress_maybe_update_view progress_propose_new_view)
next
  fix cmd assume "process_2pc_result e cmd s = Inr t"
  then show "progress s t" by (cases cmd) (auto dest: progress_process_vote)
qed (auto dest: progress_tick progress_process_block)

section \<open>Runs\<close>

lemma tick_core: "handle_view_change_timer_tick e enough s = Inr t \<Longrightarrow> core t = core s"
  by (auto simp: handle_view_change_timer_tick_def Let_def core_maybe_update_view elim!: bindE_InrE
      split: if_split_asm)

lemma staging_worker_inv:
  assumes "staging_worker e ev s = Inr t" and "staging_inv s" and "admissible ev s" and "\<not> ft_no_qc (env_ft e)"
  shows "staging_inv t"
  using assms(1)
proof (cases rule: staging_worker_cases)
  case (tick enough)
  then show ?thesis using tick_core [OF tick(2)] staging_inv_core [of t s] assms(2) by simp
next
  case (block leader block ack ae final)
  then show ?thesis using process_block_inv [OF block(3) assms(2) _ assms(4)] assms(3) by simp
next
  case (vote sender v)
  then show ?thesis using log_is_verify_vote [OF vote(3) _ assms(4), of "staging_log s"] assms(2) by (simp add: log_is_def)
next
  case (pacemaker cmd)
  show ?thesis
  proof (cases cmd)
    case (PM_UpdateView v c)
    then show ?thesis
      using pacemaker(2) core_maybe_update_view [of e v c s t] staging_inv_core [of t s] assms(2) by simp
  qed (use pacemaker(2) assms(2) propose_new_view_inv in auto)
next
  case (twopc cmd)
  show ?thesis
  proof (cases cmd)
    case (AsLeader name v)
    then show ?thesis
      using twopc(2) log_is_process_vote [OF _ _ assms(4), of name v s t "staging_log s"] assms(2) by (simp add: log_is_def)
  next
    case (AsFollower l v)
    then have "core t = core s" using twopc(2) by auto
    then show ?thesis using staging_inv_core [of t s] assms(2) by simp
  qed (use twopc(2) assms(2) in simp)
qed (use assms(2) in simp)

inductive staging_run :: "'k node_env \<Rightarrow> staging \<Rightarrow> staging \<Rightarrow> bool" for e where
  run_refl: "staging_run e s s"
| run_step: "staging_run e s t \<Longrightarrow> admissible ev t \<Longrightarrow> staging_worker e ev t = Inr u \<Longrightarrow> staging_run e s u"

lemma staging_run_inv:
  assumes "staging_run e s t" and "staging_inv s" and "\<not> ft_no_qc (env_ft e)"
  shows "staging_inv t"
  using assms by (induction rule: staging_run.induct) (blast intro: staging_worker_inv)+

lemma staging_run_progress: "staging_run e s t \<Longrightarrow> progress s t"
  by (induction rule: staging_run.induct) (auto dest: progress_worker intro: progress_trans)

lemma progress_delivered: "progress s t \<Longrightarrow> prefix (delivered s) (delivered t)"
  by (auto simp: progress_def delivered_def prefix_def)

lemma staging_inv_numbers:
  assumes "staging_inv s" shows "map cb_n (staging_log s) = [1..<Suc (length (staging_log s))]"
  using staging_inv_nth [OF assms] by (intro nth_equalityI) (auto simp del: upt_Suc)

lemma staging_inv_delivered:
  assumes "staging_inv s"
  shows "block_chain (delivered s)" and "map cb_n (delivered s) = [1..<Suc (sg_bci s)]"
proof -
  have d: "delivered s = take (sg_bci s) (staging_log s)" and le: "sg_bci s \<le> length (staging_log s)"
    using assms by (simp_all add: staging_inv_def staging_log_def)
  show "block_chain (delivered s)" unfolding d using assms by (simp add: staging_inv_def chain_takeI)
  have "map cb_n (delivered s) = take (sg_bci s) [1..<Suc (length (staging_log s))]"
    unfolding d take_map [symmetric] by (simp only: staging_inv_numbers [OF assms])
  also have "\<dots> = [1..<Suc (sg_bci s)]" using le by (simp add: take_upt del: upt_Suc)
  finally show "map cb_n (delivered s) = [1..<Suc (sg_bci s)]" .
qed


section \<open>A concrete run\<close>

text \<open>
  Node 2 of four follows view 1: block 1 moves it into the view, and block 2 carries a
  certificate for block 1 by all four nodes, which makes the view stable and commits block 1.
\<close>

definition demo_env :: "string \<Rightarrow> unit node_env" where
  "demo_env name = \<lparr>env_lib = demo_lib (demo_block 1 1 []), env_ft = pirateship, env_cfg = demo_cfg name,
     env_keys = demo_ks\<rparr>"

definition demo_cert :: quorum_certificate where
  "demo_cert = \<lparr>qc_digest = [1], qc_n = 1,
     qc_sig = map (\<lambda>name. (name, replicate 64 1)) [''node1'', ''node2'', ''node3'', ''node4''], qc_view = 1\<rparr>"

definition demo_b1 :: cached_block where
  "demo_b1 = \<lparr>cb_block = (demo_block 1 1 [])\<lparr>blk_sig := Some (ProposerSig [])\<rparr>, cb_ser = demo_ser, cb_hash = [1]\<rparr>"

definition demo_b2 :: cached_block where
  "demo_b2 = \<lparr>cb_block = (demo_block 2 1 [demo_cert])\<lparr>blk_parent := [1]\<rparr>, cb_ser = demo_ser, cb_hash = [2]\<rparr>"

definition demo_ae_stats :: "bool \<Rightarrow> ae_stats" where
  "demo_ae_stats b = \<lparr>st_view = 1, st_view_is_stable = b, st_config_num = 1, st_sender = ''node1'', st_ci = 0\<rparr>"

definition demo_ev1 :: staging_event where
  "demo_ev1 = SG_Block (Some (demo_b1, StorageOk, demo_ae_stats False, True))"

definition demo_ev2 :: staging_event where
  "demo_ev2 = SG_Block (Some (demo_b2, StorageOk, demo_ae_stats True, True))"

definition demo_sig :: sig_entry where
  "demo_sig = \<lparr>se_n = 1, se_sig = lib_sign (demo_lib (demo_block 1 1 [])) [1]\<rparr>"

definition demo_s1 :: staging where
  "demo_s1 = \<lparr>sg_ci = 0, sg_bci = 0, sg_view = 1, sg_view_is_stable = False, sg_config_num = 1, sg_last_qc = None,
     sg_curr_parent = None, sg_pending = [fresh_block demo_b1], sg_pending_signatures = [(1, demo_sig)],
     sg_vc_retry_num = 0, sg_storage_ack_buffer = [], sg_ae_seen = 1,
     sg_out = [ToSequencer (NewUnstableView 1 1), ToForkReceiver (UpdateView 1 1), ToClientReply CancelAllRequests,
       ToApp (Rollback 0), ToLogServer (LS_Rollback 0), ToLogServer (LS_NewBlock demo_b1),
       SendVote ''node1'' \<lparr>vote_sig_array = [demo_sig], vote_fork_digest = [1], vote_n = 1, vote_view = 1,
         vote_config_num = 1\<rparr>]\<rparr>"

definition demo_s2 :: staging where
  "demo_s2 = \<lparr>sg_ci = 0, sg_bci = 1, sg_view = 1, sg_view_is_stable = True, sg_config_num = 1,
     sg_last_qc = Some demo_cert, sg_curr_parent = Some demo_b1, sg_pending = [fresh_block demo_b2],
     sg_pending_signatures = [], sg_vc_retry_num = 0, sg_storage_ack_buffer = [], sg_ae_seen = 2,
     sg_out = sg_out demo_s1 @ [ToApp (Rollback 1), ToLogServer (LS_Rollback 1), ToLogServer (LS_NewBlock demo_b2),
       ToSequencer (ViewStabilised 1 1), ToBatchProposer False ''node1'', ToClientReply StopCancelling, TimerReset,
       ToApp (ByzCommit [demo_b1]), ToLogServer (LS_UpdateBCI 1),
       SendVote ''node1'' \<lparr>vote_sig_array = [], vote_fork_digest = [2], vote_n = 2, vote_view = 1,
         vote_config_num = 1\<rparr>]\<rparr>"

lemma demo_blocks [simp]:
  "cb_n demo_b1 = 1" "cb_n demo_b2 = 2" "cb_hash demo_b1 = [1]" "cb_hash demo_b2 = [2]" "cb_parent demo_b2 = [1]"
  "blk_qc (cb_block demo_b1) = []" "blk_qc (cb_block demo_b2) = [demo_cert]"
  "blk_config_num (cb_block demo_b1) = 1" "is_signed (cb_block demo_b1)" "\<not> is_signed (cb_block demo_b2)"
  "qc_n demo_cert = 1" "qc_view demo_cert = 1" "length (qc_sig demo_cert) = 4"
  by (simp_all add: demo_b1_def demo_b2_def demo_block_def demo_cert_def is_signed_def)

lemma demo_env_simps [simp]:
  "env_ft (demo_env name) = pirateship" "env_lib (demo_env name) = demo_lib (demo_block 1 1 [])"
  "env_cfg (demo_env name) = demo_cfg name" "net_name (demo_cfg name) = name" "consensus (demo_cfg name) = demo_cc"
  "ft_no_qc pirateship = False" "ft_extra_2pc pirateship = False" "ft_fast_path pirateship = True"
  "ft_view_change pirateship = True" "ft_extra_qc_check pirateship = False"
  by (simp_all add: demo_env_def demo_cfg_def pirateship_def)

lemma demo_leader [simp]:
  "get_leader_for_view pirateship demo_cc 0 = Inr ''node4''" "get_leader_for_view pirateship demo_cc (Suc 0) = Inr ''node1''"
  "length (node_list demo_cc) = 4" "commit_index_gap_soft demo_cc = 500" "commit_index_gap_hard demo_cc = 1000"
  by (simp_all add: get_leader_for_view_def pirateship_def demo_cc_def u64_sub_def)

lemmas staging_defs = staging_worker_def staging_i_am_leader_def i_am_leader_def process_block_as_follower_def
  process_block_as_leader_def same_view_by_role_def follower_same_view_def leader_same_view_def follower_jump_def
  leader_jump_def enter_same_view_def check_continuity_def push_block_def fresh_block_def rollback_def emit_def
  do_crash_commit_def send_vote_on_last_block_to_leader_def own_sig_def gap_too_large_def follower_qc_def
  maybe_stabilize_view_def maybe_byzantine_commit_def maybe_update_last_qc_def last_qc_n_def new_byz_index_def
  highest_qc_upto_def do_byzantine_commit_def byzantine_fast_path_threshold_def demo_ae_stats_def Let_def

lemma demo_worker:
  "staging_worker (demo_env ''node2'') demo_ev1 (staging_new pirateship) = Inr demo_s1"
  "staging_worker (demo_env ''node2'') demo_ev2 demo_s1 = Inr demo_s2"
  by (simp_all add: staging_defs demo_ev1_def demo_ev2_def staging_new_def demo_s1_def demo_s2_def demo_sig_def
      u64_sub_def)

lemma demo_admissible: "admissible demo_ev1 (staging_new pirateship)" "admissible demo_ev2 demo_s1"
  by (simp_all add: demo_ev1_def demo_ev2_def demo_s1_def qcs_below_def demo_ae_stats_def fresh_number_def fresh_block_def)

lemma demo_results:
  "delivered demo_s1 = []" "delivered demo_s2 = [demo_b1]" "sg_bci demo_s2 = 1" "sg_view demo_s1 = 1"
  by (simp_all add: demo_s1_def demo_s2_def delivered_def)

lemma demo_run:
  "staging_run (demo_env ''node2'') (staging_new pirateship) demo_s1"
  "staging_run (demo_env ''node2'') demo_s1 demo_s2"
  by (rule run_step [OF run_refl demo_admissible(1) demo_worker(1)],
      rule run_step [OF run_refl demo_admissible(2) demo_worker(2)])

section \<open>Properties\<close>

text \<open>
  C1: Byzantine commit safety of a node. In every run of staging from its initial state, over
  any blocks, votes, view changes and timer ticks that it accepts, the blocks it has handed to
  the application as byzantine committed are numbered 1, 2, ..., \<open>bci\<close> without a gap, each
  names its predecessor's hash as its parent, and in every later state the same blocks still
  form the beginning of the committed sequence: no commit is ever taken back. Blocks are
  assumed to carry certificates for earlier blocks only, and not to repeat a pending number
  in a stable view.
\<close>

theorem byz_commit_safety:
  assumes "staging_run e (staging_new (env_ft e)) s" and "staging_run e s t" and "\<not> ft_no_qc (env_ft e)"
  shows "prefix (delivered s) (delivered t) \<and> block_chain (delivered t)
     \<and> map cb_n (delivered t) = [1..<Suc (sg_bci t)]"
proof -
  have "staging_inv s" by (rule staging_run_inv [OF assms(1) staging_inv_new assms(3)])
  then have "staging_inv t" by (rule staging_run_inv [OF assms(2) _ assms(3)])
  with staging_inv_delivered [OF this] progress_delivered [OF staging_run_progress [OF assms(2)]]
  show ?thesis by blast
qed

theorem byz_commit_safety_witness:
  "prefix (delivered demo_s1) (delivered demo_s2) \<and> block_chain (delivered demo_s2)
     \<and> map cb_n (delivered demo_s2) = [1..<Suc (sg_bci demo_s2)] \<and> sg_bci demo_s2 = 1"
  using byz_commit_safety [of "demo_env ''node2''" demo_s1 demo_s2] demo_run demo_results(3) by simp

text \<open>
  Views and commit indices only move forward: no event lowers the view or the byzantine
  commit index, and no output is taken back.
\<close>

theorem staging_monotone:
  assumes "staging_worker e ev s = Inr t"
  shows "sg_view s \<le> sg_view t \<and> sg_bci s \<le> sg_bci t \<and> prefix (sg_out s) (sg_out t)"
  using progress_worker [OF assms] by (auto simp: progress_def)

theorem staging_monotone_witness:
  "sg_view (staging_new pirateship) \<le> sg_view demo_s1 \<and> sg_view demo_s1 = 1"
  using staging_monotone [OF demo_worker(1)] demo_results(4) by simp

end
