(* ===== verification/StagingVotes.thy ===== *)
theory StagingVotes
  imports StagingProps
begin

text \<open>
  Votes and certificates of staging: its handlers do not fail on blocks and votes, a view
  becomes stable only through a certificate of that view, and every certificate that a
  leader makes is one that the other nodes accept.
\<close>

section \<open>No handler of a block or a vote fails\<close>

definition config_ok :: "'k node_env \<Rightarrow> bool" where
  "config_ok e \<longleftrightarrow> node_list (env_cc e) \<noteq> []
     \<and> (ft_platforms (env_ft e) \<longrightarrow> liveness_u (env_cc e) \<le> length (node_list (env_cc e)))"

lemma byz_threshold_total: "config_ok e \<Longrightarrow> \<exists>t. byzantine_commit_threshold (env_ft e) (env_cc e) = Inr t"
  by (simp add: config_ok_def byzantine_commit_threshold_def byzantine_liveness_threshold_def Let_def)

lemma leader_total: "config_ok e \<Longrightarrow> \<exists>l. get_leader_for_view (env_ft e) (env_cc e) v = Inr l"
  using get_leader_total [of "env_cc e"] by (auto simp: config_ok_def)

lemma am_leader_total: "config_ok e \<Longrightarrow> \<exists>b. staging_i_am_leader e s = Inr b"
  using leader_total [of e "sg_view s"] by (auto simp: staging_i_am_leader_def i_am_leader_def)

lemma stabilize_total:
  assumes "config_ok e" and "sg_pending s \<noteq> []"
  shows "\<exists>t. maybe_stabilize_view e qc s = Inr t \<and> core t = core s \<and> sg_view t = sg_view s
     \<and> (qc_view qc = sg_view s \<longrightarrow> sg_view_is_stable t)"
  using leader_total [OF assms(1), of "sg_view s"] am_leader_total [OF assms(1), of s] assms(2)
  by (auto simp: maybe_stabilize_view_def)

lemma maybe_byz_fields [simp]:
  "sg_view (maybe_byzantine_commit e qc s) = sg_view s"
  "sg_view_is_stable (maybe_byzantine_commit e qc s) = sg_view_is_stable s"
  unfolding maybe_byzantine_commit_eq by (simp_all add: do_byzantine_commit_def Let_def)

definition can_propose :: "u64 \<Rightarrow> staging \<Rightarrow> bool" where
  "can_propose v s \<longleftrightarrow> sg_view s = v \<and> (sg_view_is_stable s \<or> sg_pending s \<noteq> [])"

lemma propose_qc_total:
  assumes "config_ok e" and "can_propose v s" and "qc_view qc = v"
  shows "\<exists>t. propose_qc e qc s = Inr t \<and> can_propose v t"
proof -
  have "\<exists>s1. (if sg_view_is_stable s then Inr s else maybe_stabilize_view e qc s) = Inr s1
     \<and> sg_view s1 = v \<and> sg_view_is_stable s1"
    using assms(2,3) stabilize_total [OF assms(1), of s qc] by (auto simp: can_propose_def)
  then show ?thesis by (auto simp: propose_qc_def can_propose_def)
qed

lemma create_qcs_total:
  assumes "config_ok e" and "sg_pending s \<noteq> []"
  shows "\<exists>t. maybe_create_qcs e s = Inr t"
proof -
  obtain th where th: "byzantine_commit_threshold (env_ft e) (env_cc e) = Inr th"
    using byz_threshold_total [OF assms(1)] by blast
  let ?made = "map (create_qc th (byzantine_fast_path_threshold (env_cc e)) (sg_view s)) (sg_pending s)"
  have "\<exists>t. foldE (propose_qc e) (List.map_filter snd ?made) (s\<lparr>sg_pending := map fst ?made\<rparr>) = Inr t
     \<and> can_propose (sg_view s) t"
  proof (rule foldE_total)
    show "can_propose (sg_view s) (s\<lparr>sg_pending := map fst ?made\<rparr>)" using assms(2) by (simp add: can_propose_def)
    fix qc u assume "qc \<in> set (List.map_filter snd ?made)" "can_propose (sg_view s) u"
    moreover from created_qcs [OF this(1)] have "qc_view qc = sg_view s" by (auto simp: block_qc_def)
    ultimately show "\<exists>t. propose_qc e qc u = Inr t \<and> can_propose (sg_view s) t"
      using propose_qc_total [OF assms(1)] by blast
  qed
  with th show ?thesis by (auto simp: maybe_create_qcs_def Let_def)
qed

lemma vote_blocks_length [simp]: "length (vote_blocks sender n sigs bs) = length bs"
  by (induction sender n sigs bs rule: vote_blocks.induct) simp_all

lemma process_vote_total:
  assumes "config_ok e" shows "\<exists>t. process_vote e sender v s = Inr t"
proof -
  obtain th where th: "byzantine_commit_threshold (env_ft e) (env_cc e) = Inr th"
    using byz_threshold_total [OF assms] by blast
  have crash: "\<exists>t. maybe_crash_commit e u = Inr t \<and> sg_pending t = sg_pending u" for u
    using th by (auto simp: maybe_crash_commit_def do_crash_commit_def Let_def)
  let ?s1 = "s\<lparr>sg_pending := vote_blocks sender (vote_n v) (vote_sig_array v) (sg_pending s)\<rparr>"
  obtain s2 where s2: "maybe_crash_commit e ?s1 = Inr s2" "sg_pending s2 = sg_pending ?s1" using crash [of ?s1] by blast
  have "sg_pending s2 \<noteq> []" if "sg_pending s \<noteq> []"
    using that s2(2) vote_blocks_length [of sender "vote_n v" "vote_sig_array v" "sg_pending s"]
    by (metis length_0_conv select_convs(8) surjective update_convs(8))
  with create_qcs_total [OF assms, of s2] s2(1) show ?thesis by (auto simp: process_vote_def Let_def)
qed

text \<open>The block just received stays pending while its own certificates are handled.\<close>

definition log_ahead :: "cached_block list \<Rightarrow> staging \<Rightarrow> bool" where
  "log_ahead L s \<longleftrightarrow> log_is L s \<and> sg_bci s < length L"

lemma log_ahead_pending: "log_ahead L s \<Longrightarrow> sg_pending s \<noteq> []"
  using log_length [of s] by (auto simp: log_ahead_def log_is_def)

lemma highest_qc_upto_less:
  assumes "staging_inv s" and "sg_bci s < length (staging_log s)"
  shows "highest_qc_upto (sg_bci s) n (sg_pending s) < length (staging_log s)"
  unfolding highest_qc_upto_def
proof (rule max_or_less [OF assms(2)])
  fix x assume "x \<in> set (concat (map (\<lambda>b. map qc_n (blk_qc (cb_block (bv_block b))))
       (filter (\<lambda>b. bv_n b \<le> n) (rev (sg_pending s)))))"
  then obtain b qc where b: "b \<in> set (sg_pending s)" "qc \<in> set (blk_qc (cb_block (bv_block b)))" "x = qc_n qc"
    by auto
  then have "x < bv_n b" using assms(1) by (auto simp: staging_inv_def pending_log_def qcs_below_def)
  then show "x < length (staging_log s)" using pending_num_bounds(2) [OF assms(1) b(1)] by simp
qed

lemma log_ahead_byz:
  assumes "log_ahead L s" and "qc_n qc < length L"
  shows "log_ahead L (maybe_byzantine_commit e qc s)"
proof -
  let ?s = "note_qc qc s"
  have log: "log_is L ?s" by (rule log_is_coreI [of _ s]) (use assms(1) in \<open>simp_all add: log_ahead_def\<close>)
  then have inv: "staging_inv ?s" "staging_log ?s = L" by (simp_all add: log_is_def)
  have "new_byz_index e qc ?s < length L"
    using highest_qc_upto_less [OF inv(1)] inv(2) assms by (auto simp: new_byz_index_def Let_def log_ahead_def)
  then have "sg_bci (maybe_byzantine_commit e qc s) < length L"
    using assms(1) unfolding maybe_byzantine_commit_eq by (simp add: do_byzantine_commit_def Let_def log_ahead_def)
  moreover have "log_is L (maybe_byzantine_commit e qc s)"
    using assms by (intro log_is_byz) (simp_all add: log_ahead_def)
  ultimately show ?thesis by (simp add: log_ahead_def)
qed

lemma log_ahead_coreI: "core t = core s \<Longrightarrow> log_ahead L s \<Longrightarrow> log_ahead L t"
  using log_is_coreI [of t s L] by (simp add: log_ahead_def core_eq_iff)

lemma follower_qc_total:
  assumes "config_ok e" and "log_ahead L s" and "qc_n qc < length L"
  shows "\<exists>t. follower_qc e st qc s = Inr t \<and> log_ahead L t"
proof -
  obtain s1 where "(if \<not> st then maybe_stabilize_view e qc s else Inr s) = Inr s1" "core s1 = core s"
    using stabilize_total [OF assms(1) log_ahead_pending [OF assms(2)], of qc] by (cases st) auto
  moreover from log_ahead_coreI [OF this(2) assms(2)] have "log_ahead L (maybe_byzantine_commit e qc s1)"
    by (rule log_ahead_byz [OF _ assms(3)])
  ultimately show ?thesis by (simp add: follower_qc_def)
qed

lemma push_pending [simp]: "sg_pending (push_block block final s) \<noteq> []"
  by (simp add: push_block_def)

lemma leader_same_view_total:
  assumes "config_ok e" shows "\<exists>t. leader_same_view e block ack ae final s = Inr t"
  using process_vote_total [OF assms]
  by (auto simp: leader_same_view_def vote_on_last_block_for_self_def Let_def)

lemma follower_same_view_total:
  assumes "config_ok e" and "staging_inv s" and "qcs_below block"
    and "fresh_number block (enter_same_view block ae s)" and "\<not> ft_no_qc (env_ft e)"
  shows "\<exists>t. follower_same_view e block ack ae final s = Inr t"
proof (cases "check_continuity block (enter_same_view block ae s)")
  case False
  then show ?thesis by (simp add: follower_same_view_def Let_def)
next
  case True
  let ?s = "enter_same_view block ae s" and ?p = "push_block block final (enter_same_view block ae s)"
  let ?L = "staging_log ?s @ [block]"
  let ?c = "if final then do_crash_commit (sg_ci ?p) (st_ci ae) ?p else ?p"
  note push = log_is_push [OF staging_inv_enter [OF assms(2)] True assms(4,3)]
  have "log_ahead ?L ?p" using push(1) [of final] staging_inv_enter [OF assms(2), of block ae]
    by (simp add: log_ahead_def push_block_def staging_inv_def staging_log_def)
  then have "log_ahead ?L ?c" by (rule log_ahead_coreI [rotated]) simp
  then have "\<exists>t. foldE (follower_qc e (sg_view_is_stable ?c)) (blk_qc (cb_block block)) ?c = Inr t \<and> log_ahead ?L t"
  proof (rule foldE_total)
    fix qc u assume "qc \<in> set (blk_qc (cb_block block))" "log_ahead ?L u"
    then show "\<exists>t. follower_qc e (sg_view_is_stable ?c) qc u = Inr t \<and> log_ahead ?L t"
      using assms(3) push(2) by (intro follower_qc_total [OF assms(1)]) (auto simp: qcs_below_def)
  qed
  then obtain s3 where s3: "foldE (follower_qc e (sg_view_is_stable ?c)) (blk_qc (cb_block block)) ?c = Inr s3"
    and "log_ahead ?L s3" by blast
  from log_ahead_pending [OF this(2)] leader_total [OF assms(1), of "sg_view s3"]
  have "\<exists>s5. (if final then send_vote_on_last_block_to_leader e ack s3 else Inr (buffer_ack ack s3)) = Inr s5"
    by (auto simp: send_vote_on_last_block_to_leader_def Let_def)
  with s3 True assms(5) show ?thesis by (auto simp: follower_same_view_def Let_def)
qed

lemma process_block_total:
  assumes "config_ok e" and "staging_inv s" and "admissible (SG_Block (Some (block, ack, ae, final))) s"
    and "\<not> ft_no_qc (env_ft e)"
  shows "\<exists>t. process_block e leader block ack ae final s = Inr t"
proof (cases "st_view ae < sg_view s")
  case True
  then show ?thesis by (simp add: process_block_def process_block_as_leader_def process_block_as_follower_def)
next
  case False
  let ?s = "entered leader block ae s"
  have inv: "staging_inv ?s" by (rule staging_inv_entered [OF assms(2)])
  have fresh: "fresh_number block (enter_same_view block ae ?s)"
    using assms(3) by (intro fresh_enter [OF inv]) (auto simp: entered_def)
  have f: "\<exists>t. follower_same_view e block ack ae final ?s = Inr t"
    using assms(3) by (intro follower_same_view_total [OF assms(1) inv _ fresh assms(4)]) simp
  have l: "\<exists>t. leader_same_view e block ack ae final ?s = Inr t" by (rule leader_same_view_total [OF assms(1)])
  obtain b where "staging_i_am_leader e ?s = Inr b" using am_leader_total [OF assms(1)] by blast
  with False f l show ?thesis
    by (auto simp: process_block_def process_block_as_leader_def process_block_as_follower_def entered_def
        same_view_by_role_def split: if_split_asm)
qed

section \<open>How a view becomes stable\<close>

text \<open>If the view is stable afterwards, it was before, or one of the certificates is of that view.\<close>

definition justified :: "quorum_certificate set \<Rightarrow> staging \<Rightarrow> staging \<Rightarrow> bool" where
  "justified C s t \<longleftrightarrow> (sg_view_is_stable t \<longrightarrow>
     sg_view_is_stable s \<and> sg_view t = sg_view s \<or> (\<exists>qc \<in> C. qc_view qc = sg_view t))"

lemma justified_trans: "justified C s t \<Longrightarrow> justified C t u \<Longrightarrow> justified C s u"
  by (auto simp: justified_def)

lemma justified_same:
  "sg_view_is_stable t = sg_view_is_stable s \<Longrightarrow> sg_view t = sg_view s \<Longrightarrow> justified C s t"
  by (simp add: justified_def)

lemma justified_unstable: "\<not> sg_view_is_stable t \<Longrightarrow> justified C s t"
  by (simp add: justified_def)

lemma justified_foldE:
  assumes "foldE f qcs s = Inr t" and "\<And>qc s t. qc \<in> set qcs \<Longrightarrow> f qc s = Inr t \<Longrightarrow> justified C s t"
  shows "justified C s t"
  using assms(1)
proof (rule foldE_invariant [where I = "justified C s"])
  show "justified C s s" by (simp add: justified_def)
  show "\<And>qc t u. qc \<in> set qcs \<Longrightarrow> justified C s t \<Longrightarrow> f qc t = Inr u \<Longrightarrow> justified C s u"
    using assms(2) justified_trans by blast
qed

lemma justified_stabilize:
  "maybe_stabilize_view e qc s = Inr t \<Longrightarrow> qc \<in> C \<Longrightarrow> justified C s t"
  by (auto simp: maybe_stabilize_view_def justified_def elim!: result_elims split: if_split_asm)

lemma justified_propose_qc: "propose_qc e qc s = Inr t \<Longrightarrow> qc \<in> C \<Longrightarrow> justified C s t"
  by (auto simp: propose_qc_def justified_def maybe_stabilize_view_def elim!: result_elims split: if_split_asm)

lemma justified_follower_qc: "follower_qc e st qc s = Inr t \<Longrightarrow> qc \<in> C \<Longrightarrow> justified C s t"
  by (auto simp: follower_qc_def justified_def maybe_stabilize_view_def elim!: result_elims split: if_split_asm)

definition new_out :: "staging \<Rightarrow> staging \<Rightarrow> staging_out list" where
  "new_out s t = drop (length (sg_out s)) (sg_out t)"

lemma new_out_trans:
  "progress s t \<Longrightarrow> progress t u \<Longrightarrow> set (new_out s u) = set (new_out s t) \<union> set (new_out t u)"
  by (auto simp: progress_def new_out_def)

definition sent_qcs :: "staging \<Rightarrow> staging \<Rightarrow> quorum_certificate set" where
  "sent_qcs s t = {qc. QcTx qc \<in> set (new_out s t)}"

lemma propose_qc_sends:
  assumes "propose_qc e qc s = Inr t" shows "qc \<in> sent_qcs s t"
proof -
  from assms obtain s1 where s1: "(if sg_view_is_stable s then Inr s else maybe_stabilize_view e qc s) = Inr s1"
    and t: "t = maybe_byzantine_commit e qc (emit [QcTx qc] s1)"
    by (auto simp: propose_qc_def elim!: bindE_InrE)
  have "progress s s1" using s1 progress_stabilize by (auto split: if_split_asm)
  moreover have "progress (emit [QcTx qc] s1) t" unfolding t by (rule progress_maybe_byz)
  ultimately show ?thesis by (auto simp: progress_def sent_qcs_def new_out_def)
qed

lemma foldE_sends:
  assumes "foldE (propose_qc e) qcs s = Inr t" shows "set qcs \<subseteq> sent_qcs s t"
  using assms
proof (induction qcs arbitrary: s)
  case (Cons qc qcs)
  then obtain u where u: "propose_qc e qc s = Inr u" "foldE (propose_qc e) qcs u = Inr t"
    by (auto elim!: bindE_InrE)
  have "progress u t" by (rule progress_foldE [OF u(2)]) (rule progress_propose_qc)
  with progress_propose_qc [OF u(1)] have "progress s u" "progress u t" .
  from new_out_trans [OF this] propose_qc_sends [OF u(1)] Cons.IH [OF u(2)]
  show ?case by (auto simp: sent_qcs_def)
qed simp

lemma justified_create_qcs:
  assumes "maybe_create_qcs e s = Inr t" shows "justified (sent_qcs s t) s t"
proof -
  obtain qcs p where f: "foldE (propose_qc e) qcs (s\<lparr>sg_pending := p\<rparr>) = Inr t"
    using assms by (auto simp: maybe_create_qcs_def Let_def elim!: bindE_InrE)
  from foldE_sends [OF f] have "set qcs \<subseteq> sent_qcs s t" by (simp add: sent_qcs_def new_out_def)
  then have "justified (sent_qcs s t) (s\<lparr>sg_pending := p\<rparr>) t"
    by (intro justified_foldE [OF f]) (auto intro: justified_propose_qc)
  then show ?thesis by (simp add: justified_def)
qed


lemma justified_mono: "justified C s t \<Longrightarrow> C \<subseteq> D \<Longrightarrow> justified D s t"
  by (auto simp: justified_def)

lemma sent_qcs_mono: "progress s t \<Longrightarrow> progress t u \<Longrightarrow> sent_qcs t u \<subseteq> sent_qcs s u"
  using new_out_trans [of s t u] by (auto simp: sent_qcs_def)

lemma push_fields [simp]:
  "sg_view (push_block block final s) = sg_view s" "sg_view_is_stable (push_block block final s) = sg_view_is_stable s"
  "sg_bci (push_block block final s) = sg_bci s" "sg_ci (push_block block final s) = sg_ci s"
  "sg_view (buffer_ack ack s) = sg_view s" "sg_view_is_stable (buffer_ack ack s) = sg_view_is_stable s"
  "sg_view (do_crash_commit a b s) = sg_view s" "sg_view_is_stable (do_crash_commit a b s) = sg_view_is_stable s"
  by (simp_all add: push_block_def buffer_ack_def do_crash_commit_def Let_def)

lemma do_crash_fields [simp]:
  "sg_pending (do_crash_commit a b s) = sg_pending s" "sent_qcs s (do_crash_commit a b (s\<lparr>sg_ci := c\<rparr>)) = {}"
  by (simp_all add: do_crash_commit_def Let_def sent_qcs_def new_out_def)

lemma maybe_crash_fields:
  assumes "maybe_crash_commit e s = Inr t"
  shows "sg_view t = sg_view s \<and> sg_view_is_stable t = sg_view_is_stable s \<and> sg_pending t = sg_pending s
     \<and> sent_qcs s t = {}"
proof -
  obtain a b where t: "t = do_crash_commit a b (s\<lparr>sg_ci := b\<rparr>)"
    using assms by (auto simp: maybe_crash_commit_def Let_def elim!: bindE_InrE)
  then show ?thesis by simp
qed

lemma do_byz_fields [simp]:
  "sg_view (do_byzantine_commit a b s) = sg_view s"
  "sg_view_is_stable (do_byzantine_commit a b s) = sg_view_is_stable s"
  by (simp_all add: do_byzantine_commit_def Let_def)

lemma justified_process_vote:
  assumes "process_vote e sender v s = Inr t" shows "justified (sent_qcs s t) s t"
proof -
  let ?s1 = "s\<lparr>sg_pending := vote_blocks sender (vote_n v) (vote_sig_array v) (sg_pending s)\<rparr>"
  consider "t = s" | s2 where "maybe_crash_commit e ?s1 = Inr s2"
      "t = do_byzantine_commit (sg_bci s2) (sg_ci s2) s2 \<or> maybe_create_qcs e s2 = Inr t"
    using assms by (auto simp: process_vote_def Let_def elim!: bindE_InrE split: if_split_asm)
  then show ?thesis
  proof cases
    case 2
    have p: "progress s s2" using progress_maybe_crash [OF 2(1)] by (simp add: progress_pending)
    have j: "justified C s s2" for C using maybe_crash_fields [OF 2(1)] by (simp add: justified_same)
    from 2(2) show ?thesis
    proof
      assume "maybe_create_qcs e s2 = Inr t"
      from justified_create_qcs [OF this] sent_qcs_mono [OF p progress_create_qcs [OF this]]
      have "justified (sent_qcs s t) s2 t" by (rule justified_mono)
      with j show ?thesis by (rule justified_trans)
    qed (use maybe_crash_fields [OF 2(1)] in \<open>simp add: justified_same\<close>)
  qed (simp add: justified_same)
qed

lemma justified_enter: "justified C s (enter_same_view block ae s)"
  by (simp add: justified_def enter_same_view_def rollback_def Let_def)

definition self_vote :: "'k node_env \<Rightarrow> staging \<Rightarrow> vote" where
  "self_vote e s = (let b = bv_block (last (sg_pending s)) in
     \<lparr>vote_sig_array = own_sig e b, vote_fork_digest = cb_hash b, vote_n = cb_n b, vote_view = sg_view s,
      vote_config_num = sg_config_num s\<rparr>)"

lemma vote_self_cases:
  assumes "vote_on_last_block_for_self e ack s = Inr t"
  obtains os where "t = emit os (s\<lparr>sg_storage_ack_buffer := []\<rparr>)" and "ft_extra_2pc (env_ft e)"
  | "sg_pending s \<noteq> []" and "process_vote e (net_name (env_cfg e)) (self_vote e s) (s\<lparr>sg_storage_ack_buffer := []\<rparr>) = Inr t"
  using assms by (auto simp: vote_on_last_block_for_self_def self_vote_def Let_def split: if_split_asm)

lemma justified_vote_self:
  assumes "vote_on_last_block_for_self e ack s = Inr t"
  shows "justified (sent_qcs s t) s t"
  using assms
proof (cases rule: vote_self_cases)
  case 2
  from justified_process_vote [OF 2(2)] show ?thesis by (simp add: justified_def sent_qcs_def new_out_def)
qed (simp add: justified_same)

lemma justified_leader_same_view:
  assumes "leader_same_view e block ack ae final s = Inr t"
  shows "justified (sent_qcs s t) s t"
proof -
  let ?p = "push_block block final (enter_same_view block ae s)"
  have p: "progress s ?p" by (rule progress_trans [OF progress_enter progress_push])
  have j: "justified C s ?p" for C using justified_enter [of C s block ae] by (simp add: justified_def)
  have "t = enter_same_view block ae s \<or> t = buffer_ack ack ?p \<or> vote_on_last_block_for_self e ack ?p = Inr t"
    using assms by (simp add: leader_same_view_def Let_def split: if_split_asm)
  then consider "t = enter_same_view block ae s" | "t = buffer_ack ack ?p"
    | "vote_on_last_block_for_self e ack ?p = Inr t" by blast
  then show ?thesis
  proof cases
    case 1
    then show ?thesis using justified_enter by simp
  next
    case 2
    then have "justified (sent_qcs s t) ?p t" by (simp add: justified_same)
    with j show ?thesis by (rule justified_trans)
  next
    case 3
    from justified_vote_self [OF 3]
    have "justified (sent_qcs s t) ?p t" using sent_qcs_mono [OF p progress_vote_self [OF 3]] by (rule justified_mono)
    with j show ?thesis by (rule justified_trans)
  qed
qed

lemma send_vote_fields:
  "send_vote_on_last_block_to_leader e ack s = Inr t \<Longrightarrow>
     sg_view t = sg_view s \<and> sg_view_is_stable t = sg_view_is_stable s \<and> sg_pending t = sg_pending s"
  by (auto simp: send_vote_on_last_block_to_leader_def Let_def elim!: bindE_InrE split: if_split_asm)

lemma justified_follower_same_view:
  assumes "follower_same_view e block ack ae final s = Inr t"
  shows "justified (set (blk_qc (cb_block block))) s t"
proof (cases "check_continuity block (enter_same_view block ae s)")
  case False
  then show ?thesis using assms justified_enter by (auto simp: follower_same_view_def)
next
  case True
  let ?p = "push_block block final (enter_same_view block ae s)" and ?C = "set (blk_qc (cb_block block))"
  let ?c = "if final then do_crash_commit (sg_ci ?p) (st_ci ae) ?p else ?p"
  obtain s3 s4 s5 where s3: "foldE (follower_qc e (sg_view_is_stable ?c)) (blk_qc (cb_block block)) ?c = Inr s3"
    and s4: "s4 = (if ft_no_qc (env_ft e) \<and> final then do_byzantine_commit (sg_bci s3) (sg_ci s3) s3 else s3)"
    and s5: "(if final then send_vote_on_last_block_to_leader e ack s4 else Inr (buffer_ack ack s4)) = Inr s5"
    and t: "t = (if gap_too_large e (sg_view_is_stable ?c) s5 then emit [TimerFire] s5 else s5)"
    using assms True by (auto simp: follower_same_view_def Let_def elim!: bindE_InrE)
  have "justified ?C s ?c" using justified_enter [of ?C s block ae] by (simp add: justified_def)
  moreover have "justified ?C ?c s3" using s3 by (rule justified_foldE) (rule justified_follower_qc)
  moreover have "justified ?C s3 t"
    using s4 s5 t send_vote_fields by (intro justified_same) (auto split: if_split_asm)
  ultimately show ?thesis using justified_trans by blast
qed

lemma justified_process_block:
  assumes "process_block e leader block ack ae final s = Inr t"
  shows "justified (set (blk_qc (cb_block block)) \<union> sent_qcs s t) s t"
proof -
  let ?C = "set (blk_qc (cb_block block)) \<union> sent_qcs s t"
  have l: "justified ?C u t" if "leader_same_view e block ack ae final u = Inr t" and "progress s u" for u
    using justified_leader_same_view [OF that(1)]
  proof (rule justified_mono)
    show "sent_qcs u t \<subseteq> ?C" using sent_qcs_mono [OF that(2) progress_leader_same_view [OF that(1)]] by blast
  qed
  have f: "justified ?C u t" if "follower_same_view e block ack ae final u = Inr t" for u
    using justified_follower_same_view [OF that] by (rule justified_mono) simp
  show ?thesis
  proof (cases "sg_view s < st_view ae")
    case True
    let ?j = "entered leader block ae s"
    have "same_view_by_role e block ack ae final ?j = Inr t"
      using assms True by (simp add: process_block_def process_block_as_leader_def process_block_as_follower_def
          entered_def split: if_split_asm)
    moreover have "progress s ?j" using True progress_jump by (simp add: entered_def)
    ultimately have "justified ?C ?j t"
      using l f by (auto simp: same_view_by_role_def elim!: bindE_InrE split: if_split_asm)
    moreover have "justified ?C s ?j" using True by (intro justified_unstable) (simp add: entered_def)
    ultimately show ?thesis using justified_trans by blast
  next
    case False
    then have "t = s \<or> leader_same_view e block ack ae final s = Inr t \<or> follower_same_view e block ack ae final s = Inr t"
      using assms by (simp add: process_block_def process_block_as_leader_def process_block_as_follower_def
          split: if_split_asm)
    then show ?thesis using l [of s] f [of s] justified_same [of s s] by auto
  qed
qed

lemma justified_update_view: "maybe_update_view e v c s = Inr t \<Longrightarrow> justified C s t"
  by (auto simp: maybe_update_view_def update_view_def justified_def Let_def elim!: result_elims split: if_split_asm)

lemma justified_tick: "handle_view_change_timer_tick e enough s = Inr t \<Longrightarrow> justified C s t"
  by (auto simp: handle_view_change_timer_tick_def Let_def justified_same elim!: bindE_InrE
      dest!: justified_update_view [of _ _ _ _ _ C] split: if_split_asm) (auto simp: justified_def)

lemma apply_fork_choice_fields:
  assumes "apply_fork_choice_rule e forks s = Inr (t, stat, val)"
  obtains os where "t = emit os s" and "\<forall>x \<in> set os. \<exists>y. x = ToBroadcaster y"
proof -
  from assms obtain vc where vc: "send_blocks_to_broadcaster_and_get_stats e vc s = Inr (t, stat)"
    by (auto simp: apply_fork_choice_rule_def elim!: result_elims split: list.split_asm)
  show thesis
  proof (rule bindE_InrE [OF vc [unfolded send_blocks_to_broadcaster_and_get_stats_def]])
  qed (auto elim!: result_elims intro: that)
qed


lemma justified_propose_new_view:
  assumes "propose_new_view e v c forks s = Inr t" shows "justified C s t"
proof (cases "propose_new_view e v c forks s = Inr s")
  case True
  with assms show ?thesis by (simp add: justified_same)
next
  case False
  then obtain s1 chosen val where a: "apply_fork_choice_rule e forks s = Inr (s1, chosen, val)"
    using assms by (auto simp: propose_new_view_def elim!: bindE_InrE split: if_split_asm)
  then obtain os where s1: "s1 = emit os s" by (rule apply_fork_choice_fields)
  have "sg_view t = sg_view s1 \<and> sg_view_is_stable t = sg_view_is_stable s1"
    using assms False a by (auto simp: propose_new_view_def Let_def elim!: bindE_InrE split: if_split_asm sum.split_asm)
  with s1 show ?thesis by (simp add: justified_same)
qed

fun event_qcs :: "staging_event \<Rightarrow> quorum_certificate set" where
  "event_qcs (SG_Block (Some (block, ack, ae, final))) = set (blk_qc (cb_block block))"
| "event_qcs _ = {}"

lemma justified_worker:
  assumes "staging_worker e ev s = Inr t" shows "justified (event_qcs ev \<union> sent_qcs s t) s t"
  using assms
proof (cases rule: staging_worker_cases)
  case (tick enough)
  then show ?thesis by (simp add: justified_tick)
next
  case (block leader block ack ae final)
  then show ?thesis using justified_process_block [OF block(3)] by simp
next
  case (vote sender v)
  then have "t = s \<or> process_vote e (fst (to_name_and_sub_id sender)) v s = Inr t"
    by (auto simp: verify_and_process_vote_def split: option.split_asm if_split_asm)
  with vote(1) show ?thesis using justified_process_vote [of e _ v s t] justified_same [of s s] by auto
next
  case (pacemaker cmd)
  then show ?thesis by (cases cmd) (auto intro: justified_update_view justified_propose_new_view)
next
  case (twopc cmd)
  show ?thesis
  proof (cases cmd)
    case (AsLeader name v)
    with twopc show ?thesis using justified_process_vote [of e name v s t] by simp
  qed (use twopc in \<open>auto simp: justified_same\<close>)
qed (simp add: justified_same)

section \<open>Properties\<close>

text \<open>
  C16: Staging never fails on blocks and votes. In every reachable state, for every block that is
  admissible there and every vote, the worker returns normally: no assertion, \<open>unwrap\<close> or
  index fails and no \<open>Err\<close> stops the loop, provided the node list is not empty and not
  smaller than \<open>liveness_u\<close>. In particular the \<open>unwrap\<close> on the last pending block in
  \<open>maybe_stabilize_view\<close> is safe even after certificates have committed blocks.
\<close>

theorem staging_never_fails:
  assumes "staging_run e (staging_new (env_ft e)) s" and "\<not> ft_no_qc (env_ft e)" and "config_ok e"
    and "(\<exists>x. ev = SG_Block (Some x)) \<or> (\<exists>x. ev = SG_Vote (Some x))" and "admissible ev s"
  shows "\<exists>t. staging_worker e ev s = Inr t"
proof -
  have inv: "staging_inv s" by (rule staging_run_inv [OF assms(1) staging_inv_new assms(2)])
  obtain l where l: "staging_i_am_leader e s = Inr l" using am_leader_total [OF assms(3)] by blast
  from assms(4) show ?thesis
  proof
    assume "\<exists>x. ev = SG_Block (Some x)"
    then obtain block ack ae final where ev: "ev = SG_Block (Some (block, ack, ae, final))" by auto
    from process_block_total [OF assms(3) inv assms(5) [unfolded ev] assms(2), of l] l ev
    show ?thesis by (auto simp: staging_worker_def process_block_def)
  next
    assume "\<exists>x. ev = SG_Vote (Some x)"
    then obtain sender v where "ev = SG_Vote (Some (sender, v))" by auto
    with l process_vote_total [OF assms(3), of "fst (to_name_and_sub_id sender)" v s] show ?thesis
      by (auto simp: staging_worker_def verify_and_process_vote_def split: option.split)
  qed
qed

lemma demo_config_ok: "config_ok (demo_env name)"
  by (simp add: config_ok_def demo_cc_def)

theorem staging_never_fails_witness:
  "\<exists>t. staging_worker (demo_env ''node2'') demo_ev2 demo_s1 = Inr t"
  by (rule staging_never_fails [OF _ _ demo_config_ok])
    (use demo_run(1) demo_admissible(2) in \<open>auto simp: demo_ev2_def\<close>)

text \<open>
  C4: A view becomes stable only through a certificate of that view. If the view of a node is
  stable after an event, then it already was in the same stable view, or the block of the event
  carries a quorum certificate of that view, or the node itself has just made one from votes.
  No message of a leader can declare a view stable.
\<close>

theorem stable_only_by_certificate:
  assumes "staging_worker e ev s = Inr t" and "sg_view_is_stable t"
  shows "sg_view_is_stable s \<and> sg_view t = sg_view s
     \<or> (\<exists>qc \<in> event_qcs ev \<union> sent_qcs s t. qc_view qc = sg_view t)"
  using justified_worker [OF assms(1)] assms(2) by (simp add: justified_def)

theorem stable_only_by_certificate_witness:
  "\<exists>qc \<in> event_qcs demo_ev2 \<union> sent_qcs demo_s1 demo_s2. qc_view qc = sg_view demo_s2"
proof -
  have "sg_view_is_stable demo_s2" "\<not> sg_view_is_stable demo_s1" by (simp_all add: demo_s1_def demo_s2_def)
  with stable_only_by_certificate [OF demo_worker(2)] show ?thesis by simp
qed

end
