(* ===== verification/StagingCerts.thy ===== *)
theory StagingCerts
  imports StagingVotes
begin

text \<open>
  The certificates that staging makes: every signature that is stored with a pending block is
  a valid signature of that block's hash by the node it is stored under, so every certificate
  has enough distinct signers and passes the check of the crypto service.
\<close>

section \<open>Stored signatures\<close>

definition sig_ok :: "'k node_env \<Rightarrow> bytes \<Rightarrow> string \<Rightarrow> bytes \<Rightarrow> bool" where
  "sig_ok e digest name sg \<longleftrightarrow>
     length sg = SIGNATURE_LENGTH \<and> keystore_verify (env_lib e) (env_keys e) name sg digest"

definition block_votes_ok :: "'k node_env \<Rightarrow> block_with_votes \<Rightarrow> bool" where
  "block_votes_ok e b \<longleftrightarrow> distinct (map fst (bv_vote_sigs b))
     \<and> (\<forall>(name, en) \<in> set (bv_vote_sigs b). sig_ok e (cb_hash (bv_block b)) name (se_sig en))"

definition votes_ok :: "'k node_env \<Rightarrow> staging \<Rightarrow> bool" where
  "votes_ok e s \<longleftrightarrow> (\<forall>b \<in> set (sg_pending s). block_votes_ok e b)"

definition cert_ok :: "'k node_env \<Rightarrow> quorum_certificate \<Rightarrow> bool" where
  "cert_ok e qc \<longleftrightarrow> distinct (map fst (qc_sig qc))
     \<and> (\<exists>th. byzantine_commit_threshold (env_ft e) (env_cc e) = Inr th \<and> th \<le> length (qc_sig qc))
     \<and> (\<forall>(name, sg) \<in> set (qc_sig qc). sig_ok e (qc_digest qc) name sg)"

text \<open>A step that makes no certificate and adds no signature.\<close>

definition same_votes :: "block_with_votes \<Rightarrow> block_with_votes \<Rightarrow> bool" where
  "same_votes b c \<longleftrightarrow> bv_block c = bv_block b \<and> bv_vote_sigs c = bv_vote_sigs b"

definition quiet :: "staging \<Rightarrow> staging \<Rightarrow> bool" where
  "quiet s t \<longleftrightarrow> (\<exists>os. sg_out t = sg_out s @ os \<and> (\<forall>qc. QcTx qc \<notin> set os))
     \<and> (\<forall>c \<in> set (sg_pending t). bv_vote_sigs c = [] \<or> (\<exists>b \<in> set (sg_pending s). same_votes b c))"

lemma quiet_refl [simp]: "quiet s s"
  by (auto simp: quiet_def same_votes_def)

lemma quiet_trans:
  assumes "quiet s t" and "quiet t u" shows "quiet s u"
proof -
  from assms obtain os ps where "sg_out t = sg_out s @ os" "sg_out u = sg_out t @ ps"
    "\<forall>qc. QcTx qc \<notin> set os" "\<forall>qc. QcTx qc \<notin> set ps" by (auto simp: quiet_def)
  then have "sg_out u = sg_out s @ (os @ ps) \<and> (\<forall>qc. QcTx qc \<notin> set (os @ ps))" by simp
  moreover have "bv_vote_sigs c = [] \<or> (\<exists>b \<in> set (sg_pending s). same_votes b c)" if c: "c \<in> set (sg_pending u)" for c
  proof -
    consider "bv_vote_sigs c = []" | b where "b \<in> set (sg_pending t)" "same_votes b c"
      using assms(2) c by (auto simp: quiet_def)
    then show ?thesis
    proof cases
      case 2
      then consider "bv_vote_sigs b = []" | a where "a \<in> set (sg_pending s)" "same_votes a b"
        using assms(1) by (auto simp: quiet_def)
      then show ?thesis using 2(2) by cases (auto simp: same_votes_def)
    qed simp
  qed
  ultimately show ?thesis unfolding quiet_def by blast
qed

lemma quietI:
  assumes "sg_out t = sg_out s @ os" and "\<forall>qc. QcTx qc \<notin> set os" and "set (sg_pending t) \<subseteq> set (sg_pending s)"
  shows "quiet s t"
  using assms by (auto simp: quiet_def same_votes_def)

lemma quiet_sent: "quiet s t \<Longrightarrow> sent_qcs s t = {}"
  by (auto simp: quiet_def sent_qcs_def new_out_def)

lemma block_votes_ok_same: "same_votes b c \<Longrightarrow> block_votes_ok e c = block_votes_ok e b"
  by (simp add: block_votes_ok_def same_votes_def)

lemma block_votes_ok_Nil: "bv_vote_sigs c = [] \<Longrightarrow> block_votes_ok e c"
  by (simp add: block_votes_ok_def)

lemma quiet_votes_ok:
  assumes "quiet s t" and "votes_ok e s" shows "votes_ok e t"
  unfolding votes_ok_def
proof
  fix c assume "c \<in> set (sg_pending t)"
  then have "bv_vote_sigs c = [] \<or> (\<exists>b \<in> set (sg_pending s). same_votes b c)"
    using assms(1) by (simp add: quiet_def)
  then show "block_votes_ok e c"
    using assms(2) block_votes_ok_same block_votes_ok_Nil by (auto simp: votes_ok_def)
qed

lemma quiet_foldE:
  assumes "foldE f xs s = Inr t" and "\<And>x s t. f x s = Inr t \<Longrightarrow> quiet s t"
  shows "quiet s t"
proof (rule foldE_invariant [OF assms(1), where I = "quiet s"])
  show "\<And>x t u. x \<in> set xs \<Longrightarrow> quiet s t \<Longrightarrow> f x t = Inr u \<Longrightarrow> quiet s u"
    using assms(2) quiet_trans by blast
qed simp

lemma quiet_emit: "\<forall>qc. QcTx qc \<notin> set os \<Longrightarrow> quiet s (emit os s)"
  by (rule quietI [where os = os]) simp_all

lemma quiet_rollback: "quiet s (rollback n s)"
  by (rule quietI) (auto simp: rollback_def)

lemma quiet_do_crash: "quiet s (do_crash_commit a b s)"
  by (auto simp: quiet_def do_crash_commit_def Let_def same_votes_def)

lemma quiet_do_byz: "quiet s (do_byzantine_commit a b s)"
  by (auto simp: quiet_def do_byzantine_commit_def Let_def same_votes_def dest: set_dropWhileD)

lemma quiet_note_qc: "quiet s (note_qc qc s)"
  by (auto simp: note_qc_def maybe_update_last_qc_def Let_def quiet_def same_votes_def)

lemma quiet_maybe_byz: "quiet s (maybe_byzantine_commit e qc s)"
  unfolding maybe_byzantine_commit_eq by (rule quiet_trans [OF quiet_note_qc quiet_do_byz])

lemma quiet_stabilize: "maybe_stabilize_view e qc s = Inr t \<Longrightarrow> quiet s t"
  by (auto simp: maybe_stabilize_view_def quiet_def same_votes_def elim!: result_elims split: if_split_asm)

lemma quiet_update_view: "maybe_update_view e v c s = Inr t \<Longrightarrow> quiet s t"
  by (auto simp: maybe_update_view_def update_view_def quiet_def same_votes_def Let_def
      elim!: result_elims split: if_split_asm)

lemma quiet_maybe_crash:
  assumes "maybe_crash_commit e s = Inr t" shows "quiet s t"
proof -
  obtain a b where t: "t = do_crash_commit a b (s\<lparr>sg_ci := b\<rparr>)"
    using assms by (auto simp: maybe_crash_commit_def Let_def elim!: bindE_InrE)
  have "quiet s (s\<lparr>sg_ci := b\<rparr>)" by (rule quietI [where os = "[]"]) simp_all
  then show ?thesis unfolding t by (rule quiet_trans [OF _ quiet_do_crash])
qed

lemma quiet_follower_qc: "follower_qc e st qc s = Inr t \<Longrightarrow> quiet s t"
  by (auto simp: follower_qc_def elim!: bindE_InrE split: if_split_asm
      intro: quiet_maybe_byz quiet_trans [OF quiet_stabilize quiet_maybe_byz])

lemma quiet_send_vote: "send_vote_on_last_block_to_leader e ack s = Inr t \<Longrightarrow> quiet s t"
  by (auto simp: send_vote_on_last_block_to_leader_def two_pc_commands_def quiet_def same_votes_def Let_def
      elim!: bindE_InrE split: if_split_asm)

lemma quiet_enter: "quiet s (enter_same_view block ae s)"
  by (auto simp: enter_same_view_def rollback_def quiet_def same_votes_def Let_def)

lemma quiet_push: "quiet s (push_block block final s)"
  by (auto simp: push_block_def fresh_block_def quiet_def same_votes_def)

lemma quiet_buffer: "quiet s (buffer_ack ack s)"
  by (auto simp: buffer_ack_def quiet_def same_votes_def)

lemma quiet_jump: "quiet s (leader_jump block ae s)" "quiet s (follower_jump block ae s)"
  by (auto simp: leader_jump_def follower_jump_def rollback_def clear_votes_def quiet_def Let_def)

lemma quiet_follower_same_view:
  assumes "follower_same_view e block ack ae final s = Inr t" shows "quiet s t"
proof (cases "check_continuity block (enter_same_view block ae s)")
  case False
  then show ?thesis using assms quiet_enter by (auto simp: follower_same_view_def)
next
  case True
  let ?p = "push_block block final (enter_same_view block ae s)"
  let ?c = "if final then do_crash_commit (sg_ci ?p) (st_ci ae) ?p else ?p"
  obtain s3 s4 s5 where s3: "foldE (follower_qc e (sg_view_is_stable ?c)) (blk_qc (cb_block block)) ?c = Inr s3"
    and s4: "s4 = (if ft_no_qc (env_ft e) \<and> final then do_byzantine_commit (sg_bci s3) (sg_ci s3) s3 else s3)"
    and s5: "(if final then send_vote_on_last_block_to_leader e ack s4 else Inr (buffer_ack ack s4)) = Inr s5"
    and t: "t = (if gap_too_large e (sg_view_is_stable ?c) s5 then emit [TimerFire] s5 else s5)"
    using assms True by (auto simp: follower_same_view_def Let_def elim!: bindE_InrE)
  have "quiet s ?p" by (rule quiet_trans [OF quiet_enter quiet_push])
  moreover have "quiet ?p ?c" using quiet_do_crash by simp
  moreover have "quiet ?c s3" by (rule quiet_foldE [OF s3]) (rule quiet_follower_qc)
  moreover have "quiet s3 s4" unfolding s4 using quiet_do_byz by simp
  moreover have "quiet s4 s5" using s5 quiet_send_vote quiet_buffer by (auto split: if_split_asm)
  moreover have "quiet s5 t" unfolding t using quiet_emit [of "[TimerFire]" s5] by simp
  ultimately show ?thesis using quiet_trans by meson
qed

lemma quiet_tick:
  assumes "handle_view_change_timer_tick e enough s = Inr t" shows "quiet s t"
proof -
  let ?q = "emit [ToPacemaker (QueryEnoughVCMsg (sg_view s) (sg_config_num s))] s"
  have q: "quiet s ?q" by (rule quiet_emit) simp
  have upd: "quiet u (u\<lparr>sg_vc_retry_num := k\<rparr>)" for u k by (rule quietI [where os = "[]"]) simp_all
  have "t = s \<or> maybe_update_view e (sg_view s + 1) (sg_config_num s) s = Inr t \<or> t = ?q
     \<or> t = ?q\<lparr>sg_vc_retry_num := sg_vc_retry_num ?q + 1\<rparr>
     \<or> (\<exists>u. maybe_update_view e (sg_view ?q + 1) (sg_config_num ?q) ?q = Inr u \<and> t = u\<lparr>sg_vc_retry_num := 0\<rparr>)"
    using assms unfolding handle_view_change_timer_tick_def Let_def
    by (simp add: bindE_Inr_conv split: if_split_asm) blast
  then show ?thesis
  proof (elim disjE exE conjE)
    fix u assume u: "maybe_update_view e (sg_view ?q + 1) (sg_config_num ?q) ?q = Inr u" "t = u\<lparr>sg_vc_retry_num := 0\<rparr>"
    from quiet_trans [OF q quiet_trans [OF quiet_update_view [OF u(1)] upd]] show ?thesis unfolding u(2) .
  next
    assume "t = ?q\<lparr>sg_vc_retry_num := sg_vc_retry_num ?q + 1\<rparr>"
    then show ?thesis using quiet_trans [OF q upd] by simp
  qed (simp_all add: q quiet_update_view)
qed

lemma quiet_emit_trans: "quiet s u \<Longrightarrow> \<forall>qc. QcTx qc \<notin> set os \<Longrightarrow> quiet s (emit os u)"
  by (rule quiet_trans [OF _ quiet_emit])

lemma quiet_retain:
  "set p \<subseteq> set (sg_pending s) \<Longrightarrow> quiet s (s\<lparr>sg_pending := p\<rparr>)"
  "set p \<subseteq> set (sg_pending s) \<Longrightarrow> quiet s (s\<lparr>sg_pending := p, sg_ci := n\<rparr>)"
  by (auto intro!: quietI [where os = "[]"])

lemma quiet_propose_new_view:
  assumes "propose_new_view e v c forks s = Inr t" shows "quiet s t"
proof (cases "propose_new_view e v c forks s = Inr s")
  case True
  with assms show ?thesis by simp
next
  case False
  then obtain s1 chosen val where a: "apply_fork_choice_rule e forks s = Inr (s1, chosen, val)"
    using assms by (auto simp: propose_new_view_def elim!: bindE_InrE split: if_split_asm)
  then obtain os where "s1 = emit os s" "\<forall>x \<in> set os. \<exists>y. x = ToBroadcaster y" by (rule apply_fork_choice_fields)
  then have "quiet s s1" by (auto intro: quiet_emit)
  moreover have "quiet s1 t"
    using assms False a by (auto simp: propose_new_view_def Let_def elim!: bindE_InrE
        split: if_split_asm sum.split_asm intro!: quiet_emit_trans quiet_retain)
  ultimately show ?thesis by (rule quiet_trans)
qed


section \<open>Votes\<close>

lemma set_alist_update: "set (AList.update k v m) \<subseteq> insert (k, v) (set m)"
  by (induction m) auto

lemma add_votes:
  assumes "distinct (map fst m)" and "\<forall>(name, en) \<in> set m. sig_ok e d name (se_sig en)"
    and "\<forall>en \<in> set ens. sig_ok e d sender (se_sig en)"
  shows "distinct (map fst (foldl (\<lambda>m en. AList.update sender en m) m ens))
     \<and> (\<forall>(name, en) \<in> set (foldl (\<lambda>m en. AList.update sender en m) m ens). sig_ok e d name (se_sig en))"
  using assms
proof (induction ens arbitrary: m)
  case (Cons en ens)
  have "\<forall>(name, en) \<in> set (AList.update sender en m). sig_ok e d name (se_sig en)"
    using Cons.prems set_alist_update [of sender en m] by auto
  with Cons.IH [of "AList.update sender en m"] Cons.prems show ?case by (simp add: distinct_update)
qed simp

text \<open>What is known of the signatures of a vote: they fit every pending block of their number.\<close>

definition vote_fits :: "'k node_env \<Rightarrow> string \<Rightarrow> sig_entry list \<Rightarrow> block_with_votes list \<Rightarrow> bool" where
  "vote_fits e sender sigs bs \<longleftrightarrow>
     (\<forall>en \<in> set sigs. \<forall>b \<in> set bs. se_n en = bv_n b \<longrightarrow> sig_ok e (cb_hash (bv_block b)) sender (se_sig en))"

lemma vote_block_ok:
  assumes "block_votes_ok e b" and "vote_fits e sender sigs [b]"
  shows "block_votes_ok e (vote_block sender n sigs b)"
  using assms add_votes [of "bv_vote_sigs b" e "cb_hash (bv_block b)" "filter (\<lambda>en. se_n en = bv_n b) sigs" sender]
  by (auto simp: block_votes_ok_def vote_block_def vote_fits_def Let_def)

lemma vote_blocks_ok:
  assumes "\<forall>b \<in> set bs. block_votes_ok e b" and "vote_fits e sender sigs bs"
  shows "\<forall>b \<in> set (vote_blocks sender n sigs bs). block_votes_ok e b"
  using assms
proof (induction sender n sigs bs rule: vote_blocks.induct)
  case (2 sender n sigs b bs)
  let ?sigs = "if is_signed (cb_block (bv_block b)) then filter (\<lambda>en. se_n en \<noteq> bv_n b) sigs else sigs"
  have "vote_fits e sender sigs [b]" "vote_fits e sender ?sigs bs" using "2.prems"(2) by (auto simp: vote_fits_def)
  with "2.IH" "2.prems"(1) show ?case by (simp add: vote_block_ok)
qed simp

lemma verified_fits:
  assumes "vote_sigs_verified e sender p sigs = Some results" and "set results \<subseteq> {True}"
    and "sorted_wrt (\<lambda>a b. bv_n a < bv_n b) p"
  shows "vote_fits e sender sigs p"
  using assms
proof (induction e sender p sigs arbitrary: results rule: vote_sigs_verified.induct)
  case (2 e sender p sg sgs)
  have head: "vote_fits e sender [sg] p"
  proof (cases "binary_search bv_n (se_n sg) p")
    case None
    with binary_search_None [OF "2.prems"(3)] show ?thesis by (auto simp: vote_fits_def)
  next
    case (Some i)
    have "sig_ok e (cb_hash (bv_block (p ! i))) sender (se_sig sg)"
      using "2.prems"(1,2) Some by (auto simp: sig_ok_def split: if_split_asm)
    moreover have "b = p ! i" if b: "b \<in> set p" "se_n sg = bv_n b" for b
    proof -
      obtain j where j: "j < length p" "b = p ! j" using b(1) by (auto simp: in_set_conv_nth)
      with binary_search_sorted [OF "2.prems"(3) j(1)] b(2) Some show ?thesis by simp
    qed
    ultimately show ?thesis by (auto simp: vote_fits_def)
  qed
  obtain results' where "vote_sigs_verified e sender p sgs = Some results'" "set results' \<subseteq> {True}"
    using "2.prems"(1,2) by (auto split: option.split_asm if_split_asm)
  with "2.IH" "2.prems"(1,3) have "vote_fits e sender sgs p"
    by (cases "binary_search bv_n (se_n sg) p") (auto split: if_split_asm)
  with head show ?case by (auto simp: vote_fits_def)
qed (simp add: vote_fits_def)

lemma pending_sorted: "staging_inv s \<Longrightarrow> sorted_wrt (\<lambda>a b. bv_n a < bv_n b) (sg_pending s)"
  by (rule chain_strict_sorted [OF pending_chain])

section \<open>Certificates\<close>

lemma block_qc_ok:
  assumes "block_votes_ok e b" and "byzantine_commit_threshold (env_ft e) (env_cc e) = Inr th"
    and "(if bv_qc_is_proposed b then byzantine_fast_path_threshold (env_cc e) else th) \<le> length (bv_vote_sigs b)"
  shows "cert_ok e (block_qc v b)"
proof -
  have "th \<le> length (node_list (env_cc e))"
    using assms(2) by (auto simp: byzantine_commit_threshold_def byzantine_liveness_threshold_def Let_def
        elim!: bindE_InrE split: if_split_asm)
  then have "th \<le> length (bv_vote_sigs b)" using assms(3) by (auto simp: byzantine_fast_path_threshold_def split: if_split_asm)
  then have "th \<le> length (qc_sig (block_qc v b))" by (simp add: block_qc_def)
  moreover have "map fst (qc_sig (block_qc v b)) = map fst (bv_vote_sigs b)" by (simp add: block_qc_def split_beta comp_def)
  then have "distinct (map fst (qc_sig (block_qc v b)))" using assms(1) by (simp only: block_votes_ok_def)
  moreover have "\<forall>(name, sg) \<in> set (qc_sig (block_qc v b)). sig_ok e (qc_digest (block_qc v b)) name sg"
    using assms(1) by (auto simp: block_qc_def block_votes_ok_def)
  ultimately show ?thesis using assms(2) by (auto simp only: cert_ok_def)
qed

lemma propose_qc_quiet:
  assumes "propose_qc e qc s = Inr t"
  shows "sent_qcs s t = {qc}" and "votes_ok e' s \<Longrightarrow> votes_ok e' t"
proof -
  from assms obtain s1 where s1: "(if sg_view_is_stable s then Inr s else maybe_stabilize_view e qc s) = Inr s1"
    and t: "t = maybe_byzantine_commit e qc (emit [QcTx qc] s1)"
    by (auto simp: propose_qc_def elim!: bindE_InrE)
  have q1: "quiet s s1" using s1 quiet_stabilize by (auto split: if_split_asm)
  have q2: "quiet (emit [QcTx qc] s1) t" unfolding t by (rule quiet_maybe_byz)
  from q1 q2 show "sent_qcs s t = {qc}" by (auto simp: quiet_def sent_qcs_def new_out_def)
  show "votes_ok e' t" if "votes_ok e' s"
  proof -
    have "votes_ok e' (emit [QcTx qc] s1)" using quiet_votes_ok [OF q1 that] by (simp add: votes_ok_def)
    with q2 show ?thesis by (rule quiet_votes_ok)
  qed
qed

lemma propose_qcs_sent:
  assumes "foldE (propose_qc e) qcs s = Inr t"
  shows "sent_qcs s t = set qcs" and "votes_ok e' s \<Longrightarrow> votes_ok e' t"
  using assms
proof (induction qcs arbitrary: s)
  case Nil
  { case 1 then show ?case by (simp add: sent_qcs_def new_out_def) }
  { case 2 then show ?case by simp }
next
  case (Cons qc qcs)
  have split: "\<exists>u. propose_qc e qc s = Inr u \<and> foldE (propose_qc e) qcs u = Inr t"
    if "foldE (propose_qc e) (qc # qcs) s = Inr t" for s
    using that by (auto elim!: bindE_InrE)
  {
    case 1
    then obtain u where u: "propose_qc e qc s = Inr u" "foldE (propose_qc e) qcs u = Inr t" using split by blast
    have "progress u t" by (rule progress_foldE [OF u(2)]) (rule progress_propose_qc)
    from new_out_trans [OF progress_propose_qc [OF u(1)] this] propose_qc_quiet(1) [OF u(1)] Cons.IH(1) [OF u(2)]
    show ?case by (auto simp: sent_qcs_def)
  }
  {
    case 2
    then obtain u where u: "propose_qc e qc s = Inr u" "foldE (propose_qc e) qcs u = Inr t" using split by blast
    show ?case by (rule Cons.IH(2) [OF propose_qc_quiet(2) [OF u(1) 2(1)] u(2)])
  }
qed

text \<open>A step that keeps the stored signatures valid and only makes valid certificates.\<close>

definition sound_step :: "'k node_env \<Rightarrow> staging \<Rightarrow> staging \<Rightarrow> bool" where
  "sound_step e s t \<longleftrightarrow> votes_ok e t \<and> (\<forall>qc \<in> sent_qcs s t. cert_ok e qc)"

lemma quiet_sound: "quiet s t \<Longrightarrow> votes_ok e s \<Longrightarrow> sound_step e s t"
  by (simp add: sound_step_def quiet_votes_ok quiet_sent)

lemma quiet_then_sound:
  assumes "quiet s t" and "progress s t" and "progress t u" and "sound_step e t u"
  shows "sound_step e s u"
  using assms(4) new_out_trans [OF assms(2,3)] quiet_sent [OF assms(1)] by (auto simp: sound_step_def sent_qcs_def)

lemma sound_create_qcs:
  assumes "maybe_create_qcs e s = Inr t" and "votes_ok e s"
  shows "sound_step e s t"
proof -
  obtain th where th: "byzantine_commit_threshold (env_ft e) (env_cc e) = Inr th"
    using assms(1) by (auto simp: maybe_create_qcs_def elim!: bindE_InrE)
  let ?made = "map (create_qc th (byzantine_fast_path_threshold (env_cc e)) (sg_view s)) (sg_pending s)"
  let ?s = "s\<lparr>sg_pending := map fst ?made\<rparr>"
  have f: "foldE (propose_qc e) (List.map_filter snd ?made) ?s = Inr t"
    using assms(1) th by (simp add: maybe_create_qcs_def Let_def)
  have "same_votes b (fst (create_qc x y z b))" for b x y z by (simp add: same_votes_def create_qc_def Let_def)
  then have "quiet s ?s" by (fastforce simp: quiet_def)
  then have "votes_ok e t" using propose_qcs_sent(2) [OF f] quiet_votes_ok assms(2) by blast
  moreover have "cert_ok e qc" if "qc \<in> sent_qcs s t" for qc
  proof -
    have "qc \<in> set (List.map_filter snd ?made)"
      using that propose_qcs_sent(1) [OF f] by (auto simp: sent_qcs_def new_out_def)
    from created_qcs [OF this] show ?thesis using block_qc_ok [OF _ th] assms(2) by (auto simp: votes_ok_def)
  qed
  ultimately show ?thesis by (simp add: sound_step_def)
qed

lemma sound_process_vote:
  assumes "process_vote e sender v s = Inr t" and "votes_ok e s"
    and "vote_fits e sender (vote_sig_array v) (sg_pending s)"
  shows "sound_step e s t"
proof -
  let ?s1 = "s\<lparr>sg_pending := vote_blocks sender (vote_n v) (vote_sig_array v) (sg_pending s)\<rparr>"
  have "t = s \<or> (\<exists>s2. maybe_crash_commit e ?s1 = Inr s2
      \<and> (t = do_byzantine_commit (sg_bci s2) (sg_ci s2) s2 \<or> maybe_create_qcs e s2 = Inr t))"
    using assms(1) by (auto simp: process_vote_def Let_def elim!: bindE_InrE split: if_split_asm)
  then show ?thesis
  proof (elim disjE exE conjE)
    assume "t = s"
    then show ?thesis using quiet_sound [OF quiet_refl assms(2)] by simp
  next
    fix s2 assume s2: "maybe_crash_commit e ?s1 = Inr s2"
    have "votes_ok e ?s1" using vote_blocks_ok [OF _ assms(3)] assms(2) by (simp add: votes_ok_def)
    from quiet_votes_ok [OF quiet_maybe_crash [OF s2] this] have ok: "votes_ok e s2" .
    have "sound_step e s2 t \<and> progress s2 t \<Longrightarrow> sound_step e ?s1 t"
      using quiet_then_sound [OF quiet_maybe_crash [OF s2] progress_maybe_crash [OF s2]] by blast
    then have goal: "sound_step e s2 t \<Longrightarrow> progress s2 t \<Longrightarrow> ?thesis"
      by (simp add: sound_step_def sent_qcs_def new_out_def)
    show ?thesis if "t = do_byzantine_commit (sg_bci s2) (sg_ci s2) s2"
      unfolding that by (rule goal [unfolded that, OF quiet_sound [OF quiet_do_byz ok] progress_do_byz])
    show ?thesis if "maybe_create_qcs e s2 = Inr t"
      by (rule goal [OF sound_create_qcs [OF that ok] progress_create_qcs [OF that]])
  qed
qed


text \<open>
  What is assumed of the node's own key: its signatures have the right length and verify
  under its public key.
\<close>

definition signs_ok :: "'k node_env \<Rightarrow> bool" where
  "signs_ok e \<longleftrightarrow> (\<forall>d. sig_ok e d (net_name (env_cfg e)) (lib_sign (env_lib e) d))"

lemma self_vote_fits:
  assumes "signs_ok e" and "staging_inv s" and "sg_pending s \<noteq> []"
  shows "vote_fits e (net_name (env_cfg e)) (vote_sig_array (self_vote e s)) (sg_pending s)"
proof -
  let ?b = "last (sg_pending s)"
  have "b = ?b" if "b \<in> set (sg_pending s)" "bv_n b = bv_n ?b" for b
    using chain_inj [OF pending_chain [OF assms(2)] that(1) last_in_set [OF assms(3)] that(2)] .
  then show ?thesis
    using assms(1) by (auto simp: vote_fits_def self_vote_def own_sig_def signs_ok_def Let_def split: if_split_asm)
qed

lemma sound_vote_self:
  assumes "vote_on_last_block_for_self e ack s = Inr t" and "votes_ok e s" and "staging_inv s"
    and "signs_ok e" and "\<not> ft_extra_2pc (env_ft e)"
  shows "sound_step e s t"
  using assms(1)
proof (cases rule: vote_self_cases)
  case 2
  let ?s = "s\<lparr>sg_storage_ack_buffer := []\<rparr>"
  have "sound_step e ?s t"
    using 2 assms(2) self_vote_fits [OF assms(4,3) 2(1)]
    by (intro sound_process_vote [OF 2(2)]) (simp_all add: votes_ok_def)
  then show ?thesis by (simp add: sound_step_def sent_qcs_def new_out_def)
qed (use assms(5) in simp)

lemma sound_leader_same_view:
  assumes "leader_same_view e block ack ae final s = Inr t" and "votes_ok e s" and "staging_inv s"
    and "qcs_below block" and "fresh_number block (enter_same_view block ae s)"
    and "signs_ok e" and "\<not> ft_extra_2pc (env_ft e)"
  shows "sound_step e s t"
proof (cases "check_continuity block (enter_same_view block ae s)")
  case False
  then show ?thesis using assms(1) quiet_sound [OF quiet_enter assms(2)] by (auto simp: leader_same_view_def)
next
  case True
  let ?p = "push_block block final (enter_same_view block ae s)"
  have q: "quiet s ?p" by (rule quiet_trans [OF quiet_enter quiet_push])
  have p: "progress s ?p" by (rule progress_trans [OF progress_enter progress_push])
  have inv: "staging_inv ?p"
    using log_is_push(1) [OF staging_inv_enter [OF assms(3)] True assms(5,4)] by (simp add: log_is_def)
  show ?thesis
  proof (cases final)
    case True
    then have v: "vote_on_last_block_for_self e ack ?p = Inr t"
      using assms(1) \<open>check_continuity _ _\<close> by (simp add: leader_same_view_def Let_def)
    from sound_vote_self [OF v quiet_votes_ok [OF q assms(2)] inv assms(6,7)]
    show ?thesis by (rule quiet_then_sound [OF q p progress_vote_self [OF v]])
  next
    case False
    then have "t = buffer_ack ack ?p" using assms(1) True by (simp add: leader_same_view_def Let_def)
    then show ?thesis using quiet_sound [OF quiet_trans [OF q quiet_buffer] assms(2)] by simp
  qed
qed

lemma sound_process_block:
  assumes "process_block e leader block ack ae final s = Inr t" and "votes_ok e s" and "staging_inv s"
    and "admissible (SG_Block (Some (block, ack, ae, final))) s"
    and "signs_ok e" and "\<not> ft_extra_2pc (env_ft e)"
  shows "sound_step e s t"
proof (cases "st_view ae < sg_view s")
  case True
  then have "t = s"
    using assms(1) by (simp add: process_block_def process_block_as_leader_def process_block_as_follower_def split: if_split_asm)
  then show ?thesis using quiet_sound [OF quiet_refl assms(2)] by simp
next
  case False
  let ?s = "entered leader block ae s"
  have inv: "staging_inv ?s" by (rule staging_inv_entered [OF assms(3)])
  have fresh: "fresh_number block (enter_same_view block ae ?s)"
    using assms(4) by (intro fresh_enter [OF inv]) (auto simp: entered_def)
  have q: "quiet s ?s" using quiet_jump by (simp add: entered_def)
  have p: "progress s ?s" using False progress_jump by (simp add: entered_def)
  note ok = quiet_votes_ok [OF q assms(2)]
  have below: "qcs_below block" using assms(4) by simp
  have "leader_same_view e block ack ae final ?s = Inr t \<or> follower_same_view e block ack ae final ?s = Inr t"
    using assms(1) False by (auto simp: process_block_def process_block_as_leader_def process_block_as_follower_def
        entered_def same_view_by_role_def elim!: bindE_InrE split: if_split_asm)
  then show ?thesis
  proof
    assume l: "leader_same_view e block ack ae final ?s = Inr t"
    from sound_leader_same_view [OF l ok inv below fresh assms(5,6)]
    show ?thesis by (rule quiet_then_sound [OF q p progress_leader_same_view [OF l]])
  next
    assume "follower_same_view e block ack ae final ?s = Inr t"
    from quiet_trans [OF q quiet_follower_same_view [OF this]] show ?thesis by (rule quiet_sound [OF _ assms(2)])
  qed
qed

lemma sound_worker:
  assumes "staging_worker e ev s = Inr t" and "votes_ok e s" and "staging_inv s" and "admissible ev s"
    and "signs_ok e" and "\<not> ft_extra_2pc (env_ft e)"
  shows "sound_step e s t"
  using assms(1)
proof (cases rule: staging_worker_cases)
  case (tick enough)
  show ?thesis by (rule quiet_sound [OF quiet_tick [OF tick(2)] assms(2)])
next
  case (block leader block ack ae final)
  then show ?thesis using sound_process_block [OF block(3) assms(2,3) _ assms(5,6)] assms(4) by simp
next
  case (vote sender v)
  let ?n = "fst (to_name_and_sub_id sender)"
  show ?thesis
  proof (cases "t = s")
    case False
    then obtain results where r: "vote_sigs_verified e ?n (sg_pending s) (vote_sig_array v) = Some results"
      "list_all id results" and t: "process_vote e ?n v s = Inr t"
      using vote(3) unfolding verify_and_process_vote_def by (auto split: option.split_asm if_split_asm)
    from r(2) have "set results \<subseteq> {True}" by (auto simp: list_all_iff)
    from verified_fits [OF r(1) this pending_sorted [OF assms(3)]]
    show ?thesis by (rule sound_process_vote [OF t assms(2)])
  qed (use quiet_sound [OF quiet_refl assms(2)] in simp)
next
  case (pacemaker cmd)
  then have "quiet s t" by (cases cmd) (auto intro: quiet_update_view quiet_propose_new_view)
  then show ?thesis by (rule quiet_sound [OF _ assms(2)])
next
  case (twopc cmd)
  have "ft_extra_2pc (env_ft e) \<or> t = s"
    using assms(1) unfolding twopc(1) by (auto simp: staging_worker_def elim!: bindE_InrE split: if_split_asm)
  then show ?thesis using assms(6) quiet_sound [OF quiet_refl assms(2)] by simp
qed (use quiet_sound [OF quiet_refl assms(2)] in simp)

lemma staging_run_certs:
  assumes "staging_run e s t" and "staging_inv s" and "votes_ok e s" and "\<forall>qc. QcTx qc \<in> set (sg_out s) \<longrightarrow> cert_ok e qc"
    and "\<not> ft_no_qc (env_ft e)" and "signs_ok e" and "\<not> ft_extra_2pc (env_ft e)"
  shows "votes_ok e t \<and> (\<forall>qc. QcTx qc \<in> set (sg_out t) \<longrightarrow> cert_ok e qc)"
  using assms
proof (induction rule: staging_run.induct)
  case (run_step s t ev u)
  have inv: "staging_inv t" by (rule staging_run_inv [OF run_step.hyps(1) run_step.prems(1,4)])
  have IH: "votes_ok e t" "\<forall>qc. QcTx qc \<in> set (sg_out t) \<longrightarrow> cert_ok e qc" using run_step by blast+
  have snd: "sound_step e t u"
    by (rule sound_worker [OF run_step.hyps(3) IH(1) inv run_step.hyps(2) run_step.prems(5,6)])
  have "set (sg_out u) = set (sg_out t) \<union> set (new_out t u)"
    using progress_worker [OF run_step.hyps(3)] by (auto simp: progress_def new_out_def)
  with snd IH(2) show ?case by (auto simp: sound_step_def sent_qcs_def)
qed simp

section \<open>Properties\<close>

text \<open>
  C2: Certificates are sound. Every quorum certificate that staging sends in a run from its
  initial state has pairwise distinct signers, at least as many as the byzantine commit
  threshold, and passes the check \<open>verify_qc\<close> that every other node applies to it. Assumed
  of the libraries: a batch verifies if every entry does, and the node's own signatures
  verify under its public key.
\<close>

theorem certificates_verify:
  assumes "staging_run e (staging_new (env_ft e)) s" and "\<not> ft_no_qc (env_ft e)" and "\<not> ft_extra_2pc (env_ft e)"
    and "signs_ok e" and "verifies_batches (env_lib e)" and "QcTx qc \<in> set (sg_out s)"
  shows "\<exists>th. byzantine_commit_threshold (env_ft e) (env_cc e) = Inr th
     \<and> verify_qc (env_lib e) (env_keys e) qc th \<and> distinct (map fst (qc_sig qc)) \<and> th \<le> length (qc_sig qc)"
proof -
  have "votes_ok e (staging_new (env_ft e))" "sg_out (staging_new (env_ft e)) = []"
    by (simp_all add: votes_ok_def staging_new_def)
  then have "cert_ok e qc"
    using staging_run_certs [OF assms(1) staging_inv_new _ _ assms(2,4,3)] assms(6) by simp
  then show ?thesis by (auto simp: cert_ok_def verify_qc_conv [OF assms(5)] sig_ok_def)
qed

text \<open>A cluster of one node certifies its block with its own vote.\<close>

definition solo_env :: "unit node_env" where
  "solo_env = (demo_env ''node1'')\<lparr>env_cfg := (demo_cfg ''node1'')\<lparr>consensus := demo_cc\<lparr>node_list := [''node1''],
     liveness_u := 0\<rparr>\<rparr>\<rparr>"

lemma solo_simps [simp]:
  "env_ft solo_env = pirateship" "env_lib solo_env = demo_lib (demo_block 1 1 [])" "env_keys solo_env = demo_ks"
  "net_name (env_cfg solo_env) = ''node1''" "node_list (env_cc solo_env) = [''node1'']" "liveness_u (env_cc solo_env) = 0"
  "commit_index_gap_soft (env_cc solo_env) = 500" "get_leader_for_view pirateship (env_cc solo_env) v = Inr ''node1''"
  "ft_platforms pirateship = True"
  by (simp_all add: solo_env_def demo_env_def demo_cfg_def demo_cc_def pirateship_def get_leader_for_view_def)

lemma solo_signs: "signs_ok solo_env"
  by (simp add: signs_ok_def sig_ok_def keystore_verify_def demo_lib_def demo_ks_def lengths)

lemma solo_run:
  "\<exists>s qc. staging_worker solo_env demo_ev1 (staging_new pirateship) = Inr s \<and> QcTx qc \<in> set (sg_out s)
     \<and> map fst (qc_sig qc) = [''node1'']"
  by (simp add: staging_worker_def staging_i_am_leader_def i_am_leader_def process_block_as_leader_def
      same_view_by_role_def leader_same_view_def leader_jump_def enter_same_view_def rollback_def check_continuity_def
      push_block_def fresh_block_def emit_def vote_on_last_block_for_self_def own_sig_def process_vote_def
      vote_block_def maybe_crash_commit_def crash_commit_threshold_def crash_commit_index_def do_crash_commit_def
      maybe_create_qcs_def byzantine_commit_threshold_def byzantine_liveness_threshold_def
      byzantine_fast_path_threshold_def create_qc_def List.map_filter_def propose_qc_def maybe_stabilize_view_def
      maybe_byzantine_commit_def maybe_update_last_qc_def last_qc_n_def new_byz_index_def highest_qc_upto_def
      do_byzantine_commit_def block_qc_def demo_ae_stats_def demo_ev1_def staging_new_def u64_sub_def max_or_def Let_def)

theorem certificates_verify_witness:
  "\<exists>(s :: staging) qc. QcTx qc \<in> set (sg_out s) \<and> (\<exists>th. byzantine_commit_threshold pirateship (env_cc solo_env) = Inr th
     \<and> verify_qc (demo_lib (demo_block 1 1 [])) demo_ks qc th \<and> distinct (map fst (qc_sig qc)) \<and> th \<le> length (qc_sig qc))"
proof -
  obtain s qc where s: "staging_worker solo_env demo_ev1 (staging_new pirateship) = Inr s" and qc: "QcTx qc \<in> set (sg_out s)"
    using solo_run by blast
  have "staging_run solo_env (staging_new pirateship) s" by (rule run_step [OF run_refl demo_admissible(1) s])
  with certificates_verify [of solo_env s qc] solo_signs demo_lib_batches [of "demo_block 1 1 []"] qc
  have "\<exists>th. byzantine_commit_threshold pirateship (env_cc solo_env) = Inr th
     \<and> verify_qc (demo_lib (demo_block 1 1 [])) demo_ks qc th \<and> distinct (map fst (qc_sig qc)) \<and> th \<le> length (qc_sig qc)"
    by simp
  with qc show ?thesis by (intro exI [of _ s] exI [of _ qc]) simp
qed

end
