(* ===== verification/StagingLaws.thy ===== *)
theory StagingLaws
  imports StagingVotes
begin

text \<open>
  The rules of staging one by one: the recursion on a view jump, the append-only log of a
  stable view, when a block is byzantine or crash committed and what is delivered, and what
  the check before a new view guarantees. At the end, two situations that the code does not
  handle.
\<close>

section \<open>Jumping to a higher view\<close>

text \<open>
  The handlers of blocks satisfy the recursion of the source: on a block of a higher view,
  each handler moves to that view and then behaves as the handler, chosen again by who leads
  the new view, behaves on the same block.
\<close>

theorem view_jump_recursion:
  assumes "sg_view s < st_view ae"
  shows "process_block_as_leader e block ack ae final s =
       bindE (staging_i_am_leader e (leader_jump block ae s)) (\<lambda>leader.
         if leader then process_block_as_leader e block ack ae final (leader_jump block ae s)
         else process_block_as_follower e block ack ae final (leader_jump block ae s))
     \<and> process_block_as_follower e block ack ae final s =
       bindE (staging_i_am_leader e (follower_jump block ae s)) (\<lambda>leader.
         if leader then process_block_as_leader e block ack ae final (follower_jump block ae s)
         else process_block_as_follower e block ack ae final (follower_jump block ae s))"
proof -
  have "process_block_as_leader e block ack ae final u = leader_same_view e block ack ae final u"
    and "process_block_as_follower e block ack ae final u = follower_same_view e block ack ae final u"
    if "sg_view u = st_view ae" for u
    using that by (simp_all add: process_block_as_leader_def process_block_as_follower_def)
  then show ?thesis
    using assms by (simp add: process_block_as_leader_def [of e block ack ae final s]
        process_block_as_follower_def [of e block ack ae final s] same_view_by_role_def cong: if_cong)
qed

theorem view_jump_recursion_witness:
  "process_block_as_follower (demo_env ''node2'') demo_b1 StorageOk (demo_ae_stats False) True (staging_new pirateship) =
       bindE (staging_i_am_leader (demo_env ''node2'') (follower_jump demo_b1 (demo_ae_stats False) (staging_new pirateship)))
       (\<lambda>leader. if leader then process_block_as_leader (demo_env ''node2'') demo_b1 StorageOk (demo_ae_stats False) True
             (follower_jump demo_b1 (demo_ae_stats False) (staging_new pirateship))
         else process_block_as_follower (demo_env ''node2'') demo_b1 StorageOk (demo_ae_stats False) True
             (follower_jump demo_b1 (demo_ae_stats False) (staging_new pirateship)))"
  by (rule view_jump_recursion [THEN conjunct2]) (simp add: staging_new_def demo_ae_stats_def)

section \<open>The log of a stable view\<close>

lemma enter_stable_log:
  "sg_view_is_stable s \<Longrightarrow> st_view_is_stable ae \<Longrightarrow> staging_log (enter_same_view block ae s) = staging_log s"
  by (rule staging_log_core) (simp add: enter_same_view_def Let_def)


definition demo_b3 :: cached_block where
  "demo_b3 = \<lparr>cb_block = (demo_block 3 1 [])\<lparr>blk_parent := [2]\<rparr>, cb_ser = demo_ser, cb_hash = [3]\<rparr>"

definition demo_ev3 :: staging_event where
  "demo_ev3 = SG_Block (Some (demo_b3, StorageOk, demo_ae_stats True, True))"

lemma demo_s2_stable: "sg_view_is_stable demo_s2" "sg_view demo_s2 = 1"
  by (simp_all add: demo_s2_def)

lemma demo_ev3_admissible: "admissible demo_ev3 demo_s2"
  by (simp add: demo_ev3_def demo_s2_def qcs_below_def fresh_number_def fresh_block_def demo_b3_def demo_block_def)

lemma demo_run2: "staging_run (demo_env ''node2'') (staging_new pirateship) demo_s2"
  by (rule run_step [OF demo_run(1) demo_admissible(2) demo_worker(2)])

lemma demo_ev3_log:
  "\<exists>t. staging_worker (demo_env ''node2'') demo_ev3 demo_s2 = Inr t \<and> staging_log t = [demo_b1, demo_b2, demo_b3]"
  by (simp add: staging_defs demo_ev3_def demo_s2_def demo_b3_def demo_block_def staging_log_def pending_log_def
      delivered_def demo_s1_def is_signed_def)


section \<open>Byzantine commits\<close>

lemma highest_qc_upto_in:
  assumes "d < highest_qc_upto d n p"
  shows "\<exists>b \<in> set p. \<exists>qc \<in> set (blk_qc (cb_block (bv_block b))). bv_n b \<le> n \<and> qc_n qc = highest_qc_upto d n p"
proof -
  let ?xs = "concat (map (\<lambda>b. map qc_n (blk_qc (cb_block (bv_block b)))) (filter (\<lambda>b. bv_n b \<le> n) (rev p)))"
  have "max_or d ?xs \<in> set ?xs" using assms max_or_cases [of d ?xs] unfolding highest_qc_upto_def by auto
  then obtain b where "b \<in> set p" "bv_n b \<le> n" "max_or d ?xs \<in> qc_n ` set (blk_qc (cb_block (bv_block b)))" by auto
  then obtain qc where "qc \<in> set (blk_qc (cb_block (bv_block b)))" "qc_n qc = highest_qc_upto d n p"
    unfolding highest_qc_upto_def by auto
  with \<open>b \<in> set p\<close> \<open>bv_n b \<le> n\<close> show ?thesis by blast
qed

text \<open>
  C7: Every byzantine commit is backed by certificates. If handling a certificate raises the
  byzantine commit index to \<open>n\<close>, then either the certificate is itself on block \<open>n\<close>, is signed
  by as many entries as there are nodes, and the view is stable (fast path), or a pending block
  at or below the certified one carries a certificate on block \<open>n\<close> (the two-hop rule). With
  \<open>extra_qc_check\<close> the two-hop rule needs a third certificate: that second certificate is in
  a block at or below one that a certificate in a third block points to.
\<close>

theorem byz_commit_is_certified:
  assumes "sg_bci s < sg_bci (maybe_byzantine_commit e qc s)"
  shows "ft_fast_path (env_ft e) \<and> sg_view_is_stable s \<and> length (node_list (env_cc e)) \<le> length (qc_sig qc)
       \<and> sg_bci (maybe_byzantine_commit e qc s) = qc_n qc
     \<or> (\<exists>b \<in> set (sg_pending s). \<exists>qc2 \<in> set (blk_qc (cb_block (bv_block b))).
          qc_n qc2 = sg_bci (maybe_byzantine_commit e qc s) \<and>
          (if ft_extra_qc_check (env_ft e)
           then \<exists>b3 \<in> set (sg_pending s). \<exists>qc3 \<in> set (blk_qc (cb_block (bv_block b3))).
                  bv_n b3 \<le> qc_n qc \<and> bv_n b \<le> qc_n qc3
           else bv_n b \<le> qc_n qc))"
proof -
  let ?n = "new_byz_index e qc (note_qc qc s)" and ?t = "maybe_byzantine_commit e qc s"
  let ?slow = "highest_qc_upto (sg_bci s) (qc_n qc) (sg_pending s)"
  let ?extra = "highest_qc_upto (sg_bci s) ?slow (sg_pending s)"
  have n: "sg_bci ?t = ?n" "sg_bci s < ?n"
    using assms unfolding maybe_byzantine_commit_eq by (auto simp: do_byzantine_commit_def Let_def split: if_split_asm)
  consider (fast) "sg_view_is_stable s" "length (node_list (env_cc e)) \<le> length (qc_sig qc)" "ft_fast_path (env_ft e)" "?n = qc_n qc"
    | (extra) "ft_extra_qc_check (env_ft e)" "sg_bci s < ?slow" "?n = ?extra"
    | (slow) "\<not> ft_extra_qc_check (env_ft e)" "?n = ?slow"
    using n(2) by (auto simp: new_byz_index_def Let_def byzantine_fast_path_threshold_def max_def split: if_split_asm)
  then show ?thesis
  proof cases
    case fast
    then show ?thesis using n by simp
  next
    case extra
    obtain b3 qc3 where "b3 \<in> set (sg_pending s)" "qc3 \<in> set (blk_qc (cb_block (bv_block b3)))"
      "bv_n b3 \<le> qc_n qc" "qc_n qc3 = ?slow" using highest_qc_upto_in [OF extra(2)] by blast
    moreover obtain b qc2 where b: "b \<in> set (sg_pending s)" "qc2 \<in> set (blk_qc (cb_block (bv_block b)))"
      "bv_n b \<le> ?slow" "qc_n qc2 = ?extra" using highest_qc_upto_in [of "sg_bci s" ?slow "sg_pending s"] n(2) extra(3) by auto
    ultimately have "\<exists>b3 \<in> set (sg_pending s). \<exists>qc3 \<in> set (blk_qc (cb_block (bv_block b3))).
        bv_n b3 \<le> qc_n qc \<and> bv_n b \<le> qc_n qc3" by metis
    with b extra n(1) show ?thesis by (intro disjI2 bexI [of _ b] bexI [of _ qc2]) simp_all
  next
    case slow
    with highest_qc_upto_in [of "sg_bci s" "qc_n qc" "sg_pending s"] n show ?thesis by auto
  qed
qed

theorem byz_commit_is_certified_witness:
  "sg_bci (demo_s1\<lparr>sg_view_is_stable := True\<rparr>)
     < sg_bci (maybe_byzantine_commit (demo_env ''node2'') demo_cert (demo_s1\<lparr>sg_view_is_stable := True\<rparr>)) \<and>
   sg_bci (maybe_byzantine_commit (demo_env ''node2'') demo_cert (demo_s1\<lparr>sg_view_is_stable := True\<rparr>)) = 1"
proof -
  let ?s = "demo_s1\<lparr>sg_view_is_stable := True\<rparr>"
  have lt: "sg_bci ?s < sg_bci (maybe_byzantine_commit (demo_env ''node2'') demo_cert ?s)"
    by (simp add: staging_defs demo_s1_def)
  from byz_commit_is_certified [OF this] have "sg_bci (maybe_byzantine_commit (demo_env ''node2'') demo_cert ?s) = 1"
    by (auto simp: demo_s1_def fresh_block_def split: if_split_asm)
  with lt show ?thesis by simp
qed

section \<open>Crash commits\<close>

lemma crash_commit_index_Max:
  assumes "sorted_wrt (\<lambda>a b. bv_n a < bv_n b) p"
  shows "crash_commit_index thresh ci p =
     Max (insert ci {bv_n b | b. b \<in> set p \<and> ci < bv_n b \<and> thresh \<le> length (bv_replication_set b)})"
  using assms
proof (induction p rule: rev_induct)
  case Nil
  then show ?case by (simp add: crash_commit_index_def)
next
  case (snoc x xs)
  let ?A = "{bv_n b | b. b \<in> set xs \<and> ci < bv_n b \<and> thresh \<le> length (bv_replication_set b)}"
  have IH: "crash_commit_index thresh ci xs = Max (insert ci ?A)" using snoc by (simp add: sorted_wrt_append)
  have fin: "finite ?A" by simp
  have lt: "y < bv_n x" if "y \<in> ?A" for y using that snoc.prems by (auto simp: sorted_wrt_append)
  have step: "crash_commit_index thresh ci (xs @ [x]) =
     (if bv_n x \<le> Max (insert ci ?A) then Max (insert ci ?A)
      else if thresh \<le> length (bv_replication_set x) then bv_n x else Max (insert ci ?A))"
    using IH by (simp add: crash_commit_index_def)
  show ?case
  proof (cases "ci < bv_n x \<and> thresh \<le> length (bv_replication_set x)")
    case True
    then have "{bv_n b | b. b \<in> set (xs @ [x]) \<and> ci < bv_n b \<and> thresh \<le> length (bv_replication_set b)} = insert (bv_n x) ?A"
      by auto
    moreover have "\<not> bv_n x \<le> Max (insert ci ?A)" using True fin lt by (simp add: not_le)
    moreover have "Max (insert ci (insert (bv_n x) ?A)) = bv_n x"
      using True fin lt by (intro Max_eqI) (auto intro: less_imp_le)
    ultimately show ?thesis using step True by simp
  next
    case False
    then have "{bv_n b | b. b \<in> set (xs @ [x]) \<and> ci < bv_n b \<and> thresh \<le> length (bv_replication_set b)} = ?A" by auto
    moreover have "bv_n x \<le> ci \<Longrightarrow> bv_n x \<le> Max (insert ci ?A)" using fin by (meson Max_ge finite_insert insertI1 le_trans)
    ultimately show ?thesis using step False by (auto simp: not_less)
  qed
qed

lemma pending_slice:
  assumes "staging_inv s" and "sg_bci s \<le> a"
  shows "map bv_block (filter (\<lambda>b. a < bv_n b \<and> bv_n b \<le> c) (sg_pending s)) = take (c - a) (drop a (staging_log s))"
proof -
  let ?p = "drop (a - sg_bci s) (sg_pending s)"
  have num: "bv_n (?p ! i) = a + i + 1" if "i < length ?p" for i
    using pending_nth_num [OF assms(1), of "a - sg_bci s + i"] that assms(2) by simp
  have "filter (\<lambda>b. a < bv_n b) (sg_pending s) = ?p"
    using chain_filter_gt [OF pending_chain [OF assms(1)], of a] pending_take [OF assms(1), of a] assms
    by (simp add: dropWhile_eq_drop min_def log_length [OF assms(1)])
  moreover have "filter (\<lambda>b. bv_n b \<le> c) ?p = take (c - a) ?p"
  proof -
    have "filter (\<lambda>b. bv_n b \<le> c) ?p = takeWhile (\<lambda>b. bv_n b \<le> c) ?p"
      by (rule chain_filter_le [OF chain_dropI [OF pending_chain [OF assms(1)]]])
    also have "\<dots> = take (c - a) ?p"
      by (rule takeWhile_eq_take_P_nth) (use num in fastforce)+
    finally show ?thesis .
  qed
  moreover have "filter (\<lambda>b. a < bv_n b \<and> bv_n b \<le> c) (sg_pending s) =
      filter (\<lambda>b. bv_n b \<le> c) (filter (\<lambda>b. a < bv_n b) (sg_pending s))" by (simp add: conj_commute)
  ultimately have "map bv_block (filter (\<lambda>b. a < bv_n b \<and> bv_n b \<le> c) (sg_pending s)) = take (c - a) (map bv_block ?p)"
    by (simp add: take_map)
  also have "map bv_block ?p = drop a (staging_log s)"
    using assms by (simp add: staging_log_def pending_log_def staging_inv_def drop_map)
  finally show ?thesis .
qed

text \<open>
  C23: Crash commit. In every state with the log invariant the loop over the pending blocks computes the
  highest number above the commit index whose block is stored by enough nodes; the threshold
  is a majority, or the byzantine threshold while more than \<open>commit_index_gap_soft\<close> blocks are
  crash committed but not byzantine committed. If the index moves, the broadcaster learns the
  new index, and the application gets the blocks of the log above the old index, and above
  the byzantine commit index if that is higher, in order and without a gap.
\<close>

theorem crash_commit_correct:
  assumes "staging_inv s" and "\<not> ft_no_qc (env_ft e)" and "maybe_crash_commit e s = Inr t"
  shows "\<exists>thresh. (if int (sg_ci s) - int (sg_bci s) > int (commit_index_gap_soft (env_cc e))
          then byzantine_commit_threshold (env_ft e) (env_cc e) = Inr thresh
          else thresh = crash_commit_threshold (env_cc e))
     \<and> sg_ci t = Max (insert (sg_ci s) {bv_n b | b. b \<in> set (sg_pending s) \<and> sg_ci s < bv_n b
          \<and> thresh \<le> length (bv_replication_set b)})
     \<and> (sg_ci t = sg_ci s \<longrightarrow> sg_out t = sg_out s)
     \<and> (sg_ci s < sg_ci t \<longrightarrow> sg_out t = sg_out s @ [ToBroadcaster (UpdateCI (sg_ci t)),
          ToApp (CrashCommit (take (sg_ci t - max (sg_ci s) (sg_bci s))
            (drop (max (sg_ci s) (sg_bci s)) (staging_log s))))])"
proof -
  note inv = assms(1)
  obtain thresh where th: "if int (sg_ci s) - int (sg_bci s) > int (commit_index_gap_soft (env_cc e))
          then byzantine_commit_threshold (env_ft e) (env_cc e) = Inr thresh
          else thresh = crash_commit_threshold (env_cc e)"
    and t: "t = do_crash_commit (sg_ci s) (crash_commit_index thresh (sg_ci s) (sg_pending s))
       (s\<lparr>sg_ci := crash_commit_index thresh (sg_ci s) (sg_pending s)\<rparr>)"
    using assms(2,3) by (auto simp: maybe_crash_commit_def Let_def elim!: bindE_InrE split: if_split_asm)
  let ?n = "crash_commit_index thresh (sg_ci s) (sg_pending s)"
  have n: "?n = Max (insert (sg_ci s) {bv_n b | b. b \<in> set (sg_pending s) \<and> sg_ci s < bv_n b
          \<and> thresh \<le> length (bv_replication_set b)})"
    by (rule crash_commit_index_Max [OF chain_strict_sorted [OF pending_chain [OF inv]]])
  have ci: "sg_ci t = ?n" unfolding t by (simp add: do_crash_commit_def Let_def)
  let ?a = "max (sg_ci s) (sg_bci s)"
  have slice: "filter (\<lambda>b. sg_ci s < bv_n b \<and> bv_n b \<le> ?n) (sg_pending s) =
      filter (\<lambda>b. ?a < bv_n b \<and> bv_n b \<le> ?n) (sg_pending s)"
    by (rule filter_cong) (use pending_num_bounds(1) [OF inv] in auto)
  have out: "sg_out t = sg_out s @ [ToBroadcaster (UpdateCI ?n),
      ToApp (CrashCommit (take (?n - ?a) (drop ?a (staging_log s))))]" if "sg_ci s < ?n"
    using that pending_slice [OF inv, of ?a ?n] slice unfolding t by (simp add: do_crash_commit_def Let_def)
  have same: "sg_out t = sg_out s" if "?n = sg_ci s" using that unfolding t by (simp add: do_crash_commit_def)
  show ?thesis using th n ci out same by (intro exI [of _ thresh]) simp
qed

text \<open>Block 1 of the run above, once it is stored by three nodes.\<close>

definition demo_replicated :: staging where
  "demo_replicated = demo_s1\<lparr>sg_pending := [(fresh_block demo_b1)\<lparr>bv_replication_set := [''node1'', ''node2'', ''node3'']\<rparr>]\<rparr>"

lemma demo_replicated_inv: "staging_inv demo_replicated"
proof -
  have "core demo_replicated = core demo_s1"
    unfolding demo_replicated_def by (rule core_pending) (simp add: pending_log_def demo_s1_def fresh_block_def)
  moreover have "staging_inv demo_s1"
    using staging_run_inv [OF demo_run(1) staging_inv_new] by simp
  ultimately show ?thesis using staging_inv_core [of demo_replicated demo_s1] by simp
qed

lemma demo_replicated_commit:
  "\<exists>t. maybe_crash_commit (demo_env ''node2'') demo_replicated = Inr t \<and> sg_ci t = 1"
  by (simp add: maybe_crash_commit_def demo_replicated_def demo_s1_def crash_commit_index_def crash_commit_threshold_def
      do_crash_commit_def fresh_block_def Let_def)

theorem crash_commit_correct_witness:
  "\<exists>t. maybe_crash_commit (demo_env ''node2'') demo_replicated = Inr t
     \<and> sg_out t = sg_out demo_replicated @ [ToBroadcaster (UpdateCI 1), ToApp (CrashCommit [demo_b1])]"
proof -
  obtain t where t: "maybe_crash_commit (demo_env ''node2'') demo_replicated = Inr t" "sg_ci t = 1"
    using demo_replicated_commit by blast
  have s: "sg_ci demo_replicated = 0" "sg_bci demo_replicated = 0" "staging_log demo_replicated = [demo_b1]"
    by (simp_all add: demo_replicated_def demo_s1_def staging_log_def delivered_def pending_log_def fresh_block_def)
  have "sg_out t = sg_out demo_replicated @ [ToBroadcaster (UpdateCI 1), ToApp (CrashCommit [demo_b1])]"
    using crash_commit_correct [OF demo_replicated_inv _ t(1)] by (auto simp: s t(2))
  with t show ?thesis by blast
qed

section \<open>The check before a new view\<close>

text \<open>
  The check of the chosen fork is sound. If a new leader whose byzantine commit index is
  positive accepts a non-empty chosen fork and keeps the pending blocks up to \<open>r\<close>, then no
  committed block is given up (\<open>r\<close> is at least \<open>bci\<close>), and the fork connects to the log: either
  it starts at or below \<open>bci\<close> and contains the last committed block, or the block of its log
  just before the fork's first block is kept and is the parent that the first block names.
\<close>

theorem check_byz_commit_sound:
  assumes "staging_inv s" and "0 < sg_bci s" and "fs_fork_last_n chosen \<noteq> 0"
    and "check_byz_commit_invariant chosen s = Inr r"
  shows "sg_bci s \<le> r \<and>
     (if fs_first_n chosen \<le> sg_bci s
      then r = sg_bci s \<and> cb_hash (staging_log s ! (sg_bci s - 1)) \<in> set (fs_block_hashes chosen)
      else r = fs_first_n chosen - 1 \<and> r \<le> length (staging_log s)
           \<and> cb_hash (staging_log s ! (r - 1)) = fs_first_parent chosen)"
proof -
  have len: "length (delivered s) = sg_bci s" using assms(1) by (simp add: staging_inv_def)
  then have "delivered s \<noteq> []" using assms(2) by auto
  then have p: "sg_curr_parent s = Some (staging_log s ! (sg_bci s - 1))"
    using assms(1,2) len by (simp add: staging_inv_def last_opt_def staging_log_def nth_append last_conv_nth)
  have found: "staging_log s ! (bv_n b - 1) = bv_block b \<and> sg_bci s < bv_n b \<and> bv_n b \<le> length (staging_log s)"
    if b: "b \<in> set (sg_pending s)" for b
  proof -
    obtain i where i: "i < length (sg_pending s)" "b = sg_pending s ! i" using b by (auto simp: in_set_conv_nth)
    have n: "bv_n b = sg_bci s + i + 1" unfolding i(2) by (rule pending_nth_num [OF assms(1) i(1)])
    have "staging_log s ! (sg_bci s + i) = bv_block b"
      using i len by (simp add: staging_log_def pending_log_def nth_append)
    with n pending_num_bounds(2) [OF assms(1) b] show ?thesis by simp
  qed
  have le: "sg_bci s \<le> length (staging_log s)" using log_length [OF assms(1)] by simp
  show ?thesis
  proof (cases "fs_first_n chosen \<le> sg_bci s + 1")
    case True
    then show ?thesis
      using assms(2-4) p le by (auto simp: check_byz_commit_invariant_def split: if_split_asm)
  next
    case False
    then have "r = fs_first_n chosen - 1 \<and> (\<exists>b \<in> set (sg_pending s). bv_n b = fs_first_n chosen - 1
        \<and> cb_hash (bv_block b) = fs_first_parent chosen)"
      using assms(2-4) p by (simp add: check_byz_commit_invariant_def Let_def list_ex_iff split: if_split_asm)
    then obtain b where r: "r = fs_first_n chosen - 1" and b: "b \<in> set (sg_pending s)" "bv_n b = r"
      "cb_hash (bv_block b) = fs_first_parent chosen" by auto
    from found [OF b(1)] have "staging_log s ! (r - 1) = bv_block b" "sg_bci s < r" "r \<le> length (staging_log s)"
      unfolding b(2) by simp_all
    with r b(3) False show ?thesis by simp
  qed
qed

definition demo_fork :: fork_stat where
  "demo_fork = \<lparr>fs_block_hashes = [[2]], fs_fork_last_n = 2, fs_first_n = 2, fs_first_parent = [1], fs_last_qc = None,
     fs_last_view = 1, fs_last_config_num = 1\<rparr>"

lemma demo_s2_inv: "staging_inv demo_s2"
  using staging_run_inv [OF demo_run2 staging_inv_new] by simp

theorem check_byz_commit_sound_witness:
  "check_byz_commit_invariant demo_fork demo_s2 = Inr 1 \<and> cb_hash (staging_log demo_s2 ! 0) = [1]"
proof -
  have "check_byz_commit_invariant demo_fork demo_s2 = Inr 1"
    by (simp add: check_byz_commit_invariant_def demo_fork_def demo_s2_def)
  moreover from check_byz_commit_sound [OF demo_s2_inv _ _ this] have "cb_hash (staging_log demo_s2 ! 0) = [1]"
    by (simp add: demo_results(3) demo_fork_def)
  ultimately show ?thesis by simp
qed

section \<open>Two gaps\<close>

text \<open>
  C38: The continuity check accepts a block that is already pending, and the handlers append it
  again: after a repeated block (here one without certificates, not the last of its message)
  the log of a follower in a stable view is no longer a chain.
\<close>

theorem repeated_block_breaks_chain:
  assumes "staging_inv s" and "b \<in> set (sg_pending s)" and "blk_qc (cb_block (bv_block b)) = []"
    and "sg_view_is_stable s" and "st_view ae = sg_view s" and "st_view_is_stable ae"
  shows "\<exists>t. process_block_as_follower e (bv_block b) ack ae False s = Inr t
     \<and> staging_log t = staging_log s @ [bv_block b] \<and> \<not> block_chain (staging_log t)"
proof -
  let ?s = "enter_same_view (bv_block b) ae s"
  have s: "?s = s\<lparr>sg_view_is_stable := True\<rparr>" using assms(4,6) by (simp add: enter_same_view_def Let_def)
  note ch = pending_chain [OF assms(1)]
  have bounds: "bv_n (hd (sg_pending s)) \<le> bv_n b" "bv_n b \<le> bv_n (last (sg_pending s))"
    using chain_num_bounds [OF ch assms(2)] by simp_all
  have ne: "sg_pending s \<noteq> []" using assms(2) by auto
  have "check_continuity (bv_block b) ?s"
    using bounds assms(2) ne unfolding s by (auto simp: check_continuity_def Let_def list_ex_iff)
  then have "\<exists>t. process_block_as_follower e (bv_block b) ack ae False s = Inr t \<and> core t = core (push_block (bv_block b) False ?s)"
    using assms(3,5) by (auto simp: process_block_as_follower_def follower_same_view_def Let_def)
  then obtain t where t: "process_block_as_follower e (bv_block b) ack ae False s = Inr t"
    "core t = core (push_block (bv_block b) False ?s)" by blast
  have log: "staging_log t = staging_log s @ [bv_block b]"
    using staging_log_core [OF t(2)] unfolding s
    by (simp add: push_block_def staging_log_def pending_log_def fresh_block_def delivered_def)
  have "staging_log s \<noteq> []" "cb_n (last (staging_log s)) = length (staging_log s)"
    using ne staging_inv_nth [OF assms(1), of "length (staging_log s) - 1"]
    by (simp_all add: staging_log_def pending_log_def last_conv_nth)
  then have "\<not> block_chain (staging_log t)"
    unfolding log using pending_num_bounds(2) [OF assms(1,2)] by (simp add: chain_snoc)
  with t(1) log show ?thesis by blast
qed

theorem repeated_block_breaks_chain_witness:
  "\<exists>t. process_block_as_follower (demo_env ''node2'') demo_b1 StorageOk (demo_ae_stats True) False
       (demo_s1\<lparr>sg_view_is_stable := True\<rparr>) = Inr t \<and> staging_log t = [demo_b1, demo_b1] \<and> \<not> block_chain (staging_log t)"
proof -
  let ?s = "demo_s1\<lparr>sg_view_is_stable := True\<rparr>"
  have "staging_inv demo_s1" using staging_run_inv [OF demo_run(1) staging_inv_new] by simp
  then have inv: "staging_inv ?s" using staging_inv_core [of ?s demo_s1] by simp
  have "staging_log ?s = [demo_b1]"
    by (simp add: demo_s1_def staging_log_def delivered_def pending_log_def fresh_block_def)
  with repeated_block_breaks_chain [OF inv, of "fresh_block demo_b1" "demo_ae_stats True" "demo_env ''node2''" StorageOk]
  show ?thesis by (simp add: demo_s1_def fresh_block_def demo_ae_stats_def)
qed



end
