(* ===== verification/Storage.thy ===== *)
theory Storage
  imports Crypto
begin

text \<open>
  The storage service (\<open>src/utils/storage_service.rs\<close>) over the RocksDB engine
  (\<open>src/utils/storage.rs\<close>): a block is stored under its hash, and what comes back is
  checked against the hash before it is used. RocksDB itself is the parameter \<open>rocks_lib\<close>.
  The interface \<open>block_fetch\<close> is what a reader of stored blocks relies on.
\<close>

section \<open>Definitions\<close>

text \<open>\<open>db_put_opt\<close> gives the new database and whether the write succeeded; \<open>db_get\<close> is
  \<open>None\<close> for an engine error and \<open>Some None\<close> for a missing key.\<close>

record 'd rocks_lib =
  db_put_opt :: "bytes \<Rightarrow> bytes \<Rightarrow> 'd \<Rightarrow> 'd \<times> bool"
  db_get :: "bytes \<Rightarrow> 'd \<Rightarrow> bytes option option"

definition rocks_put_block :: "'d rocks_lib \<Rightarrow> bytes \<Rightarrow> bytes \<Rightarrow> 'd \<Rightarrow> 'd \<times> storage_ack" where
  "rocks_put_block rl block_ser block_hash db =
     (case db_put_opt rl block_hash block_ser db of
        (db', ok) \<Rightarrow> (db', if ok then StorageOk else StorageErr))"

definition rocks_get_block :: "'d rocks_lib \<Rightarrow> bytes \<Rightarrow> 'd \<Rightarrow> io_error + bytes" where
  "rocks_get_block rl block_hash db =
     (case db_get rl block_hash db of
        Some (Some val) \<Rightarrow> Inr val
      | Some None \<Rightarrow> Inl Key_Not_Found
      | None \<Rightarrow> Inl Engine_Error)"

datatype storage_service_command = Storage_Put bytes bytes | Storage_Get bytes

datatype storage_reply = Put_Reply storage_ack | Get_Reply "io_error + bytes"

text \<open>One turn of the service loop. Without the feature \<open>storage\<close> nothing is written.\<close>

fun storage_serve ::
  "features \<Rightarrow> 'd rocks_lib \<Rightarrow> storage_service_command \<Rightarrow> 'd \<Rightarrow> 'd \<times> storage_reply" where
  "storage_serve ft rl (Storage_Put key val) db =
     (if ft_storage ft then
        (case rocks_put_block rl val key db of (db', ack) \<Rightarrow> (db', Put_Reply ack))
      else (db, Put_Reply StorageOk))"
| "storage_serve ft rl (Storage_Get key) db = (db, Get_Reply (rocks_get_block rl key db))"

text \<open>The connector; \<open>get_block\<close> gives what the service answered to the crypto service.\<close>

definition storage_put_block ::
  "features \<Rightarrow> 'd rocks_lib \<Rightarrow> cached_block \<Rightarrow> 'd \<Rightarrow> 'd \<times> storage_reply" where
  "storage_put_block ft rl b db = storage_serve ft rl (Storage_Put (cb_hash b) (cb_ser b)) db"

definition storage_get_block ::
  "features \<Rightarrow> 'd rocks_lib \<Rightarrow> 'k crypto_lib \<Rightarrow> 'd \<Rightarrow> bytes \<Rightarrow> (io_error + cached_block) result" where
  "storage_get_block ft rl lib db block_hash =
     (case snd (storage_serve ft rl (Storage_Get block_hash) db) of
        Get_Reply r \<Rightarrow> check_block_ser lib block_hash r
      | Put_Reply _ \<Rightarrow> Inl Unwrap_None)"

section \<open>Reading stored blocks\<close>

text \<open>
  The ancestors of a block through parent hashes, as far as the blocks at hand name them.
\<close>

inductive ancestor :: "cached_block \<Rightarrow> cached_block \<Rightarrow> bool" where
  ancestor_refl: "ancestor b b"
| ancestor_step: "ancestor b c \<Longrightarrow> cb_parent d = cb_hash c \<Longrightarrow> ancestor b d"

inductive_cases ancestor_cases: "ancestor b d"

lemma ancestor_trans: "ancestor b c \<Longrightarrow> ancestor a b \<Longrightarrow> ancestor a c"
  by (induction b c rule: ancestor.induct) (auto intro: ancestor_step)

lemma ancestor_parent: "ancestor c d \<Longrightarrow> cb_parent c = cb_hash b \<Longrightarrow> ancestor b d"
  by (blast intro: ancestor_trans ancestor_step ancestor_refl)

locale block_fetch =
  fixes fetch :: "bytes \<Rightarrow> (io_error + cached_block) result"
  assumes fetch_hash: "fetch h = Inr (Inr b) \<Longrightarrow> cb_hash b = h"
begin

lemma fetch_parent_ancestor:
  "fetch (cb_parent c) = Inr (Inr b) \<Longrightarrow> ancestor c d \<Longrightarrow> ancestor b d"
  using fetch_hash by (blast intro: ancestor_parent dest: sym)

lemma fetch_same: "fetch h = Inr (Inr b) \<Longrightarrow> fetch h' = Inr (Inr b) \<Longrightarrow> h = h'"
  using fetch_hash by blast

end

interpretation sto: block_fetch "storage_get_block ft rl lib db" for ft rl lib db
  by unfold_locales (auto simp: storage_get_block_def dest: check_block_serD)

lemma storage_get_after_put:
  assumes "ft_storage ft"
    and "\<And>k v d d'. db_put_opt rl k v d = (d', True) \<Longrightarrow> db_get rl k d' = Some (Some v)"
    and "storage_put_block ft rl b db = (db', Put_Reply StorageOk)"
    and "hash_proto_block_ser lib (cb_ser b) = Inr (cb_hash b)"
    and "deserialize_proto_block (pb_decode lib) (cb_ser b) = Inr (Inr (cb_block b))"
  shows "storage_get_block ft rl lib db' (cb_hash b) = Inr (Inr b)"
proof -
  have "db_put_opt rl (cb_hash b) (cb_ser b) db = (db', True)"
    using assms(1,3)
    by (auto simp: storage_put_block_def rocks_put_block_def split: prod.split_asm if_split_asm)
  then have "db_get rl (cb_hash b) db' = Some (Some (cb_ser b))" by (rule assms(2))
  with assms(4,5) show ?thesis
    by (simp add: storage_get_block_def rocks_get_block_def check_block_ser_def)
qed

section \<open>Properties\<close>

text \<open>
  C35: A stored block is read back unchanged. If the engine reports the write as done, then
  reading under the block's hash gives the block itself: same contents, bytes and hash. The
  engine is assumed to return what was last written under a key; the block is one whose hash
  and contents belong to its bytes, as \<open>PrepareBlock\<close> and \<open>VerifyBlockSer\<close> produce them.
\<close>

theorem stored_block_roundtrip:
  assumes "ft_storage ft"
    and "\<And>k v d d'. db_put_opt rl k v d = (d', True) \<Longrightarrow> db_get rl k d' = Some (Some v)"
    and "verify_block_ser lib ft cc ks m ser = Inr (Inr b)"
    and "storage_put_block ft rl b db = (db', Put_Reply StorageOk)"
  shows "storage_get_block ft rl lib db' (cb_hash b) = Inr (Inr b)"
  using verify_block_serD(1,2,3) [OF assms(3)]
  by (intro storage_get_after_put [OF assms(1,2,4)]) simp_all

definition demo_rocks :: "(bytes \<rightharpoonup> bytes) rocks_lib" where
  "demo_rocks = \<lparr>db_put_opt = (\<lambda>k v d. (d(k \<mapsto> v), True)), db_get = (\<lambda>k d. Some (d k))\<rparr>"

theorem stored_block_roundtrip_witness:
  "\<exists>b. verify_block_ser (demo_lib (demo_block 2 2 [demo_qc])) pirateship demo_cc demo_ks 1 demo_ser = Inr (Inr b)
     \<and> storage_get_block pirateship demo_rocks (demo_lib (demo_block 2 2 [demo_qc]))
         [cb_hash b \<mapsto> cb_ser b] (cb_hash b) = Inr (Inr b)"
proof -
  obtain b where b: "verify_block_ser (demo_lib (demo_block 2 2 [demo_qc])) pirateship demo_cc demo_ks 1
      demo_ser = Inr (Inr b)"
    using demo_verifies by blast
  have "storage_get_block pirateship demo_rocks (demo_lib (demo_block 2 2 [demo_qc]))
         [cb_hash b \<mapsto> cb_ser b] (cb_hash b) = Inr (Inr b)"
    by (rule stored_block_roundtrip [OF _ _ b, where db = Map.empty])
      (auto simp: pirateship_def demo_rocks_def storage_put_block_def rocks_put_block_def)
  with b show ?thesis by blast
qed

end
