(* ===== verification/ClientReply.thy ===== *)
theory ClientReply
  imports Types "HOL-Library.Multiset"
begin

text \<open>
  The client reply handler (\<open>src/consensus/client_reply.rs\<close>): it remembers which client
  waits for which block, and answers when the block is crash committed or when the leader
  loses its view. The commit of a block and the registration of its clients arrive on two
  channels in either order. The lemmas show that the order does not matter and that every
  registered request is answered at most once and never lost.
\<close>

section \<open>Definitions\<close>

datatype reply_processor_command =
    RP_CrashCommit u64 u64 bytes tx_result msg_ack_chan "byz_response list"
  | RP_ByzCommit u64 u64 tx_result msg_ack_chan
  | RP_Unlogged nat msg_ack_chan
  | RP_Probe u64 "msg_ack_chan list"

record client_reply =
  cp_reply_map :: "(bytes \<times> msg_ack_chan list) list"
  cp_byz_reply_map :: "(bytes \<times> (u64 \<times> sender_type) list) list"
  cp_crash_commit_reply_buf :: "(bytes \<times> (u64 \<times> tx_result list)) list"
  cp_byz_commit_reply_buf :: "(bytes \<times> (u64 \<times> byz_response list)) list"
  cp_byz_response_store :: "(sender_type \<times> byz_response list) list"
  cp_reply_processor_queue :: "reply_processor_command list"
  cp_probe_buffer :: "(u64 \<times> msg_ack_chan list) list"
  cp_acked_bci :: u64
  cp_must_cancel :: bool
  cp_out :: "(msg_ack_chan \<times> client_reply_msg) list"

definition client_reply_new :: client_reply where
  "client_reply_new =
     \<lparr>cp_reply_map = [], cp_byz_reply_map = [], cp_crash_commit_reply_buf = [],
      cp_byz_commit_reply_buf = [], cp_byz_response_store = [], cp_reply_processor_queue = [],
      cp_probe_buffer = [], cp_acked_bci = 0, cp_must_cancel = False, cp_out = []\<rparr>"

text \<open>
  The body of a reply processor: the message for a command. \<open>resolve\<close> gives the result that
  arrives on a one-shot channel, \<open>None\<close> if its sender is dropped.
\<close>

definition receipt_reply :: "u64 \<Rightarrow> tx_receipt \<Rightarrow> client_reply_msg" where
  "receipt_reply tag r = \<lparr>rp_reply = Some (Reply_Receipt r), rp_client_tag = tag\<rparr>"

fun process_reply ::
  "(nat \<Rightarrow> tx_result option) \<Rightarrow> reply_processor_command \<Rightarrow> (msg_ack_chan \<times> client_reply_msg) list result" where
  "process_reply resolve (RP_CrashCommit block_n tx_n hsh reply (chan, client_tag, sender) byz_responses) =
     Inr [((chan, client_tag, sender), receipt_reply client_tag
       \<lparr>rc_req_digest = hsh, rc_block_n = block_n, rc_tx_n = tx_n, rc_results = Some reply,
        rc_await_byz_response = True, rc_byz_responses = byz_responses\<rparr>)]"
| "process_reply resolve (RP_ByzCommit _ _ _ _) = Inr []"
| "process_reply resolve (RP_Unlogged res_rx (chan, tag, sender)) =
     bindE (unwrap (resolve res_rx)) (\<lambda>reply.
       Inr [((chan, tag, sender), receipt_reply tag
         \<lparr>rc_req_digest = [], rc_block_n = 0, rc_tx_n = 0, rc_results = Some reply,
          rc_await_byz_response = False, rc_byz_responses = []\<rparr>)])"
| "process_reply resolve (RP_Probe block_n reply_vec) =
     Inr (map (\<lambda>chan. (chan, receipt_reply 0
       \<lparr>rc_req_digest = [], rc_block_n = block_n, rc_tx_n = 0, rc_results = None,
        rc_await_byz_response = False, rc_byz_responses = []\<rparr>)) reply_vec)"

definition get_try_again_message :: "config \<Rightarrow> u64 \<Rightarrow> client_reply_msg" where
  "get_try_again_message cfg client_tag =
     \<lparr>rp_reply = Some (Reply_TryAgain (node_infos cfg)), rp_client_tag = client_tag\<rparr>"

definition try_again :: "config \<Rightarrow> msg_ack_chan list \<Rightarrow> client_reply \<Rightarrow> client_reply" where
  "try_again cfg reply_vec s =
     s\<lparr>cp_out := cp_out s @ map (\<lambda>(chan, tag, sender).
         ((chan, tag, sender), get_try_again_message cfg tag)) reply_vec\<rparr>"

definition cp_enqueue :: "reply_processor_command \<Rightarrow> client_reply \<Rightarrow> client_reply" where
  "cp_enqueue c s = s\<lparr>cp_reply_processor_queue := cp_reply_processor_queue s @ [c]\<rparr>"

definition remove_responses :: "sender_type \<Rightarrow> client_reply \<Rightarrow> client_reply \<times> byz_response list" where
  "remove_responses sender s =
     (s\<lparr>cp_byz_response_store := AList.delete sender (cp_byz_response_store s)\<rparr>,
      case map_of (cp_byz_response_store s) sender of None \<Rightarrow> [] | Some rs \<Rightarrow> rs)"

fun crash_replies ::
  "bytes \<Rightarrow> u64 \<Rightarrow> nat \<Rightarrow> (msg_ack_chan \<times> tx_result) list \<Rightarrow> client_reply \<Rightarrow> client_reply" where
  "crash_replies hash n tx_n [] s = s"
| "crash_replies hash n tx_n (((chan, tag, sender), reply) # rest) s =
     (case remove_responses sender s of
        (s1, byz_responses) \<Rightarrow>
          crash_replies hash n (tx_n + 1) rest
            (cp_enqueue (RP_CrashCommit n tx_n hash reply (chan, tag, sender) byz_responses) s1))"

definition do_crash_commit_reply ::
  "msg_ack_chan list \<Rightarrow> bytes \<Rightarrow> u64 \<Rightarrow> tx_result list \<Rightarrow> client_reply \<Rightarrow> client_reply result" where
  "do_crash_commit_reply reply_sender_vec hash n reply_vec s =
     bindE (assertE Assertion (length reply_sender_vec = length reply_vec)) (\<lambda>_.
       Inr (crash_replies hash n 0 (zip reply_sender_vec reply_vec) s))"

definition maybe_clear_probe_buf :: "client_reply \<Rightarrow> client_reply" where
  "maybe_clear_probe_buf s =
     (let ripe = filter (\<lambda>(block_n, _). block_n \<le> cp_acked_bci s) (cp_probe_buffer s)
      in s\<lparr>cp_probe_buffer := filter (\<lambda>(block_n, _). \<not> block_n \<le> cp_acked_bci s) (cp_probe_buffer s),
           cp_reply_processor_queue := cp_reply_processor_queue s
             @ map (\<lambda>(block_n, reply_vec). RP_Probe block_n reply_vec) ripe\<rparr>)"

definition store_byz_response :: "(u64 \<times> sender_type) \<times> byz_response \<Rightarrow> client_reply \<Rightarrow> client_reply" where
  "store_byz_response p s =
     (case p of
        ((client_tag, sender), reply0) \<Rightarrow>
          (let reply = reply0\<lparr>br_client_tag := client_tag\<rparr>
           in case map_of (cp_byz_response_store s) sender of
                Some rs \<Rightarrow> s\<lparr>cp_byz_response_store := AList.update sender (rs @ [reply]) (cp_byz_response_store s)\<rparr>
              | None \<Rightarrow> s\<lparr>cp_byz_response_store := AList.update sender [reply] (cp_byz_response_store s)\<rparr>))"

definition do_byz_commit_reply ::
  "(u64 \<times> sender_type) list \<Rightarrow> bytes \<Rightarrow> u64 \<Rightarrow> byz_response list \<Rightarrow> client_reply \<Rightarrow> client_reply result" where
  "do_byz_commit_reply reply_sender_vec hash n reply_vec s =
     bindE (assertE Assertion (length reply_sender_vec = length reply_vec)) (\<lambda>_.
       let s1 = foldl (\<lambda>s p. store_byz_response p s) s (zip reply_sender_vec reply_vec);
           s2 = (if n > cp_acked_bci s1 then s1\<lparr>cp_acked_bci := n\<rparr> else s1)
       in Inr (maybe_clear_probe_buf s2))"

definition crash_ack :: "bytes \<times> (u64 \<times> tx_result list) \<Rightarrow> client_reply \<Rightarrow> client_reply result" where
  "crash_ack a s =
     (case a of
        (hash, (n, reply_vec)) \<Rightarrow>
          (case map_of (cp_reply_map s) hash of
             Some reply_sender_vec \<Rightarrow>
               do_crash_commit_reply reply_sender_vec hash n reply_vec
                 (s\<lparr>cp_reply_map := AList.delete hash (cp_reply_map s)\<rparr>)
           | None \<Rightarrow>
               Inr (s\<lparr>cp_crash_commit_reply_buf :=
                 AList.update hash (n, reply_vec) (cp_crash_commit_reply_buf s)\<rparr>)))"

definition byz_ack :: "bytes \<times> (u64 \<times> byz_response list) \<Rightarrow> client_reply \<Rightarrow> client_reply result" where
  "byz_ack a s =
     (case a of
        (hash, (n, reply_vec)) \<Rightarrow>
          (case map_of (cp_byz_reply_map s) hash of
             Some reply_sender_vec \<Rightarrow>
               do_byz_commit_reply reply_sender_vec hash n reply_vec
                 (s\<lparr>cp_byz_reply_map := AList.delete hash (cp_byz_reply_map s)\<rparr>)
           | None \<Rightarrow>
               Inr (s\<lparr>cp_byz_commit_reply_buf :=
                 AList.update hash (n, reply_vec) (cp_byz_commit_reply_buf s)\<rparr>)))"

fun btree_push :: "nat \<Rightarrow> 'v \<Rightarrow> (nat \<times> 'v list) list \<Rightarrow> (nat \<times> 'v list) list" where
  "btree_push k v m =
     (case map_of m k of Some vs \<Rightarrow> btree_insert k (vs @ [v]) m | None \<Rightarrow> btree_insert k [v] m)"

fun handle_reply_command :: "config \<Rightarrow> client_reply_command \<Rightarrow> client_reply \<Rightarrow> client_reply result" where
  "handle_reply_command cfg CancelAllRequests s =
     Inr ((try_again cfg (concat (map snd (cp_reply_map s))) s)\<lparr>cp_reply_map := [], cp_must_cancel := True\<rparr>)"
| "handle_reply_command cfg (CrashCommitAck acks) s = foldE crash_ack acks s"
| "handle_reply_command cfg (ByzCommitAck acks) s = foldE byz_ack acks s"
| "handle_reply_command cfg StopCancelling s = Inr (s\<lparr>cp_must_cancel := False\<rparr>)"
| "handle_reply_command cfg (UnloggedRequestAck res_rx sender) s = Inr (cp_enqueue (RP_Unlogged res_rx sender) s)"
| "handle_reply_command cfg (ProbeRequestAck block_n sender) s =
     Inr (maybe_clear_probe_buf (s\<lparr>cp_probe_buffer := btree_push block_n sender (cp_probe_buffer s)\<rparr>))"

definition maybe_clear_reply_buf :: "bytes \<Rightarrow> client_reply \<Rightarrow> client_reply result" where
  "maybe_clear_reply_buf batch_hash s =
     bindE (case map_of (cp_byz_commit_reply_buf s) batch_hash of
              None \<Rightarrow> Inr s
            | Some (n, reply_vec) \<Rightarrow>
                (let s1 = s\<lparr>cp_byz_commit_reply_buf := AList.delete batch_hash (cp_byz_commit_reply_buf s)\<rparr>
                 in case map_of (cp_byz_reply_map s1) batch_hash of
                      None \<Rightarrow> Inr s1
                    | Some reply_sender_vec \<Rightarrow>
                        do_byz_commit_reply reply_sender_vec batch_hash n reply_vec
                          (s1\<lparr>cp_byz_reply_map := AList.delete batch_hash (cp_byz_reply_map s1)\<rparr>))) (\<lambda>s2.
       case map_of (cp_crash_commit_reply_buf s2) batch_hash of
         None \<Rightarrow> Inr s2
       | Some (n, reply_vec) \<Rightarrow>
           (let s3 = s2\<lparr>cp_crash_commit_reply_buf := AList.delete batch_hash (cp_crash_commit_reply_buf s2)\<rparr>
            in case map_of (cp_reply_map s3) batch_hash of
                 None \<Rightarrow> Inr s3
               | Some reply_sender_vec \<Rightarrow>
                   do_crash_commit_reply reply_sender_vec batch_hash n reply_vec
                     (s3\<lparr>cp_reply_map := AList.delete batch_hash (cp_reply_map s3)\<rparr>)))"

text \<open>A batch with an empty hash was dropped by the sequencer. The hash may fail to arrive.\<close>

definition register_batch ::
  "config \<Rightarrow> bytes option \<Rightarrow> msg_ack_chan list \<Rightarrow> client_reply \<Rightarrow> client_reply result" where
  "register_batch cfg batch_hash_chan reply_vec s =
     bindE (unwrap batch_hash_chan) (\<lambda>batch_hash.
       if batch_hash = [] \<or> cp_must_cancel s then Inr (try_again cfg reply_vec s)
       else maybe_clear_reply_buf batch_hash
              (s\<lparr>cp_byz_reply_map := AList.update batch_hash
                    (map (\<lambda>(_, client_tag, sender). (client_tag, sender)) reply_vec) (cp_byz_reply_map s),
                 cp_reply_map := AList.update batch_hash reply_vec (cp_reply_map s)\<rparr>))"

datatype client_reply_event =
    CP_Batch "(bytes option \<times> msg_ack_chan list) option"
  | CP_Command "client_reply_command option"

fun client_reply_worker :: "config \<Rightarrow> client_reply_event \<Rightarrow> client_reply \<Rightarrow> client_reply result" where
  "client_reply_worker cfg (CP_Batch None) s = Inr s"
| "client_reply_worker cfg (CP_Batch (Some (batch_hash_chan, reply_vec))) s =
     register_batch cfg batch_hash_chan reply_vec s"
| "client_reply_worker cfg (CP_Command None) s = Inr s"
| "client_reply_worker cfg (CP_Command (Some cmd)) s = handle_reply_command cfg cmd s"

definition client_reply_run :: "config \<Rightarrow> client_reply_event list \<Rightarrow> client_reply \<Rightarrow> client_reply result" where
  "client_reply_run cfg evs s = foldE (client_reply_worker cfg) evs s"

section \<open>Requests are answered once and not lost\<close>

fun crash_chans :: "reply_processor_command list \<Rightarrow> msg_ack_chan list" where
  "crash_chans [] = []"
| "crash_chans (RP_CrashCommit _ _ _ _ chan _ # cs) = chan # crash_chans cs"
| "crash_chans (_ # cs) = crash_chans cs"

lemma crash_chans_append: "crash_chans (xs @ ys) = crash_chans xs @ crash_chans ys"
  by (induction xs rule: crash_chans.induct) auto

definition waiting :: "client_reply \<Rightarrow> msg_ack_chan multiset" where
  "waiting s = mset (concat (map snd (cp_reply_map s)))"

definition replied :: "client_reply \<Rightarrow> msg_ack_chan multiset" where
  "replied s = mset (map fst (cp_out s)) + mset (crash_chans (cp_reply_processor_queue s))"

definition books :: "client_reply \<Rightarrow> msg_ack_chan multiset \<Rightarrow> bytes set \<Rightarrow> bool" where
  "books s R H \<longleftrightarrow>
     keys_distinct (cp_reply_map s) \<and> fst ` set (cp_reply_map s) \<subseteq> H \<and> waiting s + replied s = R"

lemma booksI_frame:
  assumes "books s R H" and "cp_reply_map s' = cp_reply_map s" and "cp_out s' = cp_out s"
    and "crash_chans (cp_reply_processor_queue s') = crash_chans (cp_reply_processor_queue s)"
  shows "books s' R H"
  using assms by (simp add: books_def waiting_def replied_def)

lemma books_frame [simp]:
  "books (s\<lparr>cp_acked_bci := n\<rparr>) R H = books s R H"
  "books (s\<lparr>cp_must_cancel := c\<rparr>) R H = books s R H"
  "books (s\<lparr>cp_probe_buffer := pb\<rparr>) R H = books s R H"
  "books (s\<lparr>cp_byz_reply_map := bm\<rparr>) R H = books s R H"
  "books (s\<lparr>cp_crash_commit_reply_buf := cb\<rparr>) R H = books s R H"
  "books (s\<lparr>cp_byz_commit_reply_buf := bb\<rparr>) R H = books s R H"
  by (simp_all add: books_def waiting_def replied_def)

lemma mset_alist_delete:
  assumes "keys_distinct m" and "map_of m k = Some v"
  shows "mset (concat (map snd m)) = mset v + mset (concat (map snd (AList.delete k m)))"
  using assms
proof (induction m)
  case (Cons p m)
  then show ?case
    by (cases p) (auto split: if_split_asm simp flip: dom_map_of_conv_image_fst)
qed simp

lemma crash_replies_frame:
  "cp_reply_map (crash_replies h n i ps s) = cp_reply_map s
   \<and> cp_out (crash_replies h n i ps s) = cp_out s
   \<and> crash_chans (cp_reply_processor_queue (crash_replies h n i ps s))
      = crash_chans (cp_reply_processor_queue s) @ map fst ps"
  by (induction h n i ps s rule: crash_replies.induct)
    (auto simp: remove_responses_def cp_enqueue_def crash_chans_append)

lemma do_crash_commit_reply_books:
  assumes step: "do_crash_commit_reply vec h n rs t = Inr s'" and b: "books s R H"
    and vec: "map_of (cp_reply_map s) h = Some vec"
    and t: "cp_reply_map t = AList.delete h (cp_reply_map s)" "cp_out t = cp_out s"
      "cp_reply_processor_queue t = cp_reply_processor_queue s"
  shows "books s' R H"
proof -
  from step have len: "length vec = length rs" and s': "s' = crash_replies h n 0 (zip vec rs) t"
    by (auto simp: do_crash_commit_reply_def elim!: bindE_InrE)
  note frame = crash_replies_frame [of h n 0 "zip vec rs" t]
  have "waiting s = mset vec + waiting s'"
    using mset_alist_delete [OF _ vec] b frame t by (simp add: waiting_def books_def s')
  moreover have "replied s' = replied s + mset vec"
    using frame len t by (simp add: s' replied_def)
  moreover have "cp_reply_map s' = AList.delete h (cp_reply_map s)" using frame t by (simp add: s')
  moreover have "fst ` set (AList.delete h (cp_reply_map s)) \<subseteq> fst ` set (cp_reply_map s)"
    by (rule dom_delete_subset)
  ultimately show ?thesis using b by (auto simp: books_def)
qed

lemma crash_ack_books: "crash_ack a s = Inr s' \<Longrightarrow> books s R H \<Longrightarrow> books s' R H"
  by (cases a) (auto simp: crash_ack_def split: option.split_asm
      elim: do_crash_commit_reply_books)

lemma crash_chans_probes: "crash_chans (map (\<lambda>(n, v). RP_Probe n v) xs) = []"
  by (induction xs) auto

lemma maybe_clear_probe_buf_books: "books s R H \<Longrightarrow> books (maybe_clear_probe_buf s) R H"
  by (rule booksI_frame) (simp_all add: maybe_clear_probe_buf_def Let_def crash_chans_append crash_chans_probes)

lemma store_byz_frame:
  "cp_reply_map (store_byz_response p s) = cp_reply_map s \<and> cp_out (store_byz_response p s) = cp_out s
   \<and> cp_reply_processor_queue (store_byz_response p s) = cp_reply_processor_queue s"
  by (simp add: store_byz_response_def Let_def split: prod.split option.split)

lemma store_byz_books: "books s R H \<Longrightarrow> books (store_byz_response p s) R H"
  by (rule booksI_frame) (simp_all add: store_byz_frame)

lemma do_byz_commit_reply_books:
  assumes "do_byz_commit_reply vec h n rs s = Inr s'" and "books s R H"
  shows "books s' R H"
proof -
  have "books (foldl (\<lambda>s p. store_byz_response p s) s ps) R H" for ps
    using assms(2)
    by (induction ps arbitrary: s) (simp_all add: store_byz_books)
  with assms(1) show ?thesis
    by (auto simp: do_byz_commit_reply_def Let_def elim!: bindE_InrE
        intro!: maybe_clear_probe_buf_books)
qed

lemma byz_ack_books: "byz_ack a s = Inr s' \<Longrightarrow> books s R H \<Longrightarrow> books s' R H"
  by (cases a) (auto simp: byz_ack_def split: option.split_asm
      elim: do_byz_commit_reply_books)

lemma foldE_books:
  assumes "foldE f as s = Inr s'" and "books s R H"
    and "\<And>a s s'. f a s = Inr s' \<Longrightarrow> books s R H \<Longrightarrow> books s' R H"
  shows "books s' R H"
  using assms(1,2) by (rule foldE_invariant) (rule assms(3))

lemma try_again_replied: "replied (try_again cfg vec s) = replied s + mset vec"
  by (simp add: replied_def try_again_def comp_def case_prod_unfold)

lemma handle_reply_command_books:
  assumes "handle_reply_command cfg cmd s = Inr s'" and "books s R H"
  shows "books s' R H"
proof (cases cmd)
  case CancelAllRequests
  let ?vec = "concat (map snd (cp_reply_map s))"
  have s': "s' = (try_again cfg ?vec s)\<lparr>cp_reply_map := [], cp_must_cancel := True\<rparr>"
    using assms(1) CancelAllRequests by simp
  have "replied s' = replied (try_again cfg ?vec s)" by (simp add: s' replied_def)
  with assms(2) s' show ?thesis
    by (simp add: books_def waiting_def try_again_replied add.commute)
next
  case (CrashCommitAck acks)
  with assms show ?thesis by (auto elim!: foldE_books intro: crash_ack_books)
next
  case (ByzCommitAck acks)
  with assms show ?thesis by (auto elim!: foldE_books intro: byz_ack_books)
next
  case (ProbeRequestAck n c)
  with assms show ?thesis
    by (auto intro!: maybe_clear_probe_buf_books simp del: btree_push.simps)
qed (use assms in \<open>auto elim!: booksI_frame simp: cp_enqueue_def crash_chans_append\<close>)

lemma maybe_clear_reply_buf_books:
  assumes "maybe_clear_reply_buf h s = Inr s'" and "books s R H"
  shows "books s' R H"
proof -
  from assms(1) obtain s2 where
    s2: "(case map_of (cp_byz_commit_reply_buf s) h of
              None \<Rightarrow> Inr s
            | Some (n, reply_vec) \<Rightarrow>
                (let s1 = s\<lparr>cp_byz_commit_reply_buf := AList.delete h (cp_byz_commit_reply_buf s)\<rparr>
                 in case map_of (cp_byz_reply_map s1) h of
                      None \<Rightarrow> Inr s1
                    | Some reply_sender_vec \<Rightarrow>
                        do_byz_commit_reply reply_sender_vec h n reply_vec
                          (s1\<lparr>cp_byz_reply_map := AList.delete h (cp_byz_reply_map s1)\<rparr>))) = Inr s2"
    and s': "(case map_of (cp_crash_commit_reply_buf s2) h of
         None \<Rightarrow> Inr s2
       | Some (n, reply_vec) \<Rightarrow>
           (let s3 = s2\<lparr>cp_crash_commit_reply_buf := AList.delete h (cp_crash_commit_reply_buf s2)\<rparr>
            in case map_of (cp_reply_map s3) h of
                 None \<Rightarrow> Inr s3
               | Some reply_sender_vec \<Rightarrow>
                   do_crash_commit_reply reply_sender_vec h n reply_vec
                     (s3\<lparr>cp_reply_map := AList.delete h (cp_reply_map s3)\<rparr>))) = Inr s'"
    unfolding maybe_clear_reply_buf_def by (rule bindE_InrE)
  have "books s2 R H"
    using s2 assms(2)
    by (auto simp: Let_def split: option.split_asm prod.split_asm elim: do_byz_commit_reply_books)
  then show ?thesis
    using s' by (auto simp: Let_def split: option.split_asm prod.split_asm
        elim!: do_crash_commit_reply_books)
qed

text \<open>What a batch event registers; a dropped batch has the empty hash.\<close>

fun batch_chans :: "client_reply_event \<Rightarrow> msg_ack_chan list" where
  "batch_chans (CP_Batch (Some (_, vec))) = vec"
| "batch_chans _ = []"

fun batch_hash_of :: "client_reply_event \<Rightarrow> bytes list" where
  "batch_hash_of (CP_Batch (Some (Some h, _))) = (if h = [] then [] else [h])"
| "batch_hash_of _ = []"

lemma alist_update_notin: "k \<notin> fst ` set m \<Longrightarrow> AList.update k v m = m @ [(k, v)]"
  by (induction m) auto

lemma client_reply_worker_books:
  assumes step: "client_reply_worker cfg ev s = Inr s'" and b: "books s R H"
    and fresh: "set (batch_hash_of ev) \<inter> H = {}"
  shows "books s' (R + mset (batch_chans ev)) (H \<union> set (batch_hash_of ev))"
proof -
  have mono: "books s R (H \<union> X)" if "books s R H" for s R X using that by (auto simp: books_def)
  consider (batch) h vec where "ev = CP_Batch (Some (Some h, vec))"
    | (cmd) cmd where "ev = CP_Command (Some cmd)" | (none) "s' = s" "batch_chans ev = []" "batch_hash_of ev = []"
    using step
    by (cases "(cfg, ev, s)" rule: client_reply_worker.cases)
      (auto simp: register_batch_def unwrap_Inr_conv elim!: bindE_InrE)
  then show ?thesis
  proof cases
    case batch
    show ?thesis
    proof (cases "h = [] \<or> cp_must_cancel s")
      case True
      with step batch have s': "s' = try_again cfg vec s" by (auto simp: register_batch_def)
      have "waiting s' = waiting s" "cp_reply_map s' = cp_reply_map s"
        by (simp_all add: s' waiting_def try_again_def)
      with b batch show ?thesis
        by (auto simp: books_def s' try_again_replied add.assoc)
    next
      case False
      let ?s = "s\<lparr>cp_byz_reply_map := AList.update h
                    (map (\<lambda>(_, client_tag, sender). (client_tag, sender)) vec) (cp_byz_reply_map s),
                 cp_reply_map := AList.update h vec (cp_reply_map s)\<rparr>"
      have new: "AList.update h vec (cp_reply_map s) = cp_reply_map s @ [(h, vec)]"
        using b fresh batch False by (intro alist_update_notin) (auto simp: books_def)
      have "books ?s (R + mset vec) (H \<union> {h})"
        using b fresh batch False
        by (auto simp: books_def waiting_def replied_def new ac_simps)
      moreover have "maybe_clear_reply_buf h ?s = Inr s'"
        using step batch False by (simp add: register_batch_def)
      ultimately show ?thesis using batch False by (auto intro: maybe_clear_reply_buf_books)
    qed
  next
    case cmd
    with step b show ?thesis by (auto intro: handle_reply_command_books)
  qed (use b in simp)
qed

lemma client_reply_run_books:
  assumes "client_reply_run cfg evs client_reply_new = Inr s"
    and "distinct (concat (map batch_hash_of evs))"
  shows "books s (mset (concat (map batch_chans evs))) (set (concat (map batch_hash_of evs)))"
  using assms
proof (induction evs arbitrary: s rule: rev_induct)
  case Nil
  then show ?case
    by (auto simp: client_reply_run_def books_def client_reply_new_def waiting_def replied_def)
next
  case (snoc ev evs)
  from snoc.prems(1) obtain s1 where s1: "client_reply_run cfg evs client_reply_new = Inr s1"
    "client_reply_worker cfg ev s1 = Inr s"
    by (auto simp: client_reply_run_def foldE_snoc elim!: bindE_InrE)
  have "distinct (concat (map batch_hash_of evs))"
    and fresh: "set (batch_hash_of ev) \<inter> set (concat (map batch_hash_of evs)) = {}"
    using snoc.prems(2) by auto
  from client_reply_worker_books [OF s1(2) snoc.IH [OF s1(1) this(1)] fresh] show ?case
    by simp
qed

section \<open>Properties\<close>

text \<open>
  C17: no request is lost and none is answered twice. Take any run of the handler in which no
  two batches have the same hash: batches, crash and byzantine commits, cancellations, probes
  and unlogged requests in any order. The multiset of all registered client requests is
  exactly the requests still waiting plus those that got an answer, a receipt or a request to
  try again.
\<close>
theorem replies_conserved:
  assumes "client_reply_run cfg evs client_reply_new = Inr s"
    and "distinct (concat (map batch_hash_of evs))"
  shows "mset (concat (map batch_chans evs)) = waiting s + replied s"
  using client_reply_run_books [OF assms] by (simp add: books_def)

definition demo_chans :: "msg_ack_chan list" where
  "demo_chans = [(0, 7, Auth ''client1'' 0), (1, 9, Auth ''client2'' 0)]"

definition reply_cfg :: config where
  "reply_cfg = \<lparr>net_name = ''node1'', node_infos = ''infos'',
     consensus = \<lparr>node_list = [''node1''], learner_list = [], max_backlog_batch_size = 2,
       batch_max_delay_ms = 5, signature_max_delay_blocks = 10, liveness_u = 0,
       commit_index_gap_soft = 500, commit_index_gap_hard = 1000\<rparr>,
     simulate_byzantine_behavior = False, byzantine_start_block = 0\<rparr>"

definition demo_result :: tx_result where
  "demo_result = \<lparr>tr_result = []\<rparr>"

definition demo_reply_events :: "client_reply_event list" where
  "demo_reply_events =
     [CP_Command (Some (CrashCommitAck [([1], (5, [demo_result, demo_result]))])),
      CP_Batch (Some (Some [1], demo_chans)), CP_Batch (Some (Some [2], demo_chans)),
      CP_Command (Some CancelAllRequests)]"

lemmas demo_reply_defs = client_reply_run_def client_reply_new_def demo_reply_events_def crash_ack_def
  register_batch_def maybe_clear_reply_buf_def do_crash_commit_reply_def demo_chans_def Let_def
  remove_responses_def cp_enqueue_def try_again_def

theorem replies_conserved_witness:
  "\<exists>s. client_reply_run reply_cfg demo_reply_events client_reply_new = Inr s
     \<and> mset (concat (map batch_chans demo_reply_events)) = waiting s + replied s
     \<and> waiting s = {#}"
proof -
  obtain s where s: "client_reply_run reply_cfg demo_reply_events client_reply_new = Inr s" "cp_reply_map s = []"
    by (simp add: demo_reply_defs)
  have "distinct (concat (map batch_hash_of demo_reply_events))" by (simp add: demo_reply_events_def)
  from replies_conserved [OF s(1) this] s show ?thesis by (auto simp: waiting_def)
qed

text \<open>
  Registration and commit commute. The commit of a block may reach the handler before the
  clients of the block are registered. Either way the handler ends in the same state: the
  clients get their receipts and nothing is left behind.
\<close>
theorem commit_before_registration:
  assumes "\<not> cp_must_cancel s" and "h \<noteq> []" and "length vec = length rs"
    and "h \<notin> fst ` set (cp_reply_map s)" and "h \<notin> fst ` set (cp_byz_commit_reply_buf s)"
    and "h \<notin> fst ` set (cp_crash_commit_reply_buf s)"
  shows "\<exists>s'. client_reply_run cfg [CP_Batch (Some (Some h, vec)),
            CP_Command (Some (CrashCommitAck [(h, (n, rs))]))] s = Inr s'
      \<and> client_reply_run cfg [CP_Command (Some (CrashCommitAck [(h, (n, rs))])),
            CP_Batch (Some (Some h, vec))] s = Inr s'
      \<and> crash_chans (cp_reply_processor_queue s') = crash_chans (cp_reply_processor_queue s) @ vec"
proof -
  have none: "map_of (cp_reply_map s) h = None" "map_of (cp_byz_commit_reply_buf s) h = None"
    "map_of (cp_crash_commit_reply_buf s) h = None"
    using assms(4-6) by (simp_all add: map_of_eq_None_iff)
  have del: "AList.delete h (AList.update h v m) = m" if "h \<notin> fst ` set m" for v m
    using that by (simp add: delete_update_same)
  let ?t = "s\<lparr>cp_byz_reply_map := AList.update h
      (map (\<lambda>(_, client_tag, sender). (client_tag, sender)) vec) (cp_byz_reply_map s)\<rparr>"
  let ?s' = "crash_replies h n 0 (zip vec rs) ?t"
  have "crash_chans (cp_reply_processor_queue ?s') = crash_chans (cp_reply_processor_queue s) @ vec"
    using crash_replies_frame [of h n 0 "zip vec rs" ?t] assms(3) by simp
  moreover have "client_reply_run cfg [CP_Batch (Some (Some h, vec)),
      CP_Command (Some (CrashCommitAck [(h, (n, rs))]))] s = Inr ?s'"
    using assms(1-3) none del [OF assms(4)]
    by (simp add: client_reply_run_def register_batch_def maybe_clear_reply_buf_def crash_ack_def
        do_crash_commit_reply_def Let_def)
  moreover have "client_reply_run cfg [CP_Command (Some (CrashCommitAck [(h, (n, rs))])),
      CP_Batch (Some (Some h, vec))] s = Inr ?s'"
    using assms(1-3) none del [OF assms(4)] del [OF assms(6)]
    by (simp add: client_reply_run_def register_batch_def maybe_clear_reply_buf_def crash_ack_def
        do_crash_commit_reply_def Let_def)
  ultimately show ?thesis by blast
qed

theorem commit_before_registration_witness:
  "\<exists>s'. client_reply_run reply_cfg [CP_Batch (Some (Some [1], demo_chans)),
            CP_Command (Some (CrashCommitAck [([1], (5, [demo_result, demo_result]))]))] client_reply_new = Inr s'
      \<and> client_reply_run reply_cfg [CP_Command (Some (CrashCommitAck [([1], (5, [demo_result, demo_result]))])),
            CP_Batch (Some (Some [1], demo_chans))] client_reply_new = Inr s'
      \<and> crash_chans (cp_reply_processor_queue s')
         = crash_chans (cp_reply_processor_queue client_reply_new) @ demo_chans"
  by (rule commit_before_registration) (simp_all add: client_reply_new_def demo_chans_def)

end
