(* ===== verification/TwoPC.thy ===== *)
theory TwoPC
  imports Storage ClientReply
begin

text \<open>
  The two-phase commit of the feature \<open>extra_2pc\<close> (\<open>src/consensus/extra_2pc.rs\<close>): before a
  node votes it stores its metadata on a majority. Phase 1 asks the other nodes to store a
  value, phase 2 asks them to confirm what they stored; either phase is repeated until enough
  nodes answer. A broadcast is a function \<open>net\<close> from the request and the state of the other
  nodes to their new state and the answers in their order of arrival. The lemmas put the
  handler of the other nodes in its place.
\<close>

section \<open>Definitions\<close>

subsection \<open>Strings and raw storage access\<close>

definition utf8_cont :: "nat \<Rightarrow> bool" where
  "utf8_cont b \<longleftrightarrow> 128 \<le> b \<and> b < 192"

fun utf8_valid :: "nat list \<Rightarrow> bool" where
  "utf8_valid [] \<longleftrightarrow> True"
| "utf8_valid (a # bs) \<longleftrightarrow>
     (if a < 128 then utf8_valid bs
      else case bs of
             [] \<Rightarrow> False
           | b # cs \<Rightarrow>
               if 194 \<le> a \<and> a < 224 then utf8_cont b \<and> utf8_valid cs
               else case cs of
                      [] \<Rightarrow> False
                    | c # ds \<Rightarrow>
                        if 224 \<le> a \<and> a < 240 then
                          utf8_cont b \<and> (a = 224 \<longrightarrow> 160 \<le> b) \<and> (a = 237 \<longrightarrow> b < 160) \<and> utf8_cont c \<and> utf8_valid ds
                        else case ds of
                               [] \<Rightarrow> False
                             | d # es \<Rightarrow>
                                 240 \<le> a \<and> a < 245 \<and> utf8_cont b \<and> (a = 240 \<longrightarrow> 144 \<le> b) \<and> (a = 244 \<longrightarrow> b < 144)
                                 \<and> utf8_cont c \<and> utf8_cont d \<and> utf8_valid es)"

definition from_utf8 :: "bytes \<Rightarrow> string option" where
  "from_utf8 bs = (if utf8_valid (map unat bs) then Some (map (char_of \<circ> unat) bs) else None)"

definition put_raw :: "features \<Rightarrow> 'd rocks_lib \<Rightarrow> string \<Rightarrow> bytes \<Rightarrow> 'd \<Rightarrow> 'd \<times> storage_reply" where
  "put_raw ft rl key val db = storage_serve ft rl (Storage_Put (as_bytes key) val) db"

definition get_raw :: "features \<Rightarrow> 'd rocks_lib \<Rightarrow> string \<Rightarrow> 'd \<Rightarrow> io_error + bytes" where
  "get_raw ft rl key db =
     (case snd (storage_serve ft rl (Storage_Get (as_bytes key)) db) of
        Get_Reply r \<Rightarrow> r | Put_Reply _ \<Rightarrow> Inl Engine_Error)"

subsection \<open>The node that is asked\<close>

definition phase_result :: "bool \<Rightarrow> tx_result" where
  "phase_result ok = \<lparr>tr_result = [\<lparr>or_success = ok, or_values = []\<rparr>]\<rparr>"

text \<open>
  The handler looks at whether the acknowledgement of a write arrives, not at the result in it:
  a failed write is answered like a successful one.
\<close>

definition handle_phase_message ::
  "features \<Rightarrow> 'd rocks_lib \<Rightarrow> transaction \<Rightarrow> 'd \<Rightarrow> 'd \<times> tx_result" where
  "handle_phase_message ft rl tx db =
     (if \<not> is_2pc tx then (db, phase_result False)
      else case on_receive tx of
             None \<Rightarrow> (db, phase_result False)
           | Some ph \<Rightarrow>
               (case ops ph of
                  [] \<Rightarrow> (db, phase_result False)
                | op # _ \<Rightarrow>
                    (case operands op of
                       opnd0 # opnd1 # _ \<Rightarrow>
                         (case from_utf8 opnd0 of
                            None \<Rightarrow> (db, phase_result False)
                          | Some key \<Rightarrow>
                              (case op_type_from_i32 (op_type op) of
                                 Some WRITE \<Rightarrow> (fst (put_raw ft rl key opnd1 db), phase_result True)
                               | Some CUSTOM \<Rightarrow>
                                   (case get_raw ft rl key db of
                                      Inl _ \<Rightarrow> (db, phase_result False)
                                    | Inr stored_val \<Rightarrow> (db, phase_result (stored_val = opnd1)))
                               | _ \<Rightarrow> (db, phase_result False)))
                     | _ \<Rightarrow> (db, phase_result False))))"

subsection \<open>The node that asks\<close>

record two_pc =
  tp_local_index_counter :: "(string \<times> u64) list"
  tp_client_tag_counter :: u64
  tp_out :: "engraft_action list"

definition two_pc_new :: two_pc where
  "two_pc_new = \<lparr>tp_local_index_counter = [], tp_client_tag_counter = 0, tp_out = []\<rparr>"

definition phase_tx :: "string \<Rightarrow> bytes \<Rightarrow> tx_op_type \<Rightarrow> transaction" where
  "phase_tx key value op =
     \<lparr>on_receive = Some \<lparr>ops = [\<lparr>op_type = op_type_number op,
        operands = [as_bytes key, value, replicate 1024 0]\<rparr>]\<rparr>,
      on_crash_commit = None, on_byzantine_commit = None, is_reconfiguration = False, is_2pc = True\<rparr>"

text \<open>Whether an answer is a success; \<open>None\<close> is a message that cannot be decoded.\<close>

definition success_ack :: "u64 \<Rightarrow> client_reply_msg option \<Rightarrow> bool" where
  "success_ack tag msg =
     (case msg of
        None \<Rightarrow> False
      | Some payload \<Rightarrow>
          if rp_client_tag payload \<noteq> tag then False
          else case rp_reply payload of
                 Some (Reply_Receipt receipt) \<Rightarrow>
                   (case rc_results receipt of
                      None \<Rightarrow> False
                    | Some results \<Rightarrow>
                        (case tr_result results of [] \<Rightarrow> False | result # _ \<Rightarrow> or_success result))
               | _ \<Rightarrow> False)"

type_synonym 'w net = "client_request \<Rightarrow> 'w \<Rightarrow> 'w \<times> client_reply_msg option list"

text \<open>
  \<open>broadcast_and_await_quorum_reply\<close>: the first \<open>quorum\<close> answers; the channel for them is
  created with the quorum as its capacity, and a capacity of 0 panics. The call returns when
  every node has answered or its connection has failed; the model starts at this moment.
\<close>

definition broadcast_and_await_quorum_reply ::
  "string list \<Rightarrow> nat \<Rightarrow> client_reply_msg option list \<Rightarrow> client_reply_msg option list result" where
  "broadcast_and_await_quorum_reply send_list quorum answers =
     (if \<not> quorum \<le> length send_list then Inl Assertion
      else if quorum = 0 then Inl Explicit_Panic
      else Inr (take quorum answers))"

definition generic_phase ::
  "config \<Rightarrow> string \<Rightarrow> bytes \<Rightarrow> tx_op_type \<Rightarrow> 'w net \<Rightarrow> two_pc \<Rightarrow> 'w \<Rightarrow> (two_pc \<times> 'w \<times> bool) result" where
  "generic_phase cfg key value op net s w =
     (let my_name = net_name cfg;
          tag = tp_client_tag_counter s + 1;
          request = \<lparr>cr_tx = Some (phase_tx key value op), cr_origin = my_name, cr_sig = [0],
                     cr_client_tag = tag\<rparr>;
          send_list = filter (\<lambda>n. n \<noteq> my_name) (node_list (consensus cfg));
          n = length (node_list (consensus cfg));
          majority = n div 2 + 1;
          (w', answers) = net request w
      in bindE (broadcast_and_await_quorum_reply send_list (majority - 1) answers) (\<lambda>res.
           let success_acks = length (filter (success_ack tag) res) + 1
           in Inr (s\<lparr>tp_client_tag_counter := tag\<rparr>, w', success_acks \<ge> majority)))"

text \<open>
  \<open>while !phase {}\<close>: one broadcast after the other; \<open>None\<close> when the given broadcasts are used up
  and the loop still waits.
\<close>

fun retry_phase ::
  "config \<Rightarrow> string \<Rightarrow> bytes \<Rightarrow> tx_op_type \<Rightarrow> 'w net list \<Rightarrow> two_pc \<Rightarrow> 'w
     \<Rightarrow> (two_pc \<times> 'w \<times> 'w net list) option result" where
  "retry_phase cfg key value op [] s w = Inr None"
| "retry_phase cfg key value op (net # nets) s w =
     bindE (generic_phase cfg key value op net s w) (\<lambda>(s', w', ok).
       if ok then Inr (Some (s', w', nets)) else retry_phase cfg key value op nets s' w')"

definition final_key_name :: "config \<Rightarrow> two_pc_command \<Rightarrow> string" where
  "final_key_name cfg cmd = net_name cfg @ '':'' @ tp_key cmd"

definition next_index :: "two_pc_command \<Rightarrow> two_pc \<Rightarrow> u64" where
  "next_index cmd s =
     (case map_of (tp_local_index_counter s) (tp_key cmd) of None \<Rightarrow> 0 | Some i \<Rightarrow> i) + 1"

definition stored_value :: "two_pc_command \<Rightarrow> two_pc \<Rightarrow> bytes" where
  "stored_value cmd s = to_be 8 (next_index cmd s) @ tp_value cmd"

definition tp_handle_command ::
  "features \<Rightarrow> config \<Rightarrow> 'd rocks_lib \<Rightarrow> two_pc_command \<Rightarrow> 'w net list \<Rightarrow> two_pc \<Rightarrow> 'd \<Rightarrow> 'w
     \<Rightarrow> (two_pc \<times> 'd \<times> 'w \<times> 'w net list) option result" where
  "tp_handle_command ft cfg rl cmd nets s db w =
     (let key = final_key_name cfg cmd;
          val = stored_value cmd s;
          s1 = s\<lparr>tp_local_index_counter := AList.update (tp_key cmd) (next_index cmd s) (tp_local_index_counter s)\<rparr>;
          (db', _) = put_raw ft rl key val db
      in bindE (retry_phase cfg key val WRITE nets s1 w) (\<lambda>r1.
         case r1 of
           None \<Rightarrow> Inr None
         | Some (s2, w2, nets2) \<Rightarrow>
             bindE (retry_phase cfg key val CUSTOM nets2 s2 w2) (\<lambda>r2.
             case r2 of
               None \<Rightarrow> Inr None
             | Some (s3, w3, nets3) \<Rightarrow>
                 Inr (Some (s3\<lparr>tp_out := tp_out s3 @ [tp_action cmd]\<rparr>, db', w3, nets3)))))"

section \<open>The other nodes\<close>

text \<open>
  A round of answers: another node handles the request and answers through its reply handler, or
  some other message arrives, for example a late answer to an earlier request.
\<close>

datatype answer = Answers string | Other "client_reply_msg option"

definition phase_reply :: "u64 \<Rightarrow> tx_result \<Rightarrow> client_reply_msg" where
  "phase_reply tag res = receipt_reply tag
     \<lparr>rc_req_digest = [], rc_block_n = 0, rc_tx_n = 0, rc_results = Some res,
      rc_await_byz_response = False, rc_byz_responses = []\<rparr>"

lemma phase_reply_is_unlogged_reply:
  "process_reply (\<lambda>_. Some res) (RP_Unlogged rx (chan, tag, sender)) = Inr [((chan, tag, sender), phase_reply tag res)]"
  by (simp add: phase_reply_def)

fun answer_round :: "features \<Rightarrow> 'd rocks_lib \<Rightarrow> answer list \<Rightarrow> (string \<Rightarrow> 'd) net" where
  "answer_round ft rl [] req dbs = (dbs, [])"
| "answer_round ft rl (Answers x # ans) req dbs =
     (case cr_tx req of
        None \<Rightarrow> answer_round ft rl ans req dbs
      | Some tx \<Rightarrow>
          (let (db', res) = handle_phase_message ft rl tx (dbs x);
               (dbs', replies) = answer_round ft rl ans req (dbs(x := db'))
           in (dbs', Some (phase_reply (cr_client_tag req) res) # replies)))"
| "answer_round ft rl (Other m # ans) req dbs = (let (dbs', replies) = answer_round ft rl ans req dbs in (dbs', m # replies))"

fun answerers :: "answer list \<Rightarrow> string list" where
  "answerers [] = []"
| "answerers (Answers x # ans) = x # answerers ans"
| "answerers (Other _ # ans) = answerers ans"

text \<open>Nodes answer a request at most once; other messages carry an older tag, if they can be read.\<close>

definition round_ok :: "config \<Rightarrow> u64 \<Rightarrow> answer list \<Rightarrow> bool" where
  "round_ok cfg tag ans \<longleftrightarrow> distinct (answerers ans) \<and> set (answerers ans) \<subseteq> set (node_list (consensus cfg)) - {net_name cfg}
     \<and> (\<forall>m. Other (Some m) \<in> set ans \<longrightarrow> rp_client_tag m \<le> tag)"

section \<open>Phases\<close>

lemma from_utf8_as_bytes: "utf8_valid (map of_char s) \<Longrightarrow> from_utf8 (as_bytes s) = Some s"
proof -
  have u: "unat (of_char c :: u8) = of_char c" for c by (simp add: of_char_def unat_of_nat)
  assume "utf8_valid (map of_char s)"
  then show ?thesis by (simp add: from_utf8_def as_bytes_def comp_def u)
qed

lemma phase_message_cases:
  "handle_phase_message ft rl (phase_tx key val op) db =
     (case from_utf8 (as_bytes key) of
        None \<Rightarrow> (db, phase_result False)
      | Some k \<Rightarrow> (case op of
          WRITE \<Rightarrow> (fst (put_raw ft rl k val db), phase_result True)
        | CUSTOM \<Rightarrow> (case get_raw ft rl k db of
            Inl _ \<Rightarrow> (db, phase_result False) | Inr v \<Rightarrow> (db, phase_result (v = val)))
        | _ \<Rightarrow> (db, phase_result False)))"
  by (cases "from_utf8 (as_bytes key)") (simp_all add: handle_phase_message_def phase_tx_def op_type_roundtrip)

lemma from_utf8_as_bytesD: "from_utf8 (as_bytes s) = Some k \<Longrightarrow> k = s"
proof -
  have u: "unat (of_char c :: u8) = of_char c" for c by (simp add: of_char_def unat_of_nat)
  show "from_utf8 (as_bytes s) = Some k \<Longrightarrow> k = s"
    by (simp add: from_utf8_def as_bytes_def comp_def u split: if_split_asm)
qed

lemma success_ack_phase_reply: "success_ack tag (Some (phase_reply t (phase_result ok))) \<longleftrightarrow> t = tag \<and> ok"
  by (simp add: success_ack_def phase_reply_def receipt_reply_def phase_result_def)

definition confirms :: "features \<Rightarrow> 'd rocks_lib \<Rightarrow> string \<Rightarrow> bytes \<Rightarrow> 'd \<Rightarrow> bool" where
  "confirms ft rl key val db \<longleftrightarrow> get_raw ft rl key db = Inr val"

abbreviation phase_request :: "config \<Rightarrow> string \<Rightarrow> bytes \<Rightarrow> tx_op_type \<Rightarrow> u64 \<Rightarrow> client_request" where
  "phase_request cfg key val op tag \<equiv>
     \<lparr>cr_tx = Some (phase_tx key val op), cr_origin = net_name cfg, cr_sig = [0], cr_client_tag = tag\<rparr>"

text \<open>Phase 2 reads only, and a success means that the node has the value.\<close>

lemma confirm_message:
  "fst (handle_phase_message ft rl (phase_tx key val CUSTOM) db) = db"
  "\<exists>ok. snd (handle_phase_message ft rl (phase_tx key val CUSTOM) db) = phase_result ok
     \<and> (ok \<longrightarrow> confirms ft rl key val db)"
  by (auto simp: phase_message_cases confirms_def dest: from_utf8_as_bytesD split: option.split sum.split)

lemma confirm_round:
  assumes "answer_round ft rl ans (phase_request cfg key val CUSTOM tag) dbs = (dbs', replies)"
    and "\<forall>m. Other (Some m) \<in> set ans \<longrightarrow> rp_client_tag m \<noteq> tag"
  shows "dbs' = dbs \<and> (\<exists>Q. set Q \<subseteq> set (answerers ans) \<and> (distinct (answerers ans) \<longrightarrow> distinct Q)
    \<and> length Q = length (filter (success_ack tag) (take k replies)) \<and> (\<forall>x \<in> set Q. confirms ft rl key val (dbs x)))"
  using assms
proof (induction ans arbitrary: dbs dbs' replies k)
  case (Cons a ans)
  show ?case
  proof (cases a)
    case (Answers x)
    obtain ok where m: "handle_phase_message ft rl (phase_tx key val CUSTOM) (dbs x) = (dbs x, phase_result ok)"
      "ok \<longrightarrow> confirms ft rl key val (dbs x)"
      using confirm_message [of ft rl key val "dbs x"] by (metis prod.collapse)
    obtain rs where rs: "answer_round ft rl ans (phase_request cfg key val CUSTOM tag) dbs = (dbs', rs)"
      "replies = Some (phase_reply tag (phase_result ok)) # rs"
      using Cons.prems(1) m(1) by (auto simp: Answers fun_upd_idem split: prod.split_asm)
    obtain Q where Q: "dbs' = dbs" "set Q \<subseteq> set (answerers ans)" "distinct (answerers ans) \<longrightarrow> distinct Q"
      "length Q = length (filter (success_ack tag) (take (k - 1) rs))" "\<forall>x \<in> set Q. confirms ft rl key val (dbs x)"
      using Cons.IH [OF rs(1), of "k - 1"] Cons.prems(2) by auto
    let ?Q = "if ok \<and> 0 < k then x # Q else if 0 < k then Q else []"
    have "length ?Q = length (filter (success_ack tag) (take k replies))"
      using Q(4) by (cases k) (simp_all add: rs(2) success_ack_phase_reply)
    moreover have "set ?Q \<subseteq> set (answerers (a # ans))" "distinct (answerers (a # ans)) \<longrightarrow> distinct ?Q"
      "\<forall>x \<in> set ?Q. confirms ft rl key val (dbs x)"
      using Q(2,3,5) m(2) by (auto simp: Answers)
    ultimately show ?thesis using Q(1) by blast
  next
    case (Other m)
    obtain rs where rs: "answer_round ft rl ans (phase_request cfg key val CUSTOM tag) dbs = (dbs', rs)" "replies = m # rs"
      using Cons.prems(1) by (auto simp: Other split: prod.split_asm)
    have "\<not> success_ack tag m" using Cons.prems(2) by (auto simp: Other success_ack_def split: option.split)
    then have "length (filter (success_ack tag) (take k replies)) = length (filter (success_ack tag) (take (k - 1) rs))"
      by (cases k) (simp_all add: rs(2))
    with Cons.IH [OF rs(1), of "k - 1"] Cons.prems(2) show ?thesis by (auto simp: Other)
  qed
qed simp

lemma round_ok_mono: "round_ok cfg tag r \<Longrightarrow> tag \<le> tag' \<Longrightarrow> round_ok cfg tag' r"
  unfolding round_ok_def using le_trans by blast

lemma generic_phaseE:
  assumes "generic_phase cfg key val op net s w = Inr (s', w', ok)"
  obtains answers where "net (phase_request cfg key val op (tp_client_tag_counter s + 1)) w = (w', answers)"
    and "s' = s\<lparr>tp_client_tag_counter := tp_client_tag_counter s + 1\<rparr>"
    and "ok \<longleftrightarrow> length (node_list (consensus cfg)) div 2
      \<le> length (filter (success_ack (tp_client_tag_counter s + 1)) (take (length (node_list (consensus cfg)) div 2) answers))"
  using assms
  by (auto simp: generic_phase_def broadcast_and_await_quorum_reply_def Let_def split: prod.split_asm if_split_asm)

text \<open>A phase counts up the tag and uses up broadcasts, nothing else.\<close>

lemma retry_phase_frame:
  assumes "retry_phase cfg key val op nets s w = Inr (Some (s', w', nets'))"
  shows "\<exists>i. s' = s\<lparr>tp_client_tag_counter := tp_client_tag_counter s + i\<rparr> \<and> nets' = drop i nets"
  using assms
proof (induction nets arbitrary: s w)
  case (Cons net nets)
  then obtain s1 w1 ok where g: "generic_phase cfg key val op net s w = Inr (s1, w1, ok)"
    and r: "(if ok then Inr (Some (s1, w1, nets)) else retry_phase cfg key val op nets s1 w1) = Inr (Some (s', w', nets'))"
    by (auto elim!: bindE_InrE)
  have s1: "s1 = s\<lparr>tp_client_tag_counter := tp_client_tag_counter s + 1\<rparr>" by (rule generic_phaseE [OF g])
  show ?case
  proof (cases ok)
    case True
    with r s1 show ?thesis by (intro exI [of _ 1]) simp
  next
    case False
    with r Cons.IH [of s1 w1] obtain i where "s' = s1\<lparr>tp_client_tag_counter := tp_client_tag_counter s1 + i\<rparr>"
      "nets' = drop i nets" by auto
    with s1 show ?thesis by (intro exI [of _ "Suc i"]) simp
  qed
qed simp

lemma tp_handle_commandE:
  assumes "tp_handle_command ft cfg rl cmd nets s db w = Inr (Some (s', db', w', nets'))"
  obtains s2 w2 nets2 s3 where
    "retry_phase cfg (final_key_name cfg cmd) (stored_value cmd s) WRITE nets
       (s\<lparr>tp_local_index_counter := AList.update (tp_key cmd) (next_index cmd s) (tp_local_index_counter s)\<rparr>) w
     = Inr (Some (s2, w2, nets2))"
    and "retry_phase cfg (final_key_name cfg cmd) (stored_value cmd s) CUSTOM nets2 s2 w2 = Inr (Some (s3, w', nets'))"
    and "s' = s3\<lparr>tp_out := tp_out s3 @ [tp_action cmd]\<rparr>"
proof -
  obtain s2 w2 nets2 where p1: "retry_phase cfg (final_key_name cfg cmd) (stored_value cmd s) WRITE nets
       (s\<lparr>tp_local_index_counter := AList.update (tp_key cmd) (next_index cmd s) (tp_local_index_counter s)\<rparr>) w
     = Inr (Some (s2, w2, nets2))"
    using assms unfolding tp_handle_command_def Let_def case_prod_beta
    by (elim bindE_InrE) (auto split: option.split_asm)
  obtain s3 w3 nets3 where p2: "retry_phase cfg (final_key_name cfg cmd) (stored_value cmd s) CUSTOM nets2 s2 w2
      = Inr (Some (s3, w3, nets3))"
    using assms unfolding tp_handle_command_def Let_def case_prod_beta p1
    by (simp only: bindE.simps option.case fst_conv snd_conv, elim bindE_InrE) (auto split: option.split_asm)
  have "w3 = w'" "nets3 = nets'" "s' = s3\<lparr>tp_out := tp_out s3 @ [tp_action cmd]\<rparr>"
    using assms unfolding tp_handle_command_def Let_def case_prod_beta p1
    by (simp_all only: bindE.simps option.case fst_conv snd_conv p2 sum.inject option.inject prod.inject)
  with p2 show thesis by (intro that [OF p1]) simp_all
qed

lemma confirm_phase:
  assumes "retry_phase cfg key val CUSTOM (map (answer_round ft rl) rounds) s dbs = Inr (Some (s', dbs', nets'))"
    and "\<forall>r \<in> set rounds. round_ok cfg (tp_client_tag_counter s) r"
  shows "\<exists>Q. set Q \<subseteq> set (node_list (consensus cfg)) - {net_name cfg} \<and> distinct Q
    \<and> length (node_list (consensus cfg)) div 2 \<le> length Q \<and> (\<forall>x \<in> set Q. confirms ft rl key val (dbs' x))"
  using assms
proof (induction rounds arbitrary: s dbs)
  case (Cons r rounds)
  let ?tag = "tp_client_tag_counter s + 1"
  obtain s1 dbs1 ok where g: "generic_phase cfg key val CUSTOM (answer_round ft rl r) s dbs = Inr (s1, dbs1, ok)"
    and rest: "(if ok then Inr (Some (s1, dbs1, map (answer_round ft rl) rounds))
      else retry_phase cfg key val CUSTOM (map (answer_round ft rl) rounds) s1 dbs1) = Inr (Some (s', dbs', nets'))"
    using Cons.prems(1) by (auto elim!: bindE_InrE)
  obtain answers where a: "answer_round ft rl r (phase_request cfg key val CUSTOM ?tag) dbs = (dbs1, answers)"
    "s1 = s\<lparr>tp_client_tag_counter := ?tag\<rparr>"
    "ok \<longleftrightarrow> length (node_list (consensus cfg)) div 2
      \<le> length (filter (success_ack ?tag) (take (length (node_list (consensus cfg)) div 2) answers))"
    using g by (rule generic_phaseE)
  have r: "round_ok cfg (tp_client_tag_counter s) r" using Cons.prems(2) by simp
  show ?case
  proof (cases ok)
    case True
    have "\<forall>m. Other (Some m) \<in> set r \<longrightarrow> rp_client_tag m \<noteq> ?tag"
      using r unfolding round_ok_def by (metis Suc_eq_plus1 not_less_eq_eq order_refl)
    from confirm_round [OF a(1) this, of "length (node_list (consensus cfg)) div 2"] obtain Q where
      Q: "set Q \<subseteq> set (answerers r)" "distinct (answerers r) \<longrightarrow> distinct Q" "dbs1 = dbs"
        "length Q = length (filter (success_ack ?tag) (take (length (node_list (consensus cfg)) div 2) answers))"
        "\<forall>x \<in> set Q. confirms ft rl key val (dbs x)"
      by blast
    have "dbs' = dbs1" using rest True by simp
    moreover have "set Q \<subseteq> set (node_list (consensus cfg)) - {net_name cfg}" "distinct Q"
      using Q(1,2) r unfolding round_ok_def by blast+
    ultimately show ?thesis using Q(3-5) True a(3) by (intro exI [of _ Q]) simp
  next
    case False
    have "\<forall>r' \<in> set rounds. round_ok cfg (tp_client_tag_counter s1) r'"
      using Cons.prems(2) a(2) by (auto intro: round_ok_mono)
    with Cons.IH [of s1 dbs1] rest False show ?thesis by simp
  qed
qed simp

section \<open>Completion\<close>

definition writes_ok :: "'d rocks_lib \<Rightarrow> bool" where
  "writes_ok rl \<longleftrightarrow> (\<forall>k v d. \<exists>d'. db_put_opt rl k v d = (d', True) \<and> db_get rl k d' = Some (Some v))"

lemma put_then_confirms:
  assumes "writes_ok rl" and "ft_storage ft"
  shows "confirms ft rl key val (fst (put_raw ft rl key val db))"
proof -
  obtain d' where "db_put_opt rl (as_bytes key) val db = (d', True)" "db_get rl (as_bytes key) d' = Some (Some val)"
    using assms(1) unfolding writes_ok_def by blast
  with assms(2) show ?thesis
    by (simp add: confirms_def put_raw_def get_raw_def rocks_put_block_def rocks_get_block_def)
qed

lemma store_message:
  assumes "utf8_valid (map of_char key)"
  shows "handle_phase_message ft rl (phase_tx key val WRITE) db = (fst (put_raw ft rl key val db), phase_result True)"
  by (simp add: phase_message_cases from_utf8_as_bytes [OF assms])

lemma store_round:
  assumes "answer_round ft rl ans (phase_request cfg key val WRITE tag) dbs = (dbs', replies)"
    and "writes_ok rl" and "ft_storage ft" and "utf8_valid (map of_char key)"
  shows "(\<forall>x. x \<in> set (answerers ans) \<or> confirms ft rl key val (dbs x) \<longrightarrow> confirms ft rl key val (dbs' x))
    \<and> (\<forall>xs ys. ans = map Answers xs @ ys \<longrightarrow> list_all (success_ack tag) (take (length xs) replies) \<and> length xs \<le> length replies)"
  using assms(1)
proof (induction ans arbitrary: dbs dbs' replies)
  case (Cons a ans)
  show ?case
  proof (cases a)
    case (Answers x)
    obtain rs where rs: "answer_round ft rl ans (phase_request cfg key val WRITE tag)
        (dbs(x := fst (put_raw ft rl key val (dbs x)))) = (dbs', rs)"
      "replies = Some (phase_reply tag (phase_result True)) # rs"
      using Cons.prems by (auto simp: Answers store_message [OF assms(4)] split: prod.split_asm)
    note IH = Cons.IH [OF rs(1)]
    have "\<forall>y. y \<in> set (answerers (a # ans)) \<or> confirms ft rl key val (dbs y) \<longrightarrow> confirms ft rl key val (dbs' y)"
      using IH put_then_confirms [OF assms(2,3), of key val "dbs x"] by (auto simp: Answers)
    moreover have "list_all (success_ack tag) (take (length xs) replies) \<and> length xs \<le> length replies"
      if "a # ans = map Answers xs @ ys" for xs ys
      using that IH rs(2) by (cases xs) (auto simp: success_ack_phase_reply)
    ultimately show ?thesis by blast
  next
    case (Other m)
    obtain rs where rs: "answer_round ft rl ans (phase_request cfg key val WRITE tag) dbs = (dbs', rs)" "replies = m # rs"
      using Cons.prems by (auto simp: Other split: prod.split_asm)
    then show ?thesis using Cons.IH [OF rs(1)] by (auto simp: Other Cons_eq_append_conv Cons_eq_map_conv)
  qed
qed simp

lemma confirming_round:
  assumes "answer_round ft rl (map Answers xs @ ys) (phase_request cfg key val CUSTOM tag) dbs = (dbs', replies)"
    and "\<forall>x \<in> set xs. confirms ft rl key val (dbs x)" and "utf8_valid (map of_char key)"
  shows "list_all (success_ack tag) (take (length xs) replies) \<and> length xs \<le> length replies"
  using assms(1,2)
proof (induction xs arbitrary: dbs' replies)
  case (Cons x xs)
  have "handle_phase_message ft rl (phase_tx key val CUSTOM) (dbs x) = (dbs x, phase_result True)"
    using Cons.prems(2) by (simp add: phase_message_cases from_utf8_as_bytes [OF assms(3)] confirms_def)
  with Cons.prems(1) obtain rs where "answer_round ft rl (map Answers xs @ ys) (phase_request cfg key val CUSTOM tag) dbs = (dbs', rs)"
    "replies = Some (phase_reply tag (phase_result True)) # rs"
    by (auto simp: fun_upd_idem split: prod.split_asm)
  with Cons show ?case by (auto simp: success_ack_phase_reply)
qed simp

lemma phase_succeeds:
  assumes "net (phase_request cfg key val op (tp_client_tag_counter s + 1)) w = (w', replies)"
    and "q = length (node_list (consensus cfg)) div 2" and "0 < q"
    and "q \<le> length (filter (\<lambda>n. n \<noteq> net_name cfg) (node_list (consensus cfg)))"
    and "list_all (success_ack (tp_client_tag_counter s + 1)) (take q replies)" and "q \<le> length replies"
  shows "retry_phase cfg key val op (net # nets) s w
    = Inr (Some (s\<lparr>tp_client_tag_counter := tp_client_tag_counter s + 1\<rparr>, w', nets))"
proof -
  have "filter (success_ack (tp_client_tag_counter s + 1)) (take q replies) = take q replies"
    using assms(5) by (simp add: list_all_iff)
  then show ?thesis
    using assms(1-4,6) by (simp add: generic_phase_def broadcast_and_await_quorum_reply_def Let_def)
qed

lemma length_filter_other: "distinct xs \<Longrightarrow> length xs - 1 \<le> length (filter (\<lambda>y. y \<noteq> x) xs)"
proof (induction xs)
  case (Cons a xs)
  show ?case
  proof (cases "a = x")
    case True
    with Cons.prems have "\<forall>y \<in> set xs. y \<noteq> x" by auto
    then have "filter (\<lambda>y. y \<noteq> x) xs = xs" by (rule filter_True)
    with True show ?thesis by simp
  qed (use Cons in simp)
qed simp

lemma two_pc_runs:
  assumes "writes_ok rl" and "ft_storage ft" and "utf8_valid (map of_char (final_key_name cfg cmd))"
    and "distinct (node_list (consensus cfg))" and "2 \<le> length (node_list (consensus cfg))"
    and "length xs = length (node_list (consensus cfg)) div 2" and "length ys = length xs"
    and "set ys \<subseteq> set (answerers (map Answers xs @ zs))"
  shows "\<exists>s' dbs'. tp_handle_command ft cfg rl0 cmd
      (map (answer_round ft rl) ((map Answers xs @ zs) # (map Answers ys @ zs') # rounds)) s db dbs
      = Inr (Some (s', fst (put_raw ft rl0 (final_key_name cfg cmd) (stored_value cmd s) db), dbs', map (answer_round ft rl) rounds))
      \<and> tp_out s' = tp_out s @ [tp_action cmd]"
proof -
  let ?key = "final_key_name cfg cmd" and ?val = "stored_value cmd s" and ?q = "length (node_list (consensus cfg)) div 2"
  let ?s1 = "s\<lparr>tp_local_index_counter := AList.update (tp_key cmd) (next_index cmd s) (tp_local_index_counter s)\<rparr>"
  let ?r1 = "map Answers xs @ zs" and ?r2 = "map Answers ys @ zs'"
  have q: "0 < ?q" "?q \<le> length (filter (\<lambda>n. n \<noteq> net_name cfg) (node_list (consensus cfg)))"
  proof -
    have "length (node_list (consensus cfg)) - 1 \<le> length (filter (\<lambda>n. n \<noteq> net_name cfg) (node_list (consensus cfg)))"
      using assms(4) by (rule length_filter_other)
    with assms(5) show "?q \<le> length (filter (\<lambda>n. n \<noteq> net_name cfg) (node_list (consensus cfg)))" by linarith
  qed (use assms(5) in simp)
  obtain dbs2 rs1 where a1: "answer_round ft rl ?r1 (phase_request cfg ?key ?val WRITE (tp_client_tag_counter ?s1 + 1)) dbs = (dbs2, rs1)"
    by (metis prod.exhaust)
  have r1: "\<forall>x \<in> set (answerers ?r1). confirms ft rl ?key ?val (dbs2 x)"
    "list_all (success_ack (tp_client_tag_counter ?s1 + 1)) (take ?q rs1)" "?q \<le> length rs1"
    using conjunct1 [OF store_round [OF a1 assms(1-3)]]
      conjunct2 [OF store_round [OF a1 assms(1-3)], rule_format, OF refl] assms(6) by simp_all
  define s2 where "s2 = ?s1\<lparr>tp_client_tag_counter := tp_client_tag_counter ?s1 + 1\<rparr>"
  have p1: "retry_phase cfg ?key ?val WRITE (map (answer_round ft rl) (?r1 # ?r2 # rounds)) ?s1 dbs
      = Inr (Some (s2, dbs2, map (answer_round ft rl) (?r2 # rounds)))"
    using phase_succeeds [where net = "answer_round ft rl ?r1" and s = ?s1, OF a1 refl q r1(2,3)] by (simp add: s2_def)
  obtain dbs3 rs2 where a2: "answer_round ft rl ?r2 (phase_request cfg ?key ?val CUSTOM (tp_client_tag_counter s2 + 1)) dbs2 = (dbs3, rs2)"
    by (metis prod.exhaust)
  have "\<forall>x \<in> set ys. confirms ft rl ?key ?val (dbs2 x)" using r1(1) assms(8) by blast
  then have r2: "list_all (success_ack (tp_client_tag_counter s2 + 1)) (take ?q rs2)" "?q \<le> length rs2"
    using confirming_round [OF a2 _ assms(3)] assms(6,7) by simp_all
  have p2: "retry_phase cfg ?key ?val CUSTOM (map (answer_round ft rl) (?r2 # rounds)) s2 dbs2
      = Inr (Some (s2\<lparr>tp_client_tag_counter := tp_client_tag_counter s2 + 1\<rparr>, dbs3, map (answer_round ft rl) rounds))"
    using phase_succeeds [where net = "answer_round ft rl ?r2" and s = s2, OF a2 refl q r2] by simp
  show ?thesis
    unfolding tp_handle_command_def Let_def case_prod_beta p1 bindE.simps option.case prod.case fst_conv snd_conv p2
    by (simp add: s2_def)
qed

section \<open>Properties\<close>

text \<open>
  C12: a completed two-phase commit is on a majority. When the handler hands the postponed
  action back to staging, whatever rounds of answers came before and whatever late answers are
  among them, the nodes that confirmed form a majority together with the node itself, and each
  of them has exactly the value with its fresh index in its storage. Any two such sets of
  nodes have a common member.
\<close>
theorem two_pc_stores_on_majority:
  assumes "tp_handle_command ft cfg rl0 cmd (map (answer_round ft rl) rounds) s db dbs = Inr (Some (s', db', dbs', nets'))"
    and "\<forall>r \<in> set rounds. round_ok cfg (tp_client_tag_counter s) r" and "net_name cfg \<in> set (node_list (consensus cfg))"
  shows "\<exists>Q. crash_quorum (consensus cfg) (insert (net_name cfg) Q) \<and> net_name cfg \<notin> Q
    \<and> (\<forall>x \<in> Q. get_raw ft rl (final_key_name cfg cmd) (dbs' x) = Inr (stored_value cmd s))
    \<and> tp_out s' = tp_out s @ [tp_action cmd]"
proof -
  let ?key = "final_key_name cfg cmd" and ?val = "stored_value cmd s"
  let ?s1 = "s\<lparr>tp_local_index_counter := AList.update (tp_key cmd) (next_index cmd s) (tp_local_index_counter s)\<rparr>"
  obtain s2 dbs2 nets2 s3 where p1: "retry_phase cfg ?key ?val WRITE (map (answer_round ft rl) rounds) ?s1 dbs = Inr (Some (s2, dbs2, nets2))"
    and p2: "retry_phase cfg ?key ?val CUSTOM nets2 s2 dbs2 = Inr (Some (s3, dbs', nets'))"
    and s': "s' = s3\<lparr>tp_out := tp_out s3 @ [tp_action cmd]\<rparr>"
    using assms(1) by (rule tp_handle_commandE)
  obtain i where i: "s2 = ?s1\<lparr>tp_client_tag_counter := tp_client_tag_counter s + i\<rparr>"
    "nets2 = map (answer_round ft rl) (drop i rounds)"
    using retry_phase_frame [OF p1] by (auto simp: drop_map)
  have "\<forall>r \<in> set (drop i rounds). round_ok cfg (tp_client_tag_counter s2) r"
  proof
    fix r assume "r \<in> set (drop i rounds)"
    then have "round_ok cfg (tp_client_tag_counter s) r" using assms(2) by (blast dest: in_set_dropD)
    then show "round_ok cfg (tp_client_tag_counter s2) r" by (rule round_ok_mono) (simp add: i(1))
  qed
  from confirm_phase [OF p2 [unfolded i(2)] this] obtain Q where
    Q: "set Q \<subseteq> set (node_list (consensus cfg)) - {net_name cfg}" "distinct Q"
      "length (node_list (consensus cfg)) div 2 \<le> length Q" "\<forall>x \<in> set Q. confirms ft rl ?key ?val (dbs' x)"
    by blast
  have "card (insert (net_name cfg) (set Q)) = length Q + 1"
    using Q(1,2) by (subst card_insert_disjoint) (auto simp: distinct_card)
  then have "crash_quorum (consensus cfg) (insert (net_name cfg) (set Q))"
    using Q(1,3) assms(3) by (auto simp: crash_quorum_def threshold_quorum_def crash_commit_threshold_def)
  moreover have "tp_out s' = tp_out s @ [tp_action cmd]"
    using retry_phase_frame [OF p2] i(1) s' by auto
  ultimately show ?thesis using Q(1,4) by (intro exI [of _ "set Q"]) (auto simp: confirms_def)
qed

definition map_rocks :: "(bytes \<rightharpoonup> bytes) rocks_lib" where
  "map_rocks = \<lparr>db_put_opt = \<lambda>k v d. (d(k \<mapsto> v), True), db_get = \<lambda>k d. Some (d k)\<rparr>"

definition two_pc_cfg :: config where
  "two_pc_cfg = \<lparr>net_name = ''a'', node_infos = ''infos'',
     consensus = \<lparr>node_list = [''a'', ''b'', ''c''], learner_list = [], max_backlog_batch_size = 2,
       batch_max_delay_ms = 5, signature_max_delay_blocks = 10, liveness_u = 0,
       commit_index_gap_soft = 500, commit_index_gap_hard = 1000\<rparr>,
     simulate_byzantine_behavior = False, byzantine_start_block = 0\<rparr>"

definition demo_cmd :: two_pc_command where
  "demo_cmd = \<lparr>tp_key = ''raft_meta'', tp_value = [1, 2], tp_action = Engraft_None\<rparr>"

definition late_reply :: client_reply_msg where
  "late_reply = phase_reply 0 (phase_result True)"

lemma map_rocks_ok: "writes_ok map_rocks"
  by (simp add: writes_ok_def map_rocks_def)

lemma demo_key_valid: "utf8_valid (map of_char (final_key_name two_pc_cfg demo_cmd))"
  by (simp add: final_key_name_def two_pc_cfg_def demo_cmd_def)

lemma demo_two_pc:
  "\<exists>s' db' dbs'. tp_handle_command pirateship two_pc_cfg map_rocks demo_cmd
     (map (answer_round pirateship map_rocks) [[Answers ''b'', Other (Some late_reply)], [Answers ''b'']])
     two_pc_new Map.empty (\<lambda>_. Map.empty)
     = Inr (Some (s', db', dbs', [])) \<and> tp_out s' = [Engraft_None]"
  using two_pc_runs [OF map_rocks_ok _ demo_key_valid, of pirateship "[''b'']" "[''b'']"
      "[Other (Some late_reply)]" map_rocks "[]" "[]" two_pc_new Map.empty "\<lambda>_. Map.empty"]
  by (force simp: pirateship_def two_pc_cfg_def demo_cmd_def two_pc_new_def)

theorem two_pc_stores_on_majority_witness:
  "\<exists>s' db' dbs' Q. tp_handle_command pirateship two_pc_cfg map_rocks demo_cmd
     (map (answer_round pirateship map_rocks) [[Answers ''b'', Other (Some late_reply)], [Answers ''b'']])
     two_pc_new Map.empty (\<lambda>_. Map.empty) = Inr (Some (s', db', dbs', []))
   \<and> crash_quorum (consensus two_pc_cfg) (insert ''a'' Q) \<and> ''a'' \<notin> Q
   \<and> (\<forall>x \<in> Q. get_raw pirateship map_rocks (final_key_name two_pc_cfg demo_cmd) (dbs' x)
        = Inr (stored_value demo_cmd two_pc_new))"
proof -
  let ?rounds = "[[Answers ''b'', Other (Some late_reply)], [Answers ''b'']]"
  obtain s' db' dbs' where r: "tp_handle_command pirateship two_pc_cfg map_rocks demo_cmd
     (map (answer_round pirateship map_rocks) ?rounds) two_pc_new Map.empty (\<lambda>_. Map.empty) = Inr (Some (s', db', dbs', []))"
    using demo_two_pc by blast
  have ok: "\<forall>r \<in> set ?rounds. round_ok two_pc_cfg (tp_client_tag_counter two_pc_new) r"
    by (auto simp: round_ok_def two_pc_cfg_def late_reply_def phase_reply_def receipt_reply_def two_pc_new_def)
  have me: "net_name two_pc_cfg \<in> set (node_list (consensus two_pc_cfg))" "net_name two_pc_cfg = ''a''"
    by (simp_all add: two_pc_cfg_def)
  from two_pc_stores_on_majority [OF r ok me(1)] r show ?thesis unfolding me(2) by blast
qed



text \<open>
  The node's own write is not checked: the result inside its acknowledgement is ignored, and
  the node still counts itself. With a broken local disk the commit completes although fewer
  nodes than a majority have the value.
\<close>
lemma local_write_failure_ignored:
  assumes "\<And>k v d. db_put_opt rl0 k v d = (d, False)"
    and "writes_ok rl" and "ft_storage ft" and "utf8_valid (map of_char (final_key_name cfg cmd))"
    and "distinct (node_list (consensus cfg))" and "2 \<le> length (node_list (consensus cfg))"
    and "length xs = length (node_list (consensus cfg)) div 2"
  shows "\<exists>s' dbs'. tp_handle_command ft cfg rl0 cmd
      (map (answer_round ft rl) [map Answers xs, map Answers xs]) s db dbs = Inr (Some (s', db, dbs', []))
      \<and> tp_out s' = tp_out s @ [tp_action cmd]"
proof -
  have "set xs \<subseteq> set (answerers (map Answers xs @ []))" by (induction xs) auto
  from two_pc_runs [OF assms(2-7) refl this, of rl0 "[]" "[]" s db dbs] assms(1,3) show ?thesis
    by (simp add: put_raw_def rocks_put_block_def)
qed

text \<open>A cluster of one node cannot use the feature: the reply channel gets capacity 0.\<close>
lemma single_node_two_pc_panics:
  assumes "length (node_list (consensus cfg)) = 1"
  shows "tp_handle_command ft cfg rl0 cmd (net # nets) s db w = Inl Explicit_Panic"
  using assms
  by (simp add: tp_handle_command_def generic_phase_def broadcast_and_await_quorum_reply_def Let_def split: prod.split)

end
