(* ===== verification/Rpc.thy ===== *)
theory Rpc
  imports Crypto
begin

text \<open>
  The transport of messages (\<open>src/rpc/client.rs\<close>, \<open>src/rpc/server.rs\<close>, \<open>src/rpc/auth.rs\<close>):
  length-prefixed frames over a TLS connection, written through a fixed buffer by
  \<open>BufferedTlsStream\<close> and read back by \<open>FrameReader\<close>, and the handshake that gives a
  connection its sender. TLS is a parameter: a stream to write to, and the list of the
  reads that the receiver will get. A read may return any part of the bytes that arrived; a
  read of length 0 means that the peer closed the connection.
\<close>

section \<open>Definitions\<close>

datatype net_error = Net_IO | Bad_Response | Unknown_Peer string | Bad_Signature | Bad_Protobuf
  | Unauthenticated

text \<open>The outcome of an \<open>await\<close>: still waiting for the peer, \<open>Err\<close>, or \<open>Ok\<close>.\<close>

datatype 'a io = IO_Pending | IO_Err net_error | IO_Done 'a

definition bindIO :: "'a io result \<Rightarrow> ('a \<Rightarrow> 'b io result) \<Rightarrow> 'b io result" where
  "bindIO m f = bindE m (\<lambda>x. case x of IO_Pending \<Rightarrow> Inr IO_Pending | IO_Err e \<Rightarrow> Inr (IO_Err e)
     | IO_Done a \<Rightarrow> f a)"

subsection \<open>Slices\<close>

text \<open>\<open>buffer[start..start + k]\<close> and \<open>v[pos..][..k].copy_from_slice\<close>.\<close>

definition slice :: "bytes \<Rightarrow> nat \<Rightarrow> nat \<Rightarrow> bytes result" where
  "slice buffer start k =
     (if start + k \<le> length buffer then Inr (take k (drop start buffer)) else Inl Out_Of_Bounds)"

definition copy_from_slice :: "bytes \<Rightarrow> nat \<Rightarrow> bytes \<Rightarrow> bytes result" where
  "copy_from_slice v pos src =
     (if pos + length src \<le> length v then Inr (take pos v @ src @ drop (pos + length src) v)
      else Inl Out_Of_Bounds)"

subsection \<open>Reading\<close>

datatype read_result = Read bytes | Read_Err

record frame_reader =
  rd_buffer :: bytes
  rd_offset :: nat
  rd_bound :: nat
  rd_reads :: "read_result list"

definition frame_reader_new :: "nat \<Rightarrow> read_result list \<Rightarrow> frame_reader" where
  "frame_reader_new len reads =
     \<lparr>rd_buffer = replicate len 0, rd_offset = 0, rd_bound = 0, rd_reads = reads\<rparr>"

definition SERVER_BUFFER :: nat where "SERVER_BUFFER = 65536"

text \<open>\<open>self.stream.read(self.buffer.as_mut())\<close> overwrites the front of the buffer.\<close>

definition read_into :: "frame_reader \<Rightarrow> frame_reader io" where
  "read_into r =
     (case rd_reads r of
        [] \<Rightarrow> IO_Pending
      | Read_Err # _ \<Rightarrow> IO_Err Net_IO
      | Read c # rest \<Rightarrow>
          IO_Done (r\<lparr>rd_buffer := c @ drop (length c) (rd_buffer r), rd_bound := length c,
                     rd_offset := 0, rd_reads := rest\<rparr>))"

definition copy_out :: "nat \<Rightarrow> nat \<Rightarrow> bytes \<Rightarrow> frame_reader \<Rightarrow> bytes result" where
  "copy_out k pos v r = bindE (slice (rd_buffer r) (rd_offset r) k) (copy_from_slice v pos)"

function read_loop :: "nat \<Rightarrow> nat \<Rightarrow> bytes \<Rightarrow> frame_reader \<Rightarrow> (bytes \<times> frame_reader) io result" where
  "read_loop n pos v r =
     (if n = 0 then Inr (IO_Done (v, r))
      else case (if rd_bound r = rd_offset r then read_into r else IO_Done r) of
             IO_Pending \<Rightarrow> Inr IO_Pending
           | IO_Err e \<Rightarrow> Inr (IO_Err e)
           | IO_Done r1 \<Rightarrow>
               (let avail = rd_bound r1 - rd_offset r1
                in if n \<le> avail then
                     mapE (\<lambda>v'. IO_Done (v', r1\<lparr>rd_offset := rd_offset r1 + n\<rparr>)) (copy_out n pos v r1)
                   else case copy_out avail pos v r1 of
                          Inl f \<Rightarrow> Inl f
                        | Inr v' \<Rightarrow> read_loop (n - avail) (pos + avail) v' (r1\<lparr>rd_offset := rd_bound r1\<rparr>)))"
  by pat_completeness auto

termination
  by (relation "measure (\<lambda>(n, pos, v, r). 2 * length (rd_reads r) + (if rd_bound r = rd_offset r then 0 else 1))")
    (auto simp: read_into_def split: if_split_asm list.split_asm read_result.split_asm)

declare read_loop.simps [simp del]

definition read_next_bytes :: "nat \<Rightarrow> bytes \<Rightarrow> frame_reader \<Rightarrow> (bytes \<times> frame_reader) io result" where
  "read_next_bytes n v r = read_loop n 0 v r"

text \<open>The size of the frame, the receive buffer, which only grows, and the reader.\<close>

definition get_next_frame :: "bytes \<Rightarrow> frame_reader \<Rightarrow> (nat \<times> bytes \<times> frame_reader) io result" where
  "get_next_frame buff r =
     bindIO (read_next_bytes 4 (replicate 4 0) r) (\<lambda>(sz_vec, r1).
       let sz = from_be sz_vec;
           buff1 = (if sz > length buff then buff @ replicate (sz - length buff) 0 else buff)
       in bindIO (read_next_bytes sz buff1 r1) (\<lambda>(buff2, r2). Inr (IO_Done (sz, buff2, r2))))"

subsection \<open>Writing\<close>

record 't tls_lib =
  tls_write_all :: "bytes \<Rightarrow> 't \<Rightarrow> 't option"
  tls_flush :: "'t \<Rightarrow> 't option"

text \<open>\<open>ws_written\<close> is \<open>write_buffer[..write_offset]\<close>; the rest of the buffer is never read.\<close>

record 't write_stream =
  ws_tls :: 't
  ws_written :: bytes

definition WRITE_BUFFER :: nat where "WRITE_BUFFER = 8192"

definition write_stream_new :: "'t \<Rightarrow> 't write_stream" where
  "write_stream_new t = \<lparr>ws_tls = t, ws_written = []\<rparr>"

definition flush_write_buffer :: "'t tls_lib \<Rightarrow> 't write_stream \<Rightarrow> 't write_stream io" where
  "flush_write_buffer lib s =
     (case tls_write_all lib (ws_written s) (ws_tls s) of
        None \<Rightarrow> IO_Err Net_IO
      | Some t \<Rightarrow>
          (case tls_flush lib t of
             None \<Rightarrow> IO_Err Net_IO
           | Some t' \<Rightarrow> IO_Done (s\<lparr>ws_tls := t', ws_written := []\<rparr>)))"

function write_loop ::
  "'t tls_lib \<Rightarrow> bytes \<Rightarrow> nat \<Rightarrow> nat \<Rightarrow> 't write_stream \<Rightarrow> 't write_stream io result" where
  "write_loop lib buff len n s =
     (if n = 0 then Inr (IO_Done s)
      else let space_left = WRITE_BUFFER - length (ws_written s)
           in if space_left = 0 then
                (case flush_write_buffer lib s of
                   IO_Pending \<Rightarrow> Inr IO_Pending
                 | IO_Err e \<Rightarrow> Inr (IO_Err e)
                 | IO_Done s' \<Rightarrow> write_loop lib buff len n s')
              else let to_write = (if n < space_left then n else space_left)
                   in case slice buff (len - n) to_write of
                        Inl f \<Rightarrow> Inl f
                      | Inr part \<Rightarrow>
                          write_loop lib buff len (n - to_write) (s\<lparr>ws_written := ws_written s @ part\<rparr>))"
  by pat_completeness auto

termination
proof (relation "measure (\<lambda>(lib, buff, len, n, s). 2 * n + (if WRITE_BUFFER - length (ws_written s) = 0 then 1 else 0))",
    goal_cases)
  case (2 lib buff len n s x y)
  then have "ws_written y = []"
    by (auto simp: flush_write_buffer_def split: option.split_asm)
  with 2 show ?case by (simp add: WRITE_BUFFER_def)
qed auto

declare write_loop.simps [simp del]

definition write_all_bufffered :: "'t tls_lib \<Rightarrow> bytes \<Rightarrow> nat \<Rightarrow> 't write_stream \<Rightarrow> 't write_stream io result" where
  "write_all_bufffered lib buff len s = write_loop lib buff len len s"

definition write_u32_buffered :: "'t tls_lib \<Rightarrow> nat \<Rightarrow> 't write_stream \<Rightarrow> 't write_stream io result" where
  "write_u32_buffered lib data s = write_all_bufffered lib (to_be 4 data) 4 s"

text \<open>
  A message is a vector and the number of its bytes that count. \<open>send\<close> announces the length
  of the vector and writes the bytes that count.
\<close>

record message =
  msg_vec :: bytes
  msg_size :: nat

definition client_send :: "'t tls_lib \<Rightarrow> message \<Rightarrow> 't write_stream \<Rightarrow> 't write_stream io result" where
  "client_send lib data s =
     bindIO (write_u32_buffered lib (length (msg_vec data) mod 2 ^ 32) s) (\<lambda>s1.
     bindIO (write_all_bufffered lib (msg_vec data) (msg_size data) s1) (\<lambda>s2.
       Inr (flush_write_buffer lib s2)))"

section \<open>Frames\<close>

definition read_bytes :: "read_result \<Rightarrow> bytes" where
  "read_bytes x = (case x of Read c \<Rightarrow> c | Read_Err \<Rightarrow> [])"

text \<open>What the reader has not yet given out: the rest of its buffer and all later reads.\<close>

definition buffered :: "frame_reader \<Rightarrow> bytes" where
  "buffered r = take (rd_bound r - rd_offset r) (drop (rd_offset r) (rd_buffer r))"

definition unread :: "frame_reader \<Rightarrow> bytes" where
  "unread r = buffered r @ concat (map read_bytes (rd_reads r))"

definition read_fits :: "nat \<Rightarrow> read_result \<Rightarrow> bool" where
  "read_fits k x = (case x of Read c \<Rightarrow> length c \<le> k | Read_Err \<Rightarrow> False)"

definition reader_ok :: "frame_reader \<Rightarrow> bool" where
  "reader_ok r \<longleftrightarrow> rd_offset r \<le> rd_bound r \<and> rd_bound r \<le> length (rd_buffer r)
     \<and> list_all (read_fits (length (rd_buffer r))) (rd_reads r)"

lemma length_buffered: "reader_ok r \<Longrightarrow> length (buffered r) = rd_bound r - rd_offset r"
  by (auto simp: reader_ok_def buffered_def)

lemma read_into_ok:
  assumes "reader_ok r" and "rd_bound r = rd_offset r" and "unread r \<noteq> []"
  shows "\<exists>r1. read_into r = IO_Done r1 \<and> reader_ok r1 \<and> unread r1 = unread r"
  using assms
  by (auto simp: read_into_def reader_ok_def unread_def buffered_def read_fits_def read_bytes_def
      split: list.split read_result.split_asm read_result.split)

lemma copy_out_ok:
  assumes "reader_ok r" and "k \<le> rd_bound r - rd_offset r" and "pos + k \<le> length v"
  shows "copy_out k pos v r = Inr (take pos v @ take k (buffered r) @ drop (pos + k) v)"
proof -
  have "rd_offset r + k \<le> length (rd_buffer r)" using assms(1,2) by (auto simp: reader_ok_def)
  moreover have "take k (buffered r) = take k (drop (rd_offset r) (rd_buffer r))"
    using assms(2) by (simp add: buffered_def)
  ultimately show ?thesis
    using assms(3) by (simp add: copy_out_def slice_def copy_from_slice_def)
qed

lemma read_loop_ok:
  assumes "reader_ok r" and "pos + n \<le> length v" and "n \<le> length (unread r)"
  shows "\<exists>r'. read_loop n pos v r = Inr (IO_Done (take pos v @ take n (unread r) @ drop (pos + n) v, r'))
    \<and> reader_ok r' \<and> unread r' = drop n (unread r)"
  using assms
proof (induction n pos v r rule: read_loop.induct)
  case (1 n pos v r)
  show ?case
  proof (cases "n = 0")
    case True
    with 1(2) show ?thesis by (auto simp: read_loop.simps)
  next
    case n: False
    with 1(4) have "unread r \<noteq> []" by auto
    then obtain r1 where r1: "(if rd_bound r = rd_offset r then read_into r else IO_Done r) = IO_Done r1"
      "reader_ok r1" "unread r1 = unread r"
      using read_into_ok [OF 1(2)] 1(2) by (cases "rd_bound r = rd_offset r") auto
    let ?a = "rd_bound r1 - rd_offset r1"
    have len: "length (buffered r1) = ?a" by (rule length_buffered [OF r1(2)])
    have u: "unread r = buffered r1 @ concat (map read_bytes (rd_reads r1))"
      using r1(3) by (simp add: unread_def)
    show ?thesis
    proof (cases "n \<le> ?a")
      case True
      have "reader_ok (r1\<lparr>rd_offset := rd_offset r1 + n\<rparr>)" using r1(2) True by (auto simp: reader_ok_def)
      moreover have "unread (r1\<lparr>rd_offset := rd_offset r1 + n\<rparr>) = drop n (unread r)"
      proof -
        have "buffered (r1\<lparr>rd_offset := rd_offset r1 + n\<rparr>) = drop n (buffered r1)"
          by (simp add: buffered_def drop_take add.commute)
        then show ?thesis using len True by (simp add: u) (simp add: unread_def)
      qed
      moreover have "take n (unread r) = take n (buffered r1)" using len True by (simp add: u)
      ultimately show ?thesis
        using n r1(1) True copy_out_ok [OF r1(2) True 1(3)] by (simp add: read_loop.simps [of n])
    next
      case False
      define v' where "v' = take pos v @ take ?a (buffered r1) @ drop (pos + ?a) v"
      define r2 where "r2 = r1\<lparr>rd_offset := rd_bound r1\<rparr>"
      have c: "copy_out ?a pos v r1 = Inr v'"
        using copy_out_ok [OF r1(2), of ?a pos v] False 1(3) by (simp add: v'_def)
      have "unread r2 = concat (map read_bytes (rd_reads r1))"
        by (simp add: r2_def unread_def buffered_def)
      then have r2: "reader_ok r2" "unread r2 = drop ?a (unread r)"
        using r1(2) len by (simp_all add: u) (simp add: r2_def reader_ok_def)
      have v': "length v' = length v" "take (pos + ?a) v' = take pos v @ buffered r1"
        "drop (pos + n) v' = drop (pos + n) v"
        using False 1(3) len by (simp_all add: v'_def add.commute)
      have "\<exists>r'. read_loop (n - ?a) (pos + ?a) v' r2
          = Inr (IO_Done (take (pos + ?a) v' @ take (n - ?a) (unread r2) @ drop (pos + ?a + (n - ?a)) v', r'))
        \<and> reader_ok r' \<and> unread r' = drop (n - ?a) (unread r2)"
        unfolding r2_def
        by (rule 1(1) [OF n r1(1) refl False c]) (use r2 v' 1(3,4) False in \<open>auto simp: r2_def\<close>)
      moreover have "read_loop n pos v r = read_loop (n - ?a) (pos + ?a) v' r2"
        using n r1(1) False c by (simp add: read_loop.simps [of n] r2_def Let_def)
      ultimately show ?thesis
        using v' r2(2) False len by (auto simp: u)
    qed
  qed
qed

text \<open>The frame of a message, and the first \<open>k\<close> frames that a reader gives out.\<close>

definition frame :: "bytes \<Rightarrow> bytes" where
  "frame m = to_be 4 (length m) @ m"

fun read_frames :: "nat \<Rightarrow> bytes \<Rightarrow> frame_reader \<Rightarrow> bytes list io result" where
  "read_frames 0 buff r = Inr (IO_Done [])"
| "read_frames (Suc k) buff r =
     bindIO (get_next_frame buff r) (\<lambda>(sz, buff', r').
     bindIO (read_frames k buff' r') (\<lambda>ms. Inr (IO_Done (take sz buff' # ms))))"

lemma get_next_frame_ok:
  assumes "reader_ok r" and "unread r = frame m @ rest" and "length m < 2 ^ 32"
  shows "\<exists>buff' r'. get_next_frame buff r = Inr (IO_Done (length m, buff', r'))
    \<and> length m \<le> length buff' \<and> take (length m) buff' = m \<and> reader_ok r' \<and> unread r' = rest"
proof -
  obtain r1 where r1: "read_loop 4 0 (replicate 4 0) r = Inr (IO_Done (to_be 4 (length m), r1))"
    "reader_ok r1" "unread r1 = m @ rest"
    using read_loop_ok [OF assms(1), of 0 4 "replicate 4 0"] by (auto simp: assms(2) frame_def)
  have sz: "from_be (to_be 4 (length m)) = length m" using assms(3) by (intro from_be_to_be) simp
  let ?b = "if length m > length buff then buff @ replicate (length m - length buff) 0 else buff"
  have b: "length m \<le> length ?b" by simp
  obtain r2 where r2: "read_loop (length m) 0 ?b r1 = Inr (IO_Done (m @ drop (length m) ?b, r2))"
    "reader_ok r2" "unread r2 = rest"
    using read_loop_ok [OF r1(2), of 0 "length m" ?b] b by (auto simp: r1(3) simp del: if_split)
  show ?thesis
    using r1(1) r2 sz b by (auto simp: get_next_frame_def read_next_bytes_def bindIO_def Let_def)
qed

lemma read_frames_ok:
  assumes "reader_ok r" and "unread r = concat (map frame ms)" and "\<forall>m \<in> set ms. length m < 2 ^ 32"
  shows "read_frames (length ms) buff r = Inr (IO_Done ms)"
  using assms
proof (induction ms arbitrary: buff r)
  case (Cons m ms)
  then obtain buff' r' where "get_next_frame buff r = Inr (IO_Done (length m, buff', r'))"
    "take (length m) buff' = m" "reader_ok r'" "unread r' = concat (map frame ms)"
    using get_next_frame_ok [of r m "concat (map frame ms)" buff] by auto
  with Cons.IH [of r' buff'] Cons.prems(3) show ?case by (simp add: bindIO_def)
qed simp

section \<open>Writing frames\<close>

text \<open>What the code relies on: a stream that does not fail transmits what it is given, in order.\<close>

definition tls_transmits :: "'t tls_lib \<Rightarrow> ('t \<Rightarrow> bytes) \<Rightarrow> bool" where
  "tls_transmits lib sent \<longleftrightarrow>
     (\<forall>d t. \<exists>t'. tls_write_all lib d t = Some t' \<and> sent t' = sent t @ d)
     \<and> (\<forall>t. \<exists>t'. tls_flush lib t = Some t' \<and> sent t' = sent t)"

lemma flush_ok:
  assumes "tls_transmits lib sent"
  shows "\<exists>s'. flush_write_buffer lib s = IO_Done s' \<and> sent (ws_tls s') = sent (ws_tls s) @ ws_written s
    \<and> ws_written s' = []"
proof -
  obtain t where t: "tls_write_all lib (ws_written s) (ws_tls s) = Some t" "sent t = sent (ws_tls s) @ ws_written s"
    using assms unfolding tls_transmits_def by blast
  obtain t' where "tls_flush lib t = Some t'" "sent t' = sent t"
    using assms unfolding tls_transmits_def by blast
  with t show ?thesis by (simp add: flush_write_buffer_def)
qed

lemma write_loop_ok:
  assumes "tls_transmits lib sent" and "n \<le> len" and "len \<le> length buff"
  shows "\<exists>s'. write_loop lib buff len n s = Inr (IO_Done s')
    \<and> sent (ws_tls s') @ ws_written s' = sent (ws_tls s) @ ws_written s @ take n (drop (len - n) buff)"
  using assms
proof (induction lib buff len n s rule: write_loop.induct)
  case (1 lib buff len n s)
  let ?space = "WRITE_BUFFER - length (ws_written s)"
  consider "n = 0" | (full) "n \<noteq> 0" "?space = 0" | (copy) "n \<noteq> 0" "?space \<noteq> 0" by blast
  then show ?case
  proof cases
    case 1
    then show ?thesis by (simp add: write_loop.simps)
  next
    case full
    obtain s1 where s1: "flush_write_buffer lib s = IO_Done s1" "sent (ws_tls s1) = sent (ws_tls s) @ ws_written s"
      "ws_written s1 = []" using flush_ok [OF 1(3)] by blast
    have "write_loop lib buff len n s = write_loop lib buff len n s1"
      using full s1(1) by (simp add: write_loop.simps [of lib buff len n s])
    with 1(1) [OF full(1) refl full(2) s1(1) 1(3-5)] s1 show ?thesis by auto
  next
    case copy
    define k where "k = (if n < ?space then n else ?space)"
    have k: "k \<le> n" "0 < k" using copy by (auto simp: k_def)
    define part where "part = take k (drop (len - n) buff)"
    have sl: "slice buff (len - n) k = Inr part" using k 1(4,5) by (simp add: slice_def part_def)
    let ?s = "s\<lparr>ws_written := ws_written s @ part\<rparr>"
    have eq: "write_loop lib buff len n s = write_loop lib buff len (n - k) ?s"
      using copy sl by (simp add: write_loop.simps [of lib buff len n s] k_def Let_def)
    have "\<exists>s'. write_loop lib buff len (n - k) ?s = Inr (IO_Done s') \<and>
        sent (ws_tls s') @ ws_written s'
          = sent (ws_tls ?s) @ ws_written ?s @ take (n - k) (drop (len - (n - k)) buff)"
      by (rule 1(2) [OF copy(1) refl copy(2) _ _ 1(3) _ 1(5)]) (use sl k_def 1(4) in auto)
    moreover have "part @ take (n - k) (drop (len - (n - k)) buff) = take n (drop (len - n) buff)"
    proof -
      have "take n (drop (len - n) buff) = part @ take (n - k) (drop k (drop (len - n) buff))"
        unfolding part_def using k(1) by (metis le_add_diff_inverse take_add)
      moreover have "k + (len - n) = len - (n - k)" using k(1) 1(4) by simp
      ultimately show ?thesis by (simp add: add.commute)
    qed
    ultimately show ?thesis by (auto simp: eq)
  qed
qed

text \<open>Messages whose whole vector counts, as all messages that the nodes send.\<close>

definition whole :: "bytes \<Rightarrow> message" where
  "whole m = \<lparr>msg_vec = m, msg_size = length m\<rparr>"

fun send_all :: "'t tls_lib \<Rightarrow> message list \<Rightarrow> 't write_stream \<Rightarrow> 't write_stream io result" where
  "send_all lib [] s = Inr (IO_Done s)"
| "send_all lib (m # ms) s = bindIO (client_send lib m s) (send_all lib ms)"

lemma client_send_ok:
  assumes "tls_transmits lib sent" and "length m < 2 ^ 32" and "ws_written s = []"
  shows "\<exists>s'. client_send lib (whole m) s = Inr (IO_Done s')
    \<and> sent (ws_tls s') = sent (ws_tls s) @ frame m \<and> ws_written s' = []"
proof -
  obtain s1 where s1: "write_loop lib (to_be 4 (length m)) 4 4 s = Inr (IO_Done s1)"
    "sent (ws_tls s1) @ ws_written s1 = sent (ws_tls s) @ to_be 4 (length m)"
    using write_loop_ok [OF assms(1), of 4 4 "to_be 4 (length m)" s] assms(3) by auto
  obtain s2 where s2: "write_loop lib m (length m) (length m) s1 = Inr (IO_Done s2)"
    "sent (ws_tls s2) @ ws_written s2 = sent (ws_tls s1) @ ws_written s1 @ m"
    using write_loop_ok [OF assms(1), of "length m" "length m" m s1] by auto
  obtain s3 where "flush_write_buffer lib s2 = IO_Done s3" "ws_written s3 = []"
    "sent (ws_tls s3) = sent (ws_tls s2) @ ws_written s2"
    using flush_ok [OF assms(1)] by blast
  moreover have "sent (ws_tls s2) @ ws_written s2 = sent (ws_tls s) @ frame m"
    using s2(2) s1(2) by (metis append.assoc frame_def)
  ultimately show ?thesis
    using s1(1) s2(1) assms(2)
    by (simp add: client_send_def write_u32_buffered_def write_all_bufffered_def whole_def bindIO_def)
qed

lemma send_all_ok:
  assumes "tls_transmits lib sent" and "\<forall>m \<in> set ms. length m < 2 ^ 32" and "ws_written s = []"
  shows "\<exists>s'. send_all lib (map whole ms) s = Inr (IO_Done s')
    \<and> sent (ws_tls s') = sent (ws_tls s) @ concat (map frame ms) \<and> ws_written s' = []"
  using assms(2,3)
proof (induction ms arbitrary: s)
  case (Cons m ms)
  then obtain s1 where "client_send lib (whole m) s = Inr (IO_Done s1)"
    "sent (ws_tls s1) = sent (ws_tls s) @ frame m" "ws_written s1 = []"
    using client_send_ok [OF assms(1), of m s] by auto
  with Cons.IH [of s1] Cons.prems(1) show ?case by (auto simp: bindIO_def)
qed simp

section \<open>The handshake\<close>

text \<open>
  The protobuf codec of \<open>ProtoHandshakeResponse\<close> is generated code: a parameter.
\<close>

record handshake_response =
  hr_name :: string
  hr_signature :: bytes
  hr_is_reply_channel :: bool
  hr_client_sub_id :: u64

record handshake_codec =
  hs_encode :: "handshake_response \<Rightarrow> bytes"
  hs_decode :: "bytes \<Rightarrow> handshake_response option"

definition construct_payload :: "nat \<Rightarrow> string \<Rightarrow> bytes" where
  "construct_payload nonce name = to_be 4 nonce @ as_bytes name"

text \<open>\<open>read_u32\<close> and \<open>read_exact\<close> on the bytes that arrive; too few of them is an I/O error.\<close>

definition handshake_server ::
  "'k crypto_lib \<Rightarrow> 'k keystore \<Rightarrow> handshake_codec \<Rightarrow> nat \<Rightarrow> bytes
     \<Rightarrow> net_error + string \<times> bool \<times> u64" where
  "handshake_server lib ks codec nonce input =
     (if length input < 4 then Inl Net_IO
      else let sz = from_be (take 4 input); buf = take sz (drop 4 input)
           in if sz = 0 then Inl Bad_Response
              else if length buf < sz then Inl Net_IO
              else case hs_decode codec buf of
                     None \<Rightarrow> Inl Bad_Protobuf
                   | Some resp \<Rightarrow>
                       (let name = hr_name resp
                        in if ks name = None then Inl (Unknown_Peer name)
                           else let sg = (if length (hr_signature resp) = SIGNATURE_LENGTH then hr_signature resp
                                          else replicate SIGNATURE_LENGTH 0)
                                in if \<not> keystore_verify lib ks name sg (construct_payload nonce name)
                                   then Inl Bad_Signature
                                   else Inr (name, hr_is_reply_channel resp, hr_client_sub_id resp)))"

definition handshake_answer :: "'k crypto_lib \<Rightarrow> string \<Rightarrow> bool \<Rightarrow> u64 \<Rightarrow> nat \<Rightarrow> handshake_response" where
  "handshake_answer lib name is_reply_chan client_sub_id nonce =
     \<lparr>hr_name = name, hr_signature = lib_sign lib (construct_payload nonce name),
      hr_is_reply_channel = is_reply_chan, hr_client_sub_id = client_sub_id\<rparr>"

definition handshake_client ::
  "'k crypto_lib \<Rightarrow> handshake_codec \<Rightarrow> string \<Rightarrow> bool \<Rightarrow> u64 \<Rightarrow> nat \<Rightarrow> bytes" where
  "handshake_client lib codec name is_reply_chan client_sub_id nonce =
     (let resp_buf = hs_encode codec (handshake_answer lib name is_reply_chan client_sub_id nonce)
      in to_be 4 (length resp_buf mod 2 ^ 32) @ resp_buf)"

text \<open>\<open>Server::handle_auth\<close>: without authentication every sender is anonymous.\<close>

definition handle_auth ::
  "bool \<Rightarrow> 'k crypto_lib \<Rightarrow> 'k keystore \<Rightarrow> handshake_codec \<Rightarrow> nat \<Rightarrow> bytes
     \<Rightarrow> net_error + sender_type \<times> bool \<times> u64" where
  "handle_auth do_auth lib ks codec nonce input =
     (if do_auth then
        mapE (\<lambda>(name, reply_chan, sub_id). (Auth name sub_id, reply_chan, sub_id))
          (handshake_server lib ks codec nonce input)
      else Inr (Anon, False, 0))"

text \<open>The signed bytes determine the nonce and the name.\<close>

lemma construct_payload_inj:
  assumes "construct_payload n a = construct_payload n' b" and "n < 2 ^ 32" and "n' < 2 ^ 32"
  shows "n = n' \<and> a = b"
proof -
  have "to_be 4 n = to_be 4 n'" "as_bytes a = as_bytes b"
    using assms(1) by (simp_all add: construct_payload_def append_eq_append_conv)
  moreover from this(1) have "n = n'" by (rule_tac to_be_inj [of n 4]) (use assms(2,3) in simp_all)
  ultimately show ?thesis by (simp add: as_bytes_inj)
qed

text \<open>An accepted peer is known and has signed the nonce together with its name.\<close>

lemma handshake_serverD:
  assumes "handshake_server lib ks codec nonce input = Inr (name, rc, sub)"
  shows "\<exists>k sg. ks name = Some k \<and> lib_verify lib k (construct_payload nonce name) sg"
  using assms
  by (auto simp: handshake_server_def keystore_verify_def Let_def split: if_split_asm option.split_asm)

lemma handle_authD:
  assumes "handle_auth True lib ks codec nonce input = Inr (sender, rc, sub)"
  shows "\<exists>name k sg. sender = Auth name sub \<and> ks name = Some k
    \<and> lib_verify lib k (construct_payload nonce name) sg"
proof (cases "handshake_server lib ks codec nonce input")
  case (Inr x)
  then show ?thesis
    using assms handshake_serverD [of lib ks codec nonce input]
    by (cases x) (fastforce simp: handle_auth_def)
qed (use assms in \<open>simp add: handle_auth_def\<close>)

section \<open>Closed connections\<close>

lemma read_loop_short:
  assumes "reader_ok r" and "pos + n \<le> length v" and "length (unread r) < n"
  shows "read_loop n pos v r = Inr IO_Pending"
  using assms
proof (induction n pos v r rule: read_loop.induct)
  case (1 n pos v r)
  have n: "n \<noteq> 0" using 1(4) by simp
  show ?case
  proof (cases "rd_bound r = rd_offset r \<and> rd_reads r = []")
    case True
    with n show ?thesis by (simp add: read_loop.simps [of n] read_into_def)
  next
    case False
    obtain r1 where r1: "(if rd_bound r = rd_offset r then read_into r else IO_Done r) = IO_Done r1"
      "reader_ok r1" "unread r1 = unread r"
    proof (cases "rd_bound r = rd_offset r")
      case True
      with False 1(2) that show ?thesis
        by (auto simp: read_into_def reader_ok_def unread_def buffered_def read_fits_def read_bytes_def
            neq_Nil_conv split: read_result.split_asm)
    qed (use 1(2) that in auto)
    let ?a = "rd_bound r1 - rd_offset r1"
    have u: "length (unread r) = ?a + length (concat (map read_bytes (rd_reads r1)))"
      using r1(3) length_buffered [OF r1(2)] by (metis length_append unread_def)
    then have a: "\<not> n \<le> ?a" using 1(4) by simp
    obtain v' where c: "copy_out ?a pos v r1 = Inr v'" "length v' = length v"
      using copy_out_ok [OF r1(2), of ?a pos v] a 1(3) length_buffered [OF r1(2)] by auto
    have "read_loop (n - ?a) (pos + ?a) v' (r1\<lparr>rd_offset := rd_bound r1\<rparr>) = Inr IO_Pending"
      by (rule 1(1) [OF n r1(1) refl a c(1)])
        (use r1(2) a c(2) 1(3,4) u in \<open>auto simp: reader_ok_def unread_def buffered_def\<close>)
    then show ?thesis using n r1(1) a c(1) by (simp add: read_loop.simps [of n] Let_def)
  qed
qed

text \<open>
  A reader whose peer has closed the connection in the middle of a frame never returns: a read
  of length 0 is not treated as the end, so the loop asks again, however many empty reads the
  closed connection delivers.
\<close>
lemma closed_connection_spins:
  assumes "reader_ok r" and "length (unread r) < n" and "n \<le> length v"
  shows "read_next_bytes n v (r\<lparr>rd_reads := rd_reads r @ replicate k (Read [])\<rparr>) = Inr IO_Pending"
proof -
  have "concat (replicate k (read_bytes (Read []))) = []" by (induction k) (simp_all add: read_bytes_def)
  then show ?thesis
    unfolding read_next_bytes_def using assms
    by (intro read_loop_short) (auto simp: reader_ok_def unread_def buffered_def read_fits_def list_all_iff)
qed

section \<open>Properties\<close>

text \<open>
  C20: messages survive the wire. A client sends any list of messages below 4 GiB through the
  8 KiB write buffer; TLS transmits the bytes in order, cut into reads in any way that fits
  the server's buffer. The sending ends without an error, and the server's frame reader gives
  out exactly these messages in this order, whatever its receive buffer held before.
\<close>
theorem messages_survive_the_wire:
  assumes "tls_transmits lib sent" and "sent t = []" and "\<forall>m \<in> set ms. length m < 2 ^ 32"
  shows "\<exists>s. send_all lib (map whole ms) (write_stream_new t) = Inr (IO_Done s)
    \<and> (\<forall>reads buff. concat (map read_bytes reads) = sent (ws_tls s) \<longrightarrow> list_all (read_fits SERVER_BUFFER) reads
        \<longrightarrow> read_frames (length ms) buff (frame_reader_new SERVER_BUFFER reads) = Inr (IO_Done ms))"
proof -
  obtain s where s: "send_all lib (map whole ms) (write_stream_new t) = Inr (IO_Done s)"
    "sent (ws_tls s) = concat (map frame ms)"
    using send_all_ok [OF assms(1,3), of "write_stream_new t"] assms(2) by (auto simp: write_stream_new_def)
  have "read_frames (length ms) buff (frame_reader_new SERVER_BUFFER reads) = Inr (IO_Done ms)"
    if "concat (map read_bytes reads) = sent (ws_tls s)" "list_all (read_fits SERVER_BUFFER) reads" for reads buff
    using that s(2)
    by (intro read_frames_ok [OF _ _ assms(3)])
      (simp_all add: reader_ok_def frame_reader_new_def unread_def buffered_def)
  with s(1) show ?thesis by blast
qed

definition list_tls :: "bytes tls_lib" where
  "list_tls = \<lparr>tls_write_all = \<lambda>d t. Some (t @ d), tls_flush = Some\<rparr>"

lemma to_be_numeral: "to_be (numeral k) v = to_be (pred_numeral k) (v div 256) @ [of_nat (v mod 256)]"
  by (subst numeral_eq_Suc) (rule to_be.simps(2))

theorem messages_survive_the_wire_witness:
  "tls_transmits list_tls id
   \<and> read_frames 2 [9] (frame_reader_new SERVER_BUFFER
       [Read [0, 0], Read [0, 2, 7, 8, 0], Read [0, 0], Read [1, 5]]) = Inr (IO_Done [[7, 8], [5]])"
proof -
  have tls: "tls_transmits list_tls id" by (simp add: tls_transmits_def list_tls_def)
  obtain s where s: "send_all list_tls (map whole [[7, 8], [5]]) (write_stream_new []) = Inr (IO_Done s)"
    and r: "\<forall>reads buff. concat (map read_bytes reads) = id (ws_tls s) \<longrightarrow> list_all (read_fits SERVER_BUFFER) reads
        \<longrightarrow> read_frames (length [[7, 8], [5]]) buff (frame_reader_new SERVER_BUFFER reads)
            = Inr (IO_Done [[7, 8], [5]])"
    using messages_survive_the_wire [OF tls, of "[]" "[[7, 8], [5]]"] by auto
  have "ws_tls s = [0, 0, 0, 2, 7, 8, 0, 0, 0, 1, 5]"
    using send_all_ok [OF tls, of "[[7, 8], [5]]" "write_stream_new []"] s
    by (simp add: write_stream_new_def frame_def to_be_numeral)
  then show ?thesis
    using r [rule_format, of "[Read [0, 0], Read [0, 2, 7, 8, 0], Read [0, 0], Read [1, 5]]" "[9]"] tls
    by (simp add: read_bytes_def read_fits_def SERVER_BUFFER_def numeral_2_eq_2 del: read_frames.simps)
qed

text \<open>
  C25: an honest node is accepted under its own name. The answer of a client to any nonce is
  accepted by every server that knows the client's key, with the client's name, channel kind
  and sub-identifier. The answer does not depend on the server: whoever gets it first can pass
  it on to the server that chose the nonce.
\<close>
theorem handshake_accepts_honest_peer:
  assumes "resp = handshake_answer clib name rc sub nonce"
    and "hs_decode codec (hs_encode codec resp) = Some resp" and "hs_encode codec resp \<noteq> []"
    and "length (hs_encode codec resp) < 2 ^ 32"
    and "ks name = Some k" and "\<forall>d. lib_verify slib k d (lib_sign clib d)"
    and "\<forall>d. length (lib_sign clib d) = SIGNATURE_LENGTH"
  shows "handle_auth True slib ks codec nonce (handshake_client clib codec name rc sub nonce)
    = Inr (Auth name sub, rc, sub)"
proof -
  have "from_be (to_be 4 (length (hs_encode codec resp) mod 2 ^ 32)) = length (hs_encode codec resp)"
    using assms(4) by (subst from_be_to_be) simp_all
  then show ?thesis
    using assms(2-7)
    by (simp add: handle_auth_def handshake_server_def handshake_client_def Let_def keystore_verify_def
        flip: assms(1)) (simp add: assms(1) handshake_answer_def)
qed

definition demo_codec :: handshake_codec where
  "demo_codec = \<lparr>hs_encode = \<lambda>x. hr_signature x,
     hs_decode = \<lambda>bs. Some \<lparr>hr_name = ''node2'', hr_signature = bs, hr_is_reply_channel = True,
       hr_client_sub_id = 3\<rparr>\<rparr>"

theorem handshake_accepts_honest_peer_witness:
  "handle_auth True (demo_lib (demo_block 1 1 [])) demo_ks demo_codec 77
     (handshake_client (demo_lib (demo_block 1 1 [])) demo_codec ''node2'' True 3 77) = Inr (Auth ''node2'' 3, True, 3)"
  by (rule handshake_accepts_honest_peer [OF refl])
    (simp_all add: demo_codec_def handshake_answer_def demo_lib_def demo_ks_def lengths)

end
