(* ===== verification/LogServer.thy ===== *)
theory LogServer
  imports Storage
begin

text \<open>
  The log server (\<open>src/consensus/logserver.rs\<close>): the part of the log that is not yet
  garbage collected, a read cache for older blocks, backfill answers for peers and hash
  queries for the fork receiver. The lemmas show that it refines the plain list of all
  blocks of the chain: garbage collection and the cache cannot be observed.
\<close>

section \<open>Definitions\<close>

subsection \<open>The read cache\<close>

record read_cache =
  rdc_cache :: "(u64 \<times> cached_block) list"
  rdc_working_set_size :: nat

definition read_cache_new :: "nat \<Rightarrow> read_cache result" where
  "read_cache_new wss =
     (if wss = 0 then Inl Explicit_Panic
      else Inr \<lparr>rdc_cache = [], rdc_working_set_size = wss\<rparr>)"

text \<open>\<open>Inl\<close> is \<open>Err\<close>: the block with the least higher number, if there is one.\<close>

definition read_cache_get :: "u64 \<Rightarrow> read_cache \<Rightarrow> cached_block option + cached_block" where
  "read_cache_get n rc =
     (if rdc_cache rc = [] then Inl None
      else case map_of (rdc_cache rc) n of
             Some block \<Rightarrow> Inr block
           | None \<Rightarrow> Inl (map_option snd (List.find (\<lambda>(k, _). n \<le> k) (rdc_cache rc))))"

definition read_cache_put :: "cached_block \<Rightarrow> read_cache \<Rightarrow> read_cache result" where
  "read_cache_put block rc =
     (if length (rdc_cache rc) \<ge> rdc_working_set_size rc then
        (case rdc_cache rc of
           [] \<Rightarrow> Inl Unwrap_None
         | (first, _) # rest \<Rightarrow>
             if cb_n block < first then Inr rc
             else Inr (rc\<lparr>rdc_cache := btree_insert (cb_n block) block rest\<rparr>))
      else Inr (rc\<lparr>rdc_cache := btree_insert (cb_n block) block (rdc_cache rc)\<rparr>))"

subsection \<open>The server\<close>

datatype log_server_query = CheckHash u64 bytes | GetHints u64

datatype log_server_out =
    LS_SendAE string append_entries
  | LS_SendVC string view_change
  | LS_HashReply bool
  | LS_HintsReply "block_hint list"

record log_server =
  ls_bci :: u64
  ls_log :: "cached_block list"
  ls_read_cache :: read_cache
  ls_out :: "log_server_out list"

definition LOGSERVER_READ_CACHE_WSS :: nat where
  "LOGSERVER_READ_CACHE_WSS = 100"

definition log_server_new :: "log_server result" where
  "log_server_new =
     bindE (read_cache_new LOGSERVER_READ_CACHE_WSS) (\<lambda>rc.
       Inr \<lparr>ls_bci = 0, ls_log = [], ls_read_cache = rc, ls_out = []\<rparr>)"

definition ls_last_n :: "log_server \<Rightarrow> u64" where
  "ls_last_n s = (if ls_log s = [] then 0 else cb_n (last (ls_log s)))"

text \<open>
  The loop of \<open>get_gced_block\<close> reads parents from the storage until the number is small
  enough. Nothing in the loop itself bounds it.
\<close>

partial_function (option) gced_loop ::
  "(bytes \<Rightarrow> (io_error + cached_block) result) \<Rightarrow> u64 \<Rightarrow> read_cache \<Rightarrow> cached_block
     \<Rightarrow> (read_cache \<times> cached_block) result option" where
  "gced_loop fetch n rc ret =
     (if cb_n ret > n then
        (case fetch (cb_parent ret) of
           Inl e \<Rightarrow> Some (Inl e)
         | Inr (Inl _) \<Rightarrow> Some (Inl Unwrap_None)
         | Inr (Inr block) \<Rightarrow>
             (case read_cache_put block rc of
                Inl e \<Rightarrow> Some (Inl e)
              | Inr rc' \<Rightarrow> gced_loop fetch n rc' block))
      else Some (Inr (rc, ret)))"

definition get_gced_block ::
  "(bytes \<Rightarrow> (io_error + cached_block) result) \<Rightarrow> u64 \<Rightarrow> log_server
     \<Rightarrow> (log_server \<times> cached_block option) result" where
  "get_gced_block fetch n s =
     (case ls_log s of
        [] \<Rightarrow> Inr (s, None)
      | front # _ \<Rightarrow>
          if n \<ge> cb_n front then Inr (s, None)
          else case read_cache_get n (ls_read_cache s) of
                 Inr block \<Rightarrow> Inr (s, Some block)
               | Inl found \<Rightarrow>
                   (let starting_point = (case found of Some block \<Rightarrow> block | None \<Rightarrow> front)
                    in bindE (returnsE (gced_loop fetch n (ls_read_cache s) starting_point)) (\<lambda>(rc, ret).
                         Inr (s\<lparr>ls_read_cache := rc\<rparr>, Some ret))))"

definition ls_get_block ::
  "(bytes \<Rightarrow> (io_error + cached_block) result) \<Rightarrow> u64 \<Rightarrow> log_server
     \<Rightarrow> (log_server \<times> cached_block option) result" where
  "ls_get_block fetch n s =
     (case ls_log s of
        [] \<Rightarrow> Inr (s, None)
      | front # _ \<Rightarrow>
          if n = 0 \<or> n > cb_n (last (ls_log s)) then Inr (s, None)
          else if n < cb_n front then get_gced_block fetch n s
          else Inr (s, map_option (\<lambda>block_idx. ls_log s ! block_idx)
                         (binary_search cb_n n (ls_log s))))"

text \<open>\<open>fill_fork\<close> walks down from \<open>last_n\<close> and pushes to the front of the queue.\<close>

fun fill_loop ::
  "(bytes \<Rightarrow> (io_error + cached_block) result) \<Rightarrow> (u64 \<rightharpoonup> bytes) \<Rightarrow> u64 list \<Rightarrow> cached_block list
     \<Rightarrow> log_server \<Rightarrow> (log_server \<times> cached_block list) result" where
  "fill_loop fetch hint_map [] fork_queue s = Inr (s, fork_queue)"
| "fill_loop fetch hint_map (i # is) fork_queue s =
     bindE (ls_get_block fetch i s) (\<lambda>(s', found).
       case found of
         None \<Rightarrow> Inr (s', fork_queue)
       | Some block \<Rightarrow>
           if hint_map i = Some (cb_hash block) then Inr (s', fork_queue)
           else fill_loop fetch hint_map is (block # fork_queue) s')"

definition fill_fork ::
  "(bytes \<Rightarrow> (io_error + cached_block) result) \<Rightarrow> u64 \<Rightarrow> u64 \<Rightarrow> block_hint list \<Rightarrow> log_server
     \<Rightarrow> (log_server \<times> proto_fork) result" where
  "fill_fork fetch first_n last_n hints s =
     (if last_n < first_n then Inl Explicit_Panic
      else let hint_map = map_of (rev (map (\<lambda>h. (bh_block_n h, bh_digest h)) hints))
           in bindE (fill_loop fetch hint_map (rev [first_n..<Suc last_n]) [] s) (\<lambda>(s', fork_queue).
                Inr (s', map half_serialize fork_queue)))"

definition respond_backfill ::
  "(bytes \<Rightarrow> (io_error + cached_block) result) \<Rightarrow> backfill_nack \<Rightarrow> log_server \<Rightarrow> log_server result" where
  "respond_backfill fetch nack s =
     (case (case nk_origin nack of
              Some (Origin_Ae ae) \<Rightarrow> ae_fork ae
            | Some (Origin_Vc vc) \<Rightarrow> vc_fork vc
            | None \<Rightarrow> None) of
        None \<Rightarrow> Inr s
      | Some existing_fork \<Rightarrow>
          (let last_n = (if existing_fork = [] then ls_last_n s else hs_n (last existing_fork));
               first_n = nk_last_index_needed nack
           in bindE (fill_fork fetch first_n last_n (nk_hints nack) s) (\<lambda>(s', new_fork).
                case nk_origin nack of
                  Some (Origin_Ae ae) \<Rightarrow>
                    Inr (s'\<lparr>ls_out := ls_out s' @ [LS_SendAE (nk_reply_name nack)
                      (ae\<lparr>ae_fork := Some new_fork, ae_is_backfill_response := True\<rparr>)]\<rparr>)
                | Some (Origin_Vc vc) \<Rightarrow>
                    Inr (s'\<lparr>ls_out := ls_out s' @ [LS_SendVC (nk_reply_name nack)
                      (vc\<lparr>vc_fork := Some new_fork\<rparr>)]\<rparr>)
                | None \<Rightarrow> Inl Unwrap_None)))"

definition JUMP_START :: u64 where
  "JUMP_START = 1000"

definition JUMP_MULTIPLIER :: u64 where
  "JUMP_MULTIPLIER = 10"

definition hint_of :: "cached_block \<Rightarrow> block_hint" where
  "hint_of b = \<lparr>bh_block_n = cb_n b, bh_digest = cb_hash b\<rparr>"

partial_function (option) hints_loop ::
  "(bytes \<Rightarrow> (io_error + cached_block) result) \<Rightarrow> u64 \<Rightarrow> u64 \<Rightarrow> u64 \<Rightarrow> u64 \<Rightarrow> block_hint list
     \<Rightarrow> log_server \<Rightarrow> (log_server \<times> block_hint list) result option" where
  "hints_loop fetch last_n curr_n curr_jump used_for hints s =
     (if curr_n < last_n then
        (case ls_get_block fetch curr_n s of
           Inl e \<Rightarrow> Some (Inl e)
         | Inr (s', found) \<Rightarrow>
             (case found of
                None \<Rightarrow> Some (Inr (s', hints))
              | Some block \<Rightarrow>
                  (if used_for + 1 \<ge> JUMP_MULTIPLIER
                   then hints_loop fetch last_n (curr_n + curr_jump) (curr_jump * JUMP_MULTIPLIER) 0
                          (hints @ [hint_of block]) s'
                   else hints_loop fetch last_n (curr_n + curr_jump) curr_jump (used_for + 1)
                          (hints @ [hint_of block]) s')))
      else Some (Inr (s, hints)))"

fun handle_query ::
  "(bytes \<Rightarrow> (io_error + cached_block) result) \<Rightarrow> log_server_query \<Rightarrow> log_server \<Rightarrow> log_server result" where
  "handle_query fetch (CheckHash n hsh) s =
     (if n = 0 then Inr (s\<lparr>ls_out := ls_out s @ [LS_HashReply True]\<rparr>)
      else bindE (ls_get_block fetch n s) (\<lambda>(s', found).
        case found of
          None \<Rightarrow> Inr (s'\<lparr>ls_out := ls_out s' @ [LS_HashReply False]\<rparr>)
        | Some block \<Rightarrow> Inr (s'\<lparr>ls_out := ls_out s' @ [LS_HashReply (cb_hash block = hsh)]\<rparr>)))"
| "handle_query fetch (GetHints last_needed_n) s =
     (let last_n = ls_last_n s;
          curr_n = (if last_needed_n = 0 then 1 else last_needed_n)
      in bindE (returnsE (hints_loop fetch last_n curr_n JUMP_START 0 [] s)) (\<lambda>(s', hints).
           if last_n > 0 then
             bindE (ls_get_block fetch last_n s') (\<lambda>(s'', found).
               case found of
                 None \<Rightarrow> Inl Explicit_Panic
               | Some block \<Rightarrow>
                   Inr (s''\<lparr>ls_out := ls_out s'' @ [LS_HintsReply (hints @ [hint_of block])]\<rparr>))
           else Inr (s'\<lparr>ls_out := ls_out s' @ [LS_HintsReply hints]\<rparr>)))"

definition ls_handle_new_block :: "cached_block \<Rightarrow> log_server \<Rightarrow> log_server" where
  "ls_handle_new_block block s =
     (let last_n = ls_last_n s
      in if cb_n block \<noteq> last_n + 1 then s
         else if last_n > 0 \<and> cb_parent block \<noteq> cb_hash (last (ls_log s)) then s
         else s\<lparr>ls_log := ls_log s @ [block]\<rparr>)"

definition ls_handle_rollback :: "u64 \<Rightarrow> log_server \<Rightarrow> log_server" where
  "ls_handle_rollback n0 s =
     (let n = (if n0 \<le> ls_bci s then ls_bci s + 1 else n0)
      in s\<lparr>ls_log := filter (\<lambda>b. cb_n b \<le> n) (ls_log s),
           ls_read_cache := (ls_read_cache s)\<lparr>rdc_cache :=
             filter (\<lambda>(k, _). k \<le> n) (rdc_cache (ls_read_cache s))\<rparr>\<rparr>)"

definition ls_handle_gc :: "u64 \<Rightarrow> log_server \<Rightarrow> log_server" where
  "ls_handle_gc gc_req s = s\<lparr>ls_log := filter (\<lambda>b. cb_n b > gc_req) (ls_log s)\<rparr>"

datatype log_server_event =
    LS_Command logserver_command
  | LS_CommandClosed
  | LS_Gc u64
  | LS_Backfill backfill_nack
  | LS_Query log_server_query

fun log_server_worker ::
  "(bytes \<Rightarrow> (io_error + cached_block) result) \<Rightarrow> log_server_event \<Rightarrow> log_server \<Rightarrow> log_server result" where
  "log_server_worker fetch (LS_Command (LS_NewBlock block)) s = Inr (ls_handle_new_block block s)"
| "log_server_worker fetch (LS_Command (LS_Rollback n)) s = Inr (ls_handle_rollback n s)"
| "log_server_worker fetch (LS_Command (LS_UpdateBCI n)) s = Inr (s\<lparr>ls_bci := n\<rparr>)"
| "log_server_worker fetch LS_CommandClosed s = Inl Err_Unit"
| "log_server_worker fetch (LS_Gc gc_req) s = Inr (ls_handle_gc gc_req s)"
| "log_server_worker fetch (LS_Backfill nack) s = respond_backfill fetch nack s"
| "log_server_worker fetch (LS_Query q) s = handle_query fetch q s"

section \<open>The history that the log server stands for\<close>

definition genesis_chain :: "cached_block list \<Rightarrow> bool" where
  "genesis_chain hist \<longleftrightarrow>
     chain cb_n cb_hash cb_parent hist \<and> (hist \<noteq> [] \<longrightarrow> cb_n (hd hist) = 1)"

definition hist_at :: "cached_block list \<Rightarrow> u64 \<Rightarrow> cached_block option" where
  "hist_at hist n = (if n = 0 \<or> length hist < n then None else Some (hist ! (n - 1)))"

lemma genesis_nth: "genesis_chain hist \<Longrightarrow> i < length hist \<Longrightarrow> cb_n (hist ! i) = Suc i"
  using chain_nth_num [of cb_n cb_hash cb_parent hist i] by (force simp: genesis_chain_def)

lemma genesis_last: "genesis_chain hist \<Longrightarrow> hist \<noteq> [] \<Longrightarrow> cb_n (last hist) = length hist"
  by (simp add: last_conv_nth genesis_nth)

lemma genesis_take: "genesis_chain hist \<Longrightarrow> genesis_chain (take k hist)"
  by (cases k) (auto simp: genesis_chain_def chain_takeI hd_take)

lemma genesis_snoc:
  "genesis_chain hist \<Longrightarrow> cb_n b = length hist + 1 \<Longrightarrow>
     (hist \<noteq> [] \<Longrightarrow> cb_parent b = cb_hash (last hist)) \<Longrightarrow> genesis_chain (hist @ [b])"
  using genesis_last [of hist] by (auto simp: genesis_chain_def chain_snoc hd_append)

lemma hist_at_SomeD:
  "hist_at hist n = Some b \<Longrightarrow> 0 < n \<and> n \<le> length hist \<and> b = hist ! (n - 1) \<and> b \<in> set hist"
  by (auto simp: hist_at_def split: if_split_asm)

lemma hist_at_num: "genesis_chain hist \<Longrightarrow> hist_at hist n = Some b \<Longrightarrow> cb_n b = n"
  by (auto simp: hist_at_def genesis_nth split: if_split_asm)

lemma hist_at_Suc: "hist_at hist (Suc i) = (if i < length hist then Some (hist ! i) else None)"
  by (simp add: hist_at_def)

lemma hist_at_parent:
  assumes "genesis_chain hist" and "hist_at hist n = Some b" and "1 < n"
  shows "\<exists>c. hist_at hist (n - 1) = Some c \<and> cb_parent b = cb_hash c"
proof -
  have "Suc (n - 2) < length hist" and b: "b = hist ! Suc (n - 2)"
    using assms(2,3) by (auto simp: hist_at_def numeral_2_eq_2 Suc_diff_Suc split: if_split_asm)
  moreover from this(1) have "cb_parent (hist ! Suc (n - 2)) = cb_hash (hist ! (n - 2))"
    using assms(1) chain_nth_link by (auto simp: genesis_chain_def)
  ultimately show ?thesis using assms(3) by (auto simp: hist_at_def numeral_2_eq_2)
qed

lemma hist_at_take: "hist_at (take k hist) n = (if n \<le> k then hist_at hist n else None)"
  by (auto simp: hist_at_def)

lemma hist_at_append: "hist_at hist n = Some b \<Longrightarrow> hist_at (hist @ ys) n = Some b"
  by (auto simp: hist_at_def nth_append split: if_split_asm)

text \<open>The cache holds blocks of the history below the first block of the log.\<close>

definition cache_ok :: "nat \<Rightarrow> cached_block list \<Rightarrow> read_cache \<Rightarrow> bool" where
  "cache_ok k hist rc \<longleftrightarrow>
     btree_ok (rdc_cache rc) \<and> 0 < rdc_working_set_size rc
     \<and> length (rdc_cache rc) \<le> rdc_working_set_size rc
     \<and> (\<forall>(i, b) \<in> set (rdc_cache rc). i \<le> k \<and> hist_at hist i = Some b)"

text \<open>
  The state \<open>s\<close> stands for the history \<open>hist\<close>: the first \<open>k\<close> blocks are garbage
  collected and can be fetched from the storage, the others are the log.
\<close>

definition log_rel ::
  "(bytes \<Rightarrow> (io_error + cached_block) result) \<Rightarrow> nat \<Rightarrow> cached_block list \<Rightarrow> log_server \<Rightarrow> bool" where
  "log_rel fetch k hist s \<longleftrightarrow>
     genesis_chain hist \<and> ls_log s = drop k hist \<and> (k < length hist \<or> hist = [] \<and> k = 0)
     \<and> (\<forall>i < k. fetch (cb_hash (hist ! i)) = Inr (Inr (hist ! i)))
     \<and> cache_ok k hist (ls_read_cache s)"

lemma log_relD:
  assumes "log_rel fetch k hist s"
  shows "genesis_chain hist" and "ls_log s = drop k hist" and "k < length hist \<or> hist = [] \<and> k = 0"
    and "\<And>i. i < k \<Longrightarrow> fetch (cb_hash (hist ! i)) = Inr (Inr (hist ! i))"
    and "cache_ok k hist (ls_read_cache s)"
  using assms by (auto simp: log_rel_def)

lemma log_rel_last_n: "log_rel fetch k hist s \<Longrightarrow> ls_last_n s = length hist"
  using genesis_last [of hist] by (cases "hist = []") (auto simp: log_rel_def ls_last_n_def)

lemma log_rel_cache: "log_rel fetch k hist s \<Longrightarrow> cache_ok k hist rc \<Longrightarrow>
    log_rel fetch k hist (s\<lparr>ls_read_cache := rc\<rparr>)"
  by (simp add: log_rel_def)

lemma log_rel_out [simp]: "log_rel fetch k hist (s\<lparr>ls_out := x\<rparr>) = log_rel fetch k hist s"
  and log_rel_bci [simp]: "log_rel fetch k hist (s\<lparr>ls_bci := y\<rparr>) = log_rel fetch k hist s"
  by (simp_all add: log_rel_def)

section \<open>Lookups\<close>

lemma cache_put_ok:
  assumes "cache_ok k hist rc" and "hist_at hist (cb_n b) = Some b" and "cb_n b \<le> k"
  shows "\<exists>rc'. read_cache_put b rc = Inr rc' \<and> cache_ok k hist rc'"
proof (cases "length (rdc_cache rc) \<ge> rdc_working_set_size rc")
  case True
  then obtain i c rest where m: "rdc_cache rc = (i, c) # rest"
    using assms(1) by (cases "rdc_cache rc") (auto simp: cache_ok_def)
  have ok: "btree_ok rest" using assms(1) btree_ok_tl [of "rdc_cache rc"] by (simp add: cache_ok_def m)
  have "length (btree_insert (cb_n b) b rest) \<le> rdc_working_set_size rc"
    using length_btree_insert [of "cb_n b" b rest] assms(1) by (simp add: cache_ok_def m)
  with True assms set_btree_insert [of "cb_n b" b rest] btree_ok_insert [OF ok] show ?thesis
    by (auto simp: read_cache_put_def m cache_ok_def)
next
  case False
  have "length (btree_insert (cb_n b) b (rdc_cache rc)) \<le> rdc_working_set_size rc"
    using length_btree_insert [of "cb_n b" b "rdc_cache rc"] False by simp
  with False assms set_btree_insert [of "cb_n b" b "rdc_cache rc"] show ?thesis
    by (auto simp: read_cache_put_def cache_ok_def btree_ok_insert)
qed

lemma cache_get_ok:
  assumes "cache_ok k hist rc"
  shows "read_cache_get n rc = Inr b \<Longrightarrow> hist_at hist n = Some b"
    and "read_cache_get n rc = Inl (Some b) \<Longrightarrow> \<exists>m. n \<le> m \<and> m \<le> k \<and> hist_at hist m = Some b"
  using assms
  by (auto simp: read_cache_get_def cache_ok_def find_Some_iff dest!: map_of_SomeD split: case_splits)
    (metis (mono_tags, lifting) case_prodD nth_mem)

lemma gced_loop_returns:
  assumes "genesis_chain hist" and "hist_at hist m = Some ret" and "0 < n" and "n \<le> m" and "m \<le> Suc k"
    and "\<And>i. i < k \<Longrightarrow> fetch (cb_hash (hist ! i)) = Inr (Inr (hist ! i))" and "cache_ok k hist rc"
  shows "\<exists>rc'. gced_loop fetch n rc ret = Some (Inr (rc', hist ! (n - 1))) \<and> cache_ok k hist rc'"
  using assms(2,4,5,7)
proof (induction m arbitrary: ret rc)
  case 0
  then show ?case by (simp add: hist_at_def)
next
  case (Suc m)
  have num: "cb_n ret = Suc m" using hist_at_num [OF assms(1) Suc.prems(1)] .
  show ?case
  proof (cases "n = Suc m")
    case True
    then show ?thesis
      using Suc.prems num by (subst gced_loop.simps) (auto simp: hist_at_def split: if_split_asm)
  next
    case False
    with Suc.prems assms(3) have "1 < Suc m" by simp
    then obtain c where c: "hist_at hist m = Some c" and par: "cb_parent ret = cb_hash c"
      using hist_at_parent [OF assms(1) Suc.prems(1)] by auto
    have "c = hist ! (m - 1)" and "m - 1 < k"
      using hist_at_SomeD [OF c] Suc.prems(3) by auto
    then have "fetch (cb_hash c) = Inr (Inr c)" using assms(6) by simp
    moreover obtain rc1 where "read_cache_put c rc = Inr rc1" and ok: "cache_ok k hist rc1"
      using cache_put_ok [OF Suc.prems(4), of c] c hist_at_num [OF assms(1) c] Suc.prems(3) by auto
    moreover obtain rc' where "gced_loop fetch n rc1 c = Some (Inr (rc', hist ! (n - 1)))"
      and "cache_ok k hist rc'"
      using Suc.IH [OF c _ _ ok] False Suc.prems(2,3) by auto
    ultimately show ?thesis
      using False Suc.prems(2) num par by (subst gced_loop.simps) auto
  qed
qed

lemma get_gced_block_ok:
  assumes r: "log_rel fetch k hist s" and "0 < n" and "n \<le> k"
  shows "\<exists>rc'. get_gced_block fetch n s = Inr (s\<lparr>ls_read_cache := rc'\<rparr>, hist_at hist n)
     \<and> cache_ok k hist rc'"
proof -
  note D = log_relD [OF r]
  have k: "k < length hist" using D(3) assms(2,3) by auto
  then have log: "ls_log s = hist ! k # drop (Suc k) hist"
    using D(2) by (simp add: Cons_nth_drop_Suc)
  have n: "hist_at hist n = Some (hist ! (n - 1))" using assms k by (simp add: hist_at_def)
  have front: "hist_at hist (Suc k) = Some (hist ! k)" "cb_n (hist ! k) = Suc k"
    using k genesis_nth [OF D(1)] by (simp_all add: hist_at_def)
  show ?thesis
  proof (cases "read_cache_get n (ls_read_cache s)")
    case (Inr b)
    with cache_get_ok(1) [OF D(5) Inr] front assms(3) D(5) show ?thesis
      by (auto simp: get_gced_block_def log intro: exI [of _ "ls_read_cache s"])
  next
    case (Inl found)
    let ?start = "case found of Some block \<Rightarrow> block | None \<Rightarrow> hist ! k"
    have "\<exists>m. n \<le> m \<and> m \<le> Suc k \<and> hist_at hist m = Some ?start"
    proof (cases found)
      case None
      with front(1) assms(3) show ?thesis by (auto intro: exI [of _ "Suc k"])
    next
      case (Some b)
      from cache_get_ok(2) [OF D(5)] Inl Some obtain m where "n \<le> m" "m \<le> k" "hist_at hist m = Some b"
        by blast
      with Some show ?thesis by (auto intro: exI [of _ m])
    qed
    then obtain m where m: "n \<le> m" "m \<le> Suc k" "hist_at hist m = Some ?start" by blast
    from gced_loop_returns [OF D(1) m(3) assms(2) m(1,2) D(4) D(5)]
    obtain rc' where "gced_loop fetch n (ls_read_cache s) ?start = Some (Inr (rc', hist ! (n - 1)))"
      and "cache_ok k hist rc'" by blast
    with Inl front assms(3) n show ?thesis
      by (auto simp: get_gced_block_def log Let_def intro: exI [of _ rc'])
  qed
qed

lemma ls_get_block_ok:
  assumes r: "log_rel fetch k hist s"
  shows "\<exists>rc'. ls_get_block fetch n s = Inr (s\<lparr>ls_read_cache := rc'\<rparr>, hist_at hist n)
     \<and> cache_ok k hist rc'"
proof -
  note D = log_relD [OF r]
  show ?thesis
  proof (cases "n = 0 \<or> length hist < n")
    case True
    then have "ls_get_block fetch n s = Inr (s, None)" and "hist_at hist n = None"
      using log_rel_last_n [OF r]
      by (auto simp: ls_get_block_def hist_at_def ls_last_n_def split: list.split if_split_asm)
    then show ?thesis using D(5) by (auto intro: exI [of _ "ls_read_cache s"])
  next
    case False
    then have k: "k < length hist" using D(3) by auto
    then have log: "ls_log s = hist ! k # drop (Suc k) hist"
      using D(2) by (simp add: Cons_nth_drop_Suc)
    have front: "cb_n (hist ! k) = Suc k" using genesis_nth [OF D(1) k] .
    have last: "cb_n (last (ls_log s)) = length hist"
      using log_rel_last_n [OF r] log by (simp add: ls_last_n_def)
    show ?thesis
    proof (cases "n \<le> k")
      case True
      then obtain rc' where g: "get_gced_block fetch n s = Inr (s\<lparr>ls_read_cache := rc'\<rparr>, hist_at hist n)"
        and "cache_ok k hist rc'"
        using get_gced_block_ok [OF r] False by auto
      moreover have "ls_get_block fetch n s = get_gced_block fetch n s"
        using False True front last by (simp add: ls_get_block_def log)
      ultimately show ?thesis by auto
    next
      case gt: False
      let ?j = "n - 1 - k"
      have "chain cb_n cb_hash cb_parent (ls_log s)"
        using D(1,2) by (simp add: genesis_chain_def chain_dropI)
      then have sorted: "sorted_wrt (\<lambda>x y. cb_n x < cb_n y) (ls_log s)" by (rule chain_strict_sorted)
      have nth: "?j < length (ls_log s)" "ls_log s ! ?j = hist ! (n - 1)"
        using False gt D(2) by auto
      moreover have "cb_n (hist ! (n - 1)) = n" using genesis_nth [OF D(1), of "n - 1"] False by auto
      ultimately have "binary_search cb_n n (ls_log s) = Some ?j"
        using binary_search_sorted [OF sorted, of ?j n] by simp
      moreover have "ls_get_block fetch n s =
          Inr (s, map_option (\<lambda>i. ls_log s ! i) (binary_search cb_n n (ls_log s)))"
        using False gt front last by (simp add: ls_get_block_def log)
      ultimately show ?thesis
        using False nth(2) D(5) by (auto simp: hist_at_def intro!: exI [of _ "ls_read_cache s"])
    qed
  qed
qed

lemma ls_get_block_rel:
  assumes "log_rel fetch k hist s"
  shows "\<exists>s'. ls_get_block fetch n s = Inr (s', hist_at hist n) \<and> log_rel fetch k hist s'
     \<and> ls_out s' = ls_out s \<and> ls_bci s' = ls_bci s"
  using ls_get_block_ok [OF assms, of n] log_rel_cache [OF assms] by fastforce

section \<open>Backfill and hints\<close>

text \<open>What \<open>fill_fork\<close> collects, read off the history.\<close>

fun spec_fill :: "cached_block list \<Rightarrow> (u64 \<rightharpoonup> bytes) \<Rightarrow> u64 list \<Rightarrow> cached_block list \<Rightarrow> cached_block list" where
  "spec_fill hist hint_map [] q = q"
| "spec_fill hist hint_map (i # is) q =
     (case hist_at hist i of
        None \<Rightarrow> q
      | Some b \<Rightarrow> if hint_map i = Some (cb_hash b) then q else spec_fill hist hint_map is (b # q))"

lemma fill_loop_ok:
  assumes "log_rel fetch k hist s"
  shows "\<exists>s'. fill_loop fetch hm is q s = Inr (s', spec_fill hist hm is q) \<and> log_rel fetch k hist s'
     \<and> ls_out s' = ls_out s \<and> ls_bci s' = ls_bci s"
  using assms
proof (induction "is" arbitrary: q s)
  case (Cons i "is")
  from ls_get_block_rel [OF Cons.prems, of i] obtain s1 where
    s1: "ls_get_block fetch i s = Inr (s1, hist_at hist i)" "log_rel fetch k hist s1"
        "ls_out s1 = ls_out s" "ls_bci s1 = ls_bci s" by blast
  show ?case
  proof (cases "hist_at hist i")
    case None
    with s1 show ?thesis by simp
  next
    case (Some b)
    with s1 Cons.IH [OF s1(2), of "b # q"] show ?thesis by auto
  qed
qed simp

lemma spec_fill_segment:
  assumes "m \<le> length hist" and "first \<le> Suc m"
  shows "\<exists>lo. first \<le> lo \<and> 1 \<le> lo \<and> lo \<le> Suc m \<and>
     spec_fill hist hm (rev [first..<Suc m]) q = drop (lo - 1) (take m hist) @ q \<and>
     (lo = max 1 first \<or> hm (lo - 1) = Some (cb_hash (hist ! (lo - 2))))"
  using assms
proof (induction m arbitrary: q)
  case 0
  then show ?case
    by (cases first) (auto intro: exI [of _ 1] simp: hist_at_def)
next
  case (Suc m)
  show ?case
  proof (cases "first \<le> Suc m")
    case False
    with Suc.prems have "first = Suc (Suc m)" by simp
    then show ?thesis by (auto intro: exI [of _ "Suc (Suc m)"])
  next
    case True
    let ?b = "hist ! m"
    have b: "hist_at hist (Suc m) = Some ?b" using Suc.prems by (simp add: hist_at_def)
    have r: "rev [first..<Suc (Suc m)] = Suc m # rev [first..<Suc m]" using True by simp
    show ?thesis
    proof (cases "hm (Suc m) = Some (cb_hash ?b)")
      case True
      with b r \<open>first \<le> Suc m\<close> show ?thesis
        by (auto intro: exI [of _ "Suc (Suc m)"])
    next
      case False
      have t: "take (Suc m) hist = take m hist @ [?b]" using Suc.prems by (simp add: take_Suc_conv_app_nth)
      from Suc.IH [of "?b # q"] Suc.prems(1) \<open>first \<le> Suc m\<close> obtain lo where
        lo: "first \<le> lo" "1 \<le> lo" "lo \<le> Suc m"
        "spec_fill hist hm (rev [first..<Suc m]) (?b # q) = drop (lo - 1) (take m hist) @ ?b # q"
        "lo = max 1 first \<or> hm (lo - 1) = Some (cb_hash (hist ! (lo - 2)))" by auto
      have "lo - 1 \<le> m" using lo(3) by simp
      then have "drop (lo - 1) (take (Suc m) hist) = drop (lo - 1) (take m hist) @ [?b]"
        using Suc.prems(1) by (simp add: t)
      with lo b r False show ?thesis
        by (auto intro!: exI [of _ lo])
    qed
  qed
qed

lemma spec_fill_beyond: "length hist < m \<Longrightarrow> first \<le> m \<Longrightarrow> spec_fill hist hm (rev [first..<Suc m]) [] = []"
  by (simp add: hist_at_def)

lemma hints_loop_ok:
  assumes "log_rel fetch k hist s" and "0 < jump" and "0 < cur" and "last_n \<le> length hist"
    and "\<forall>h \<in> set hints. hist_at hist (bh_block_n h) \<noteq> None \<and>
           bh_digest h = cb_hash (the (hist_at hist (bh_block_n h)))"
  shows "\<exists>s' hints'. hints_loop fetch last_n cur jump used hints s = Some (Inr (s', hints'))
     \<and> log_rel fetch k hist s' \<and> ls_out s' = ls_out s \<and> ls_bci s' = ls_bci s
     \<and> (\<forall>h \<in> set hints'. hist_at hist (bh_block_n h) \<noteq> None \<and>
           bh_digest h = cb_hash (the (hist_at hist (bh_block_n h))))"
  using assms
proof (induction "last_n - cur" arbitrary: cur jump used hints s rule: less_induct)
  case less
  show ?case
  proof (cases "cur < last_n")
    case False
    with less.prems show ?thesis by (subst hints_loop.simps) auto
  next
    case True
    from ls_get_block_rel [OF less.prems(1), of cur] obtain s1 where
      s1: "ls_get_block fetch cur s = Inr (s1, hist_at hist cur)" "log_rel fetch k hist s1"
          "ls_out s1 = ls_out s" "ls_bci s1 = ls_bci s" by blast
    obtain b where b: "hist_at hist cur = Some b"
      using True less.prems(3,4) by (auto simp: hist_at_def)
    have num: "cb_n b = cur"
      using hist_at_num b log_relD(1) [OF less.prems(1)] by blast
    let ?hints = "hints @ [hint_of b]"
    have hints: "\<forall>h \<in> set ?hints. hist_at hist (bh_block_n h) \<noteq> None \<and>
           bh_digest h = cb_hash (the (hist_at hist (bh_block_n h)))"
      using less.prems(5) b num by (auto simp: hint_of_def)
    have dec: "last_n - (cur + jump) < last_n - cur" using True less.prems(2) by simp
    have "0 < jump * JUMP_MULTIPLIER" "0 < cur + jump"
      using less.prems(2) by (simp_all add: JUMP_MULTIPLIER_def)
    note IH = less.hyps [OF dec s1(2) _ this(2) less.prems(4) hints]
    show ?thesis
    proof (cases "used + 1 \<ge> JUMP_MULTIPLIER")
      case big: True
      with IH [of "jump * JUMP_MULTIPLIER" 0] s1 True b \<open>0 < jump * JUMP_MULTIPLIER\<close> show ?thesis
        by (subst hints_loop.simps) simp
    next
      case False
      with IH [of jump "used + 1"] s1 True b less.prems(2) show ?thesis
        by (subst hints_loop.simps) simp
    qed
  qed
qed

section \<open>Refinement\<close>

text \<open>
  The abstract log server: the list of all blocks. Only \<open>NewBlock\<close> and \<open>Rollback\<close> change it.
\<close>

fun spec_log_step :: "u64 \<Rightarrow> log_server_event \<Rightarrow> cached_block list \<Rightarrow> cached_block list" where
  "spec_log_step bci (LS_Command (LS_NewBlock b)) hist =
     (if cb_n b = length hist + 1 \<and> (hist = [] \<or> cb_parent b = cb_hash (last hist)) then hist @ [b]
      else hist)"
| "spec_log_step bci (LS_Command (LS_Rollback n)) hist = take (if n \<le> bci then bci + 1 else n) hist"
| "spec_log_step bci _ hist = hist"

text \<open>
  What the environment guarantees: garbage collection leaves the last block and is only
  asked for stored blocks, a rollback does not go below the garbage collected part, and a
  backfill request does not name an empty range.
\<close>

fun log_event_ok ::
  "(bytes \<Rightarrow> (io_error + cached_block) result) \<Rightarrow> nat \<Rightarrow> cached_block list \<Rightarrow> log_server \<Rightarrow> log_server_event \<Rightarrow> bool" where
  "log_event_ok fetch k hist s LS_CommandClosed = False"
| "log_event_ok fetch k hist s (LS_Gc g) =
     (g < length hist \<and> list_all (\<lambda>b. fetch (cb_hash b) = Inr (Inr b)) (take g hist))"
| "log_event_ok fetch k hist s (LS_Command (LS_Rollback n)) = (k \<le> ls_bci s \<or> k < n)"
| "log_event_ok fetch k hist s (LS_Backfill nack) =
     (case (case nk_origin nack of Some (Origin_Ae ae) \<Rightarrow> ae_fork ae
            | Some (Origin_Vc vc) \<Rightarrow> vc_fork vc | None \<Rightarrow> None) of
        None \<Rightarrow> True
      | Some fork \<Rightarrow> nk_last_index_needed nack \<le> (if fork = [] then length hist else hs_n (last fork)))"
| "log_event_ok fetch k hist s _ = True"

lemma new_block_refines:
  assumes r: "log_rel fetch k hist s"
  shows "log_rel fetch k (spec_log_step (ls_bci s) (LS_Command (LS_NewBlock b)) hist) (ls_handle_new_block b s)"
proof -
  note D = log_relD [OF r]
  have last: "hist \<noteq> [] \<Longrightarrow> last (ls_log s) = last hist" using D(2,3) by auto
  have cache: "cache_ok k (hist @ [b]) (ls_read_cache s)"
    using D(5) hist_at_append [of hist] by (auto simp: cache_ok_def)
  show ?thesis
  proof (cases "cb_n b = length hist + 1 \<and> (hist = [] \<or> cb_parent b = cb_hash (last hist))")
    case True
    then have "genesis_chain (hist @ [b])" using genesis_snoc [OF D(1)] by auto
    moreover have "ls_handle_new_block b s = s\<lparr>ls_log := ls_log s @ [b]\<rparr>"
      using True last log_rel_last_n [OF r] by (auto simp: ls_handle_new_block_def Let_def)
    moreover have "drop k hist @ [b] = drop k (hist @ [b])" using D(3) by auto
    moreover have "(hist @ [b]) ! i = hist ! i" if "i < k" for i
      using D(3) that by (auto simp: nth_append)
    ultimately show ?thesis
      using True D(2,3,4) cache by (simp add: log_rel_def) auto
  next
    case False
    then have "ls_handle_new_block b s = s"
      using last log_rel_last_n [OF r] by (auto simp: ls_handle_new_block_def Let_def)
    with False r show ?thesis by auto
  qed
qed

lemma rollback_refines:
  assumes r: "log_rel fetch k hist s" and ok: "k \<le> ls_bci s \<or> k < n"
  shows "log_rel fetch k (spec_log_step (ls_bci s) (LS_Command (LS_Rollback n)) hist) (ls_handle_rollback n s)"
proof -
  note D = log_relD [OF r]
  define m where "m = (if n \<le> ls_bci s then ls_bci s + 1 else n)"
  have km: "k < m" using ok by (auto simp: m_def)
  have "filter (\<lambda>b. cb_n b \<le> m) (drop k hist) = drop k (take m hist)"
  proof -
    have "chain cb_n cb_hash cb_parent (drop k hist)" using D(1) by (simp add: genesis_chain_def chain_dropI)
    then have "filter (\<lambda>b. cb_n b \<le> m) (drop k hist) = takeWhile (\<lambda>b. cb_n b \<le> m) (drop k hist)"
      by (rule chain_filter_le)
    also have "\<dots> = take (m - k) (drop k hist)"
      using D(1) km by (intro takeWhile_eq_take_P_nth) (auto simp: genesis_nth)
    finally show ?thesis by (simp add: drop_take)
  qed
  moreover have "cache_ok k (take m hist) ((ls_read_cache s)\<lparr>rdc_cache :=
      filter (\<lambda>(i, _). i \<le> m) (rdc_cache (ls_read_cache s))\<rparr>)"
    using D(5) le_trans [OF length_filter_le]
    by (auto simp: cache_ok_def btree_ok_filter hist_at_take split: prod.split)
  ultimately show ?thesis
    using D km genesis_take [OF D(1), of m]
    by (auto simp: log_rel_def ls_handle_rollback_def Let_def m_def [symmetric])
qed

lemma gc_refines:
  assumes r: "log_rel fetch k hist s" and g: "g < length hist"
    and f: "list_all (\<lambda>b. fetch (cb_hash b) = Inr (Inr b)) (take g hist)"
  shows "log_rel fetch (max k g) hist (ls_handle_gc g s)"
proof -
  note D = log_relD [OF r]
  have "filter (\<lambda>b. g < cb_n b) (drop k hist) = drop (max k g) hist"
  proof -
    have "chain cb_n cb_hash cb_parent (drop k hist)" using D(1) by (simp add: genesis_chain_def chain_dropI)
    then have "filter (\<lambda>b. g < cb_n b) (drop k hist) = dropWhile (\<lambda>b. cb_n b \<le> g) (drop k hist)"
      by (rule chain_filter_gt)
    moreover have "takeWhile (\<lambda>b. cb_n b \<le> g) (drop k hist) = take (g - k) (drop k hist)"
      using D(1) g by (intro takeWhile_eq_take_P_nth) (auto simp: genesis_nth)
    moreover have "length (take (g - k) (drop k hist)) = g - k" using g by simp
    ultimately show ?thesis by (simp add: dropWhile_eq_drop max_def)
  qed
  moreover have "fetch (cb_hash (hist ! i)) = Inr (Inr (hist ! i))" if "i < max k g" for i
  proof (cases "i < k")
    case False
    with that g have "hist ! i \<in> set (take g hist)"
      by (auto simp: in_set_conv_nth intro!: exI [of _ i])
    with f show ?thesis by (auto simp: list_all_iff)
  qed (rule D(4))
  moreover have "cache_ok (max k g) hist (ls_read_cache s)"
    using D(5) by (auto simp: cache_ok_def)
  ultimately show ?thesis
    using D g by (auto simp: log_rel_def ls_handle_gc_def)
qed

lemma query_refines:
  assumes r: "log_rel fetch k hist s"
  shows "\<exists>s'. handle_query fetch q s = Inr s' \<and> log_rel fetch k hist s' \<and> ls_bci s' = ls_bci s"
proof (cases q)
  case (CheckHash n h)
  from ls_get_block_rel [OF r, of n] obtain s1 where
    "ls_get_block fetch n s = Inr (s1, hist_at hist n)" "log_rel fetch k hist s1" "ls_bci s1 = ls_bci s"
    by blast
  with r show ?thesis by (cases "hist_at hist n") (auto simp: CheckHash)
next
  case (GetHints n)
  let ?c = "if n = 0 then 1 else n"
  have c: "0 < ?c" by simp
  from hints_loop_ok [OF r _ c, of JUMP_START "ls_last_n s" "[]" 0] obtain s1 hints where
    s1: "hints_loop fetch (ls_last_n s) ?c JUMP_START 0 [] s = Some (Inr (s1, hints))"
        "log_rel fetch k hist s1" "ls_bci s1 = ls_bci s"
    by (auto simp: JUMP_START_def log_rel_last_n [OF r])
  from ls_get_block_rel [OF s1(2), of "ls_last_n s"] obtain s2 where
    s2: "ls_get_block fetch (ls_last_n s) s1 = Inr (s2, hist_at hist (ls_last_n s))"
        "log_rel fetch k hist s2" "ls_bci s2 = ls_bci s1" by blast
  show ?thesis
    using s1 s2 by (auto simp: GetHints Let_def log_rel_last_n [OF r] hist_at_def)
qed

lemma backfill_refines:
  assumes r: "log_rel fetch k hist s" and ok: "log_event_ok fetch k hist s (LS_Backfill nack)"
  shows "\<exists>s'. respond_backfill fetch nack s = Inr s' \<and> log_rel fetch k hist s' \<and> ls_bci s' = ls_bci s"
proof -
  have fill: "\<exists>s' fork. fill_fork fetch first last_n hints s = Inr (s', fork) \<and> log_rel fetch k hist s'
      \<and> ls_bci s' = ls_bci s" if "first \<le> last_n" for first last_n hints
    using that fill_loop_ok [OF r, of "map_of (rev (map (\<lambda>h. (bh_block_n h, bh_digest h)) hints))"
        "rev [first..<Suc last_n]" "[]"]
    by (force simp: fill_fork_def Let_def simp del: upt_Suc)
  let ?fork = "case nk_origin nack of Some (Origin_Ae ae) \<Rightarrow> ae_fork ae
      | Some (Origin_Vc vc) \<Rightarrow> vc_fork vc | None \<Rightarrow> None"
  show ?thesis
  proof (cases ?fork)
    case None
    with r show ?thesis by (simp add: respond_backfill_def)
  next
    case (Some fork)
    let ?last = "if fork = [] then ls_last_n s else hs_n (last fork)"
    have "nk_last_index_needed nack \<le> ?last"
      using ok Some by (auto simp: log_rel_last_n [OF r])
    from fill [OF this, of "nk_hints nack"] obtain s' f where
      "fill_fork fetch (nk_last_index_needed nack) ?last (nk_hints nack) s = Inr (s', f)"
      "log_rel fetch k hist s'" "ls_bci s' = ls_bci s" by blast
    with Some show ?thesis
      by (cases "nk_origin nack") (auto simp: respond_backfill_def Let_def split: nack_origin.split)
  qed
qed

section \<open>Untrusted storage\<close>

text \<open>
  Whatever the storage returns, the blocks that the read cache and \<open>get_gced_block\<close> hand
  out are ancestors of the first block of the log.
\<close>

definition cache_ancestors :: "log_server \<Rightarrow> bool" where
  "cache_ancestors s \<longleftrightarrow>
     (\<forall>(i, b) \<in> set (rdc_cache (ls_read_cache s)). ls_log s \<noteq> [] \<and> ancestor b (hd (ls_log s)))"

lemma read_cache_put_set:
  "read_cache_put b rc = Inr rc' \<Longrightarrow> set (rdc_cache rc') \<subseteq> insert (cb_n b, b) (set (rdc_cache rc))"
  using set_btree_insert [of "cb_n b" b]
  by (fastforce simp: read_cache_put_def split: if_split_asm list.split_asm prod.split_asm)

context block_fetch
begin

lemma gced_loop_ancestor:
  assumes "gced_loop fetch n rc ret = Some (Inr (rc', b))" and "ancestor ret d"
    and "\<forall>(i, c) \<in> set (rdc_cache rc). ancestor c d"
  shows "ancestor b d \<and> (\<forall>(i, c) \<in> set (rdc_cache rc'). ancestor c d)"
proof -
  let ?P = "\<lambda>f (n :: u64) rc ret (y :: (read_cache \<times> cached_block) result). f = fetch \<longrightarrow> (\<forall>rc' b. y = Inr (rc', b) \<longrightarrow> ancestor ret d \<longrightarrow>
      (\<forall>(i, c) \<in> set (rdc_cache rc). ancestor c d) \<longrightarrow>
      ancestor b d \<and> (\<forall>(i, c) \<in> set (rdc_cache rc'). ancestor c d))"
  have step: "?P f n rc ret y"
    if IH: "\<And>f n rc ret y. loop f n rc ret = Some y \<Longrightarrow> ?P f n rc ret y"
      and y: "(if n < cb_n ret then case f (cb_parent ret) of Inl e \<Rightarrow> Some (Inl e)
          | Inr (Inl _) \<Rightarrow> Some (Inl Unwrap_None)
          | Inr (Inr block) \<Rightarrow> (case read_cache_put block rc of Inl e \<Rightarrow> Some (Inl e)
              | Inr rc' \<Rightarrow> loop f n rc' block)
          else Some (Inr (rc, ret))) = Some y" for loop f n rc ret y
  proof (intro impI allI)
    fix rc' b
    assume f: "f = fetch" and yy: "y = Inr (rc', b)" and ret: "ancestor ret d"
      and rc: "\<forall>(i, c) \<in> set (rdc_cache rc). ancestor c d"
    show "ancestor b d \<and> (\<forall>(i, c) \<in> set (rdc_cache rc'). ancestor c d)"
    proof (cases "cb_n ret > n")
      case False
      with y yy ret rc show ?thesis by simp
    next
      case True
      then obtain c rc1 where c: "fetch (cb_parent ret) = Inr (Inr c)"
        and put: "read_cache_put c rc = Inr rc1" and loop: "loop fetch n rc1 c = Some y"
        using y yy f by (auto split: sum.split_asm)
      have "ancestor c d" using fetch_parent_ancestor [OF c ret] .
      moreover from this have "\<forall>(i, c) \<in> set (rdc_cache rc1). ancestor c d"
        using read_cache_put_set [OF put] rc by blast
      ultimately show ?thesis using IH [OF loop] yy by simp
    qed
  qed
  have "?P fetch n rc ret (Inr (rc', b))"
    by (rule gced_loop.raw_induct [where P = ?P]) (erule step, assumption, rule assms(1))
  with assms(2,3) show ?thesis by blast
qed

lemma get_block_ancestor:
  assumes inv: "cache_ancestors s" and get: "ls_get_block fetch n s = Inr (s', Some b)"
  shows "(b \<in> set (ls_log s) \<or> ancestor b (hd (ls_log s))) \<and> ls_log s' = ls_log s \<and> cache_ancestors s'"
proof (cases "ls_log s")
  case Nil
  with get show ?thesis by (simp add: ls_get_block_def)
next
  case (Cons front rest)
  show ?thesis
  proof (cases "n < cb_n front")
    case False
    with get Cons have "s' = s" and "\<exists>i. binary_search cb_n n (ls_log s) = Some i \<and> b = ls_log s ! i"
      by (auto simp: ls_get_block_def split: if_split_asm)
    with inv show ?thesis using binary_search_Some by fastforce
  next
    case True
    with get Cons have g: "get_gced_block fetch n s = Inr (s', Some b)"
      by (auto simp: ls_get_block_def split: if_split_asm)
    show ?thesis
    proof (cases "read_cache_get n (ls_read_cache s)")
      case (Inr c)
      with g True Cons have "b = c" "s' = s" by (auto simp: get_gced_block_def)
      moreover from Inr have "(n, c) \<in> set (rdc_cache (ls_read_cache s))"
        by (auto simp: read_cache_get_def dest: map_of_SomeD split: case_splits)
      ultimately show ?thesis using inv by (auto simp: cache_ancestors_def)
    next
      case (Inl found)
      let ?start = "case found of Some block \<Rightarrow> block | None \<Rightarrow> front"
      from g True Cons Inl obtain rc where
        l: "gced_loop fetch n (ls_read_cache s) ?start = Some (Inr (rc, b))"
        and s': "s' = s\<lparr>ls_read_cache := rc\<rparr>"
        by (auto simp: get_gced_block_def Let_def returnsE_Inr_conv elim!: bindE_InrE)
      have c: "\<forall>(i, c) \<in> set (rdc_cache (ls_read_cache s)). ancestor c front"
        using inv Cons by (auto simp: cache_ancestors_def)
      have "ancestor ?start front"
      proof (cases found)
        case (Some x)
        then obtain i where "(i, x) \<in> set (rdc_cache (ls_read_cache s))"
          using Inl by (auto simp: read_cache_get_def find_Some_iff split: case_splits)
            (metis nth_mem)
        with c Some show ?thesis by auto
      qed (simp add: ancestor_refl)
      from gced_loop_ancestor [OF l this c] show ?thesis
        using Cons by (auto simp: s' cache_ancestors_def)
    qed
  qed
qed

end

section \<open>Properties\<close>


text \<open>Three blocks of a chain and a storage that holds them.\<close>

definition demo_cb :: "u64 \<Rightarrow> cached_block" where
  "demo_cb n = \<lparr>cb_block = (demo_block n 1 [])\<lparr>blk_parent := [of_nat (n - 1)]\<rparr>, cb_ser = [],
     cb_hash = [of_nat n]\<rparr>"

definition demo_fetch :: "bytes \<Rightarrow> (io_error + cached_block) result" where
  "demo_fetch h = Inr (if h = [1] then Inr (demo_cb 1) else if h = [2] then Inr (demo_cb 2)
     else Inl Key_Not_Found)"

definition demo_ls :: log_server where
  "demo_ls = \<lparr>ls_bci = 2, ls_log = [demo_cb 2, demo_cb 3],
     ls_read_cache = \<lparr>rdc_cache = [], rdc_working_set_size = 100\<rparr>, ls_out = []\<rparr>"

lemmas demo_ls_defs = demo_cb_def demo_block_def demo_fetch_def demo_ls_def

lemma demo_ls_rel: "log_rel demo_fetch 1 [demo_cb 1, demo_cb 2, demo_cb 3] demo_ls"
  by (simp add: log_rel_def genesis_chain_def cache_ok_def btree_ok_def demo_ls_defs)


text \<open>
  C34: Looking up a block always returns and gives exactly the block of the history with that
  number, whether it is in the log, in the read cache or only in the storage; numbers outside
  the history give nothing. The state still stands for the same history.
\<close>

theorem ls_get_block_correct:
  assumes "log_rel fetch k hist s"
  shows "\<exists>s'. ls_get_block fetch n s = Inr (s', hist_at hist n) \<and> log_rel fetch k hist s'"
  using ls_get_block_rel [OF assms] by blast

theorem ls_get_block_correct_witness:
  "\<exists>s'. ls_get_block demo_fetch 1 demo_ls = Inr (s', Some (demo_cb 1))"
  using ls_get_block_correct [OF demo_ls_rel, of 1] by (auto simp: hist_at_def)

text \<open>
  C30: A backfill answer is a contiguous segment of the history that ends at \<open>last_n\<close>. It starts
  at the first block that was asked for, unless an earlier stop is justified: then the block
  before the segment is one the requester already has, because its hint carries that
  block's hash.
\<close>

theorem fill_fork_segment:
  assumes "log_rel fetch k hist s" and "first_n \<le> last_n" and "last_n \<le> length hist"
  shows "\<exists>s' lo. fill_fork fetch first_n last_n hints s =
       Inr (s', map half_serialize (drop (lo - 1) (take last_n hist)))
     \<and> first_n \<le> lo \<and> 1 \<le> lo \<and> lo \<le> last_n + 1 \<and> log_rel fetch k hist s'
     \<and> (lo = max 1 first_n \<or>
        (\<exists>h \<in> set hints. bh_block_n h = lo - 1 \<and> bh_digest h = cb_hash (hist ! (lo - 2))))"
proof -
  let ?hm = "map_of (rev (map (\<lambda>h. (bh_block_n h, bh_digest h)) hints))"
  obtain s' where s': "fill_loop fetch ?hm (rev [first_n..<Suc last_n]) [] s =
      Inr (s', spec_fill hist ?hm (rev [first_n..<Suc last_n]) [])" "log_rel fetch k hist s'"
    using fill_loop_ok [OF assms(1)] by blast
  obtain lo where lo: "first_n \<le> lo" "1 \<le> lo" "lo \<le> Suc last_n"
    and seg: "spec_fill hist ?hm (rev [first_n..<Suc last_n]) [] = drop (lo - 1) (take last_n hist)"
    and stop: "lo = max 1 first_n \<or> ?hm (lo - 1) = Some (cb_hash (hist ! (lo - 2)))"
    using spec_fill_segment [OF assms(3), of first_n ?hm "[]"] assms(2) by auto
  have "\<exists>h \<in> set hints. bh_block_n h = lo - 1 \<and> bh_digest h = cb_hash (hist ! (lo - 2))"
    if "?hm (lo - 1) = Some (cb_hash (hist ! (lo - 2)))"
    using map_of_SomeD [OF that] by auto
  with lo s' seg stop assms(2) show ?thesis
    by (auto simp: fill_fork_def Let_def simp del: upt_Suc)
qed

theorem fill_fork_segment_witness:
  "\<exists>s' lo. fill_fork demo_fetch 1 3 [\<lparr>bh_block_n = 1, bh_digest = [1]\<rparr>] demo_ls =
       Inr (s', map half_serialize (drop (lo - 1) [demo_cb 1, demo_cb 2, demo_cb 3])) \<and> lo \<le> 4"
  using fill_fork_segment [OF demo_ls_rel, of 1 3 "[\<lparr>bh_block_n = 1, bh_digest = [1]\<rparr>]"]
  by auto

text \<open>
  The storage is not trusted. Whatever bytes the storage returns, a block that
  \<open>get_block\<close> hands out is in the log or is linked to the first block of the log by a path of
  parent hashes, and so are the blocks that the read cache keeps: a changed disk can make the
  server fail, but not serve a block outside its chain.
\<close>

theorem get_block_untrusted_storage:
  assumes "cache_ancestors s"
    and "ls_get_block (storage_get_block ft rl lib db) n s = Inr (s', Some b)"
  shows "(b \<in> set (ls_log s) \<or> ancestor b (hd (ls_log s))) \<and> ls_log s' = ls_log s \<and> cache_ancestors s'"
  using assms by (rule sto.get_block_ancestor)

theorem get_block_untrusted_storage_witness:
  "\<exists>s' b. ls_get_block (storage_get_block pirateship demo_rocks (demo_lib (demo_block 1 1 [])) Map.empty)
       3 demo_ls = Inr (s', Some b) \<and> cache_ancestors s'"
proof -
  have g: "ls_get_block (storage_get_block pirateship demo_rocks (demo_lib (demo_block 1 1 [])) Map.empty)
      3 demo_ls = Inr (demo_ls, Some (demo_cb 3))"
    by (simp add: ls_get_block_def demo_ls_defs binary_search_def bsearch_loop.simps Let_def)
  have "cache_ancestors demo_ls" by (simp add: cache_ancestors_def demo_ls_def)
  from get_block_untrusted_storage [OF this g] g show ?thesis by blast
qed

text \<open>
  A rollback at or below the Byzantine commit index keeps one block too many. The limit is
  raised to \<open>bci + 1\<close>, so the uncommitted block \<open>bci + 1\<close> of the abandoned fork stays in the
  log, and the block with that number of the new fork is then refused.
\<close>

theorem rollback_keeps_abandoned_block:
  assumes "log_rel fetch k hist s" and "k \<le> ls_bci s" and "n \<le> ls_bci s" and "ls_bci s < length hist"
    and "cb_n b = ls_bci s + 1"
  shows "last (ls_log (ls_handle_rollback n s)) = hist ! ls_bci s
     \<and> ls_handle_new_block b (ls_handle_rollback n s) = ls_handle_rollback n s"
proof -
  let ?s = "ls_handle_rollback n s" and ?h = "take (ls_bci s + 1) hist"
  have r: "log_rel fetch k ?h ?s"
    using rollback_refines [OF assms(1), of n] assms(2,3) by simp
  then have n: "ls_last_n ?s = ls_bci s + 1"
    using log_rel_last_n [OF r] assms(4) by simp
  have "last (drop k ?h) = last ?h" using assms(2,4) by (intro last_drop) simp
  also have "last ?h = hist ! ls_bci s" using assms(4) by (simp add: take_Suc_conv_app_nth)
  finally have "last (ls_log ?s) = hist ! ls_bci s" using log_relD(2) [OF r] by simp
  with n assms(5) show ?thesis by (simp add: ls_handle_new_block_def Let_def)
qed

theorem rollback_keeps_abandoned_block_witness:
  "last (ls_log (ls_handle_rollback 1 demo_ls)) = demo_cb 3"
  using rollback_keeps_abandoned_block [OF demo_ls_rel, of 1 "demo_cb 3"]
  by (simp add: demo_ls_def demo_cb_def demo_block_def)

text \<open>
  A backfill request whose \<open>last_index_needed\<close> is beyond the last block of the fork it
  carries stops the log server: \<open>fill_fork\<close> panics on the empty range, whatever the state.
\<close>

theorem backfill_empty_range_panics:
  assumes "nk_origin nack = Some (Origin_Ae ae)" and "ae_fork ae = Some fork" and "fork \<noteq> []"
    and "hs_n (last fork) < nk_last_index_needed nack"
  shows "log_server_worker fetch (LS_Backfill nack) s = Inl Explicit_Panic"
  using assms by (simp add: respond_backfill_def fill_fork_def Let_def)

definition demo_ae :: append_entries where
  "demo_ae = \<lparr>ae_fork = Some [half_serialize (demo_cb 3)], ae_commit_index = 0, ae_view = 1,
     ae_view_is_stable = True, ae_config_num = 1, ae_is_backfill_response = False\<rparr>"

theorem backfill_empty_range_panics_witness:
  "log_server_worker demo_fetch (LS_Backfill \<lparr>nk_origin = Some (Origin_Ae demo_ae), nk_hints = [],
      nk_last_index_needed = 9, nk_reply_name = ''node2''\<rparr>) demo_ls = Inl Explicit_Panic"
  by (rule backfill_empty_range_panics [where ae = demo_ae and fork = "[half_serialize (demo_cb 3)]"])
    (simp_all add: demo_ae_def demo_cb_def demo_block_def)

end
