(* ===== verification/LogPort.thy ===== *)
theory LogPort
  imports LogServer
begin

text \<open>
  The log server as its clients see it. The pacemaker and the fork receiver send a query
  with a fresh reply channel and wait for the answer (the macro \<open>ask_logserver!\<close>). A
  \<open>log_port\<close> is the pair of these two conversations; \<open>log_port_of\<close> is the port that the
  modelled log server offers. What clients rely on is the contract \<open>log_answers\<close>.
\<close>

section \<open>Definitions\<close>

record log_port =
  port_check_hash :: "u64 \<Rightarrow> bytes \<Rightarrow> bool result"
  port_get_hints :: "u64 \<Rightarrow> block_hint list result"

text \<open>No reply on the channel is \<open>recv().await.unwrap()\<close> on a closed channel.\<close>

definition ask_check_hash ::
  "(bytes \<Rightarrow> (io_error + cached_block) result) \<Rightarrow> log_server \<Rightarrow> u64 \<Rightarrow> bytes \<Rightarrow> bool result" where
  "ask_check_hash fetch s n h =
     bindE (handle_query fetch (CheckHash n h) (s\<lparr>ls_out := []\<rparr>)) (\<lambda>s'.
       case ls_out s' of [LS_HashReply b] \<Rightarrow> Inr b | _ \<Rightarrow> Inl Unwrap_None)"

definition ask_get_hints ::
  "(bytes \<Rightarrow> (io_error + cached_block) result) \<Rightarrow> log_server \<Rightarrow> u64 \<Rightarrow> block_hint list result" where
  "ask_get_hints fetch s n =
     bindE (handle_query fetch (GetHints n) (s\<lparr>ls_out := []\<rparr>)) (\<lambda>s'.
       case ls_out s' of [LS_HintsReply hints] \<Rightarrow> Inr hints | _ \<Rightarrow> Inl Unwrap_None)"

definition log_port_of ::
  "(bytes \<Rightarrow> (io_error + cached_block) result) \<Rightarrow> log_server \<Rightarrow> log_port" where
  "log_port_of fetch s =
     \<lparr>port_check_hash = ask_check_hash fetch s, port_get_hints = ask_get_hints fetch s\<rparr>"

section \<open>The contract\<close>

locale log_answers =
  fixes port :: log_port and known :: "u64 \<Rightarrow> bytes \<Rightarrow> bool"
  assumes check_hash_sound: "port_check_hash port n h = Inr b \<Longrightarrow> b \<longleftrightarrow> known n h"
begin

lemma check_hash_cases:
  "(\<exists>f. port_check_hash port n h = Inl f) \<or> port_check_hash port n h = Inr (known n h)"
  using check_hash_sound by (cases "port_check_hash port n h") auto

end

text \<open>What a log server knows: number 0, and the hash of the block it finds for a number.\<close>

definition ls_knows ::
  "(bytes \<Rightarrow> (io_error + cached_block) result) \<Rightarrow> log_server \<Rightarrow> u64 \<Rightarrow> bytes \<Rightarrow> bool" where
  "ls_knows fetch s n h \<longleftrightarrow>
     n = 0 \<or> (case ls_get_block fetch n (s\<lparr>ls_out := []\<rparr>) of
                Inr (_, Some b) \<Rightarrow> cb_hash b = h | _ \<Rightarrow> False)"

lemma ls_get_block_out:
  "ls_get_block fetch n s = Inr (s', r) \<Longrightarrow> ls_out s' = ls_out s"
  by (auto simp: ls_get_block_def get_gced_block_def Let_def
      split: list.splits if_split_asm sum.splits elim!: bindE_InrE)

interpretation server: log_answers "log_port_of fetch s" "ls_knows fetch s" for fetch s
proof unfold_locales
  fix n h b
  assume "port_check_hash (log_port_of fetch s) n h = Inr b"
  then show "b \<longleftrightarrow> ls_knows fetch s n h"
    using ls_get_block_out [of fetch n "s\<lparr>ls_out := []\<rparr>"]
    by (cases "ls_get_block fetch n (s\<lparr>ls_out := []\<rparr>)")
      (auto simp: log_port_of_def ask_check_hash_def ls_knows_def split: if_split_asm option.splits)
qed

lemma check_hash_0: "port_check_hash (log_port_of fetch s) 0 h = Inr True"
  by (simp add: log_port_of_def ask_check_hash_def)

text \<open>A server that stands for a history knows exactly the hashes of that history.\<close>

lemma log_rel_port:
  assumes r: "log_rel fetch k hist s"
  shows "port_check_hash (log_port_of fetch s) n h
           = Inr (n = 0 \<or> (\<exists>b. hist_at hist n = Some b \<and> cb_hash b = h))"
proof -
  have "log_rel fetch k hist (s\<lparr>ls_out := []\<rparr>)" using r by simp
  from ls_get_block_rel [OF this, of n] obtain s1 where
    "ls_get_block fetch n (s\<lparr>ls_out := []\<rparr>) = Inr (s1, hist_at hist n)" by blast
  moreover from ls_get_block_out [OF this] have "ls_out s1 = []" by simp
  ultimately show ?thesis
    by (cases "hist_at hist n") (auto simp: log_port_of_def ask_check_hash_def hist_at_def)
qed

lemma hints_loop_out:
  "hints_loop fetch last_n c j u hints s = Some r \<Longrightarrow>
     (\<forall>s' hs. r = Inr (s', hs) \<longrightarrow> ls_out s' = ls_out s)"
proof (erule hints_loop.raw_induct [rotated])
  fix loop fetch last_n c j u hints s r
  assume IH: "\<And>fetch last_n c j u hints s r. loop fetch last_n c j u hints s = Some r \<Longrightarrow>
      \<forall>s' hs. r = Inr (s', hs) \<longrightarrow> ls_out s' = ls_out s"
    and step: "(if c < last_n then
        (case ls_get_block fetch c s of
           Inl e \<Rightarrow> Some (Inl e)
         | Inr (s', found) \<Rightarrow>
             (case found of
                None \<Rightarrow> Some (Inr (s', hints))
              | Some block \<Rightarrow>
                  (if u + 1 \<ge> JUMP_MULTIPLIER
                   then loop fetch last_n (c + j) (j * JUMP_MULTIPLIER) 0 (hints @ [hint_of block]) s'
                   else loop fetch last_n (c + j) j (u + 1) (hints @ [hint_of block]) s')))
      else Some (Inr (s, hints))) = Some r"
  show "\<forall>s' hs. r = Inr (s', hs) \<longrightarrow> ls_out s' = ls_out s"
    using step ls_get_block_out [of fetch c s]
    by (auto split: if_split_asm sum.split_asm option.split_asm prod.split_asm dest!: IH)
qed

lemma hints_loop_out_Inr:
  "hints_loop fetch last_n c j u hints s = Some (Inr (s', hs)) \<Longrightarrow> ls_out s' = ls_out s"
  using hints_loop_out by blast

lemma log_rel_hints:
  assumes r: "log_rel fetch k hist s"
  shows "\<exists>hints. port_get_hints (log_port_of fetch s) n = Inr hints"
proof -
  have rel: "log_rel fetch k hist (s\<lparr>ls_out := []\<rparr>)" using r by simp
  have "\<exists>hints. ls_out s' = [LS_HintsReply hints]"
    if q: "handle_query fetch (GetHints n) (s\<lparr>ls_out := []\<rparr>) = Inr s'" for s'
    using q by (auto simp: Let_def returnsE_Inr_conv split: if_split_asm option.splits
        elim!: bindE_InrE dest!: ls_get_block_out hints_loop_out_Inr)
  with query_refines [OF rel, of "GetHints n"] show ?thesis
    by (auto simp: log_port_of_def ask_get_hints_def)
qed

end
