(* ===== verification/Pacemaker.thy ===== *)
theory Pacemaker
  imports LogPort Quorums
begin

text \<open>
  The pacemaker (\<open>src/consensus/pacemaker.rs\<close>): it collects view change messages, tells
  staging to move to a view once enough nodes ask for it, and hands staging the forks of
  a quorum once it has them. The lemmas show that staging gets the forks of a view at
  most once, from a full quorum of senders that all asked for that view, and that it does
  get them as soon as a quorum has spoken.
\<close>

section \<open>Definitions\<close>

datatype pacemaker_out =
    PM_ToStaging pacemaker_command
  | PM_SendNack string backfill_nack
  | PM_QueryReply bool

type_synonym vc_map = "(sender_type \<times> view_change) list"

record pacemaker =
  pm_view_num :: u64
  pm_config_num :: u64
  pm_last_view_notified :: u64
  pm_last_new_viewed_view :: u64
  pm_bci :: u64
  pm_vc_buffer :: "((u64 \<times> u64) \<times> vc_map) list"
  pm_out :: "pacemaker_out list"

definition pacemaker_new :: pacemaker where
  "pacemaker_new =
     \<lparr>pm_view_num = 0, pm_config_num = 0, pm_last_view_notified = 0,
      pm_last_new_viewed_view = 0, pm_bci = 0, pm_vc_buffer = [], pm_out = []\<rparr>"

definition pm_emit :: "pacemaker_out \<Rightarrow> pacemaker \<Rightarrow> pacemaker" where
  "pm_emit m s = s\<lparr>pm_out := pm_out s @ [m]\<rparr>"

text \<open>The number and the hash that the fork of a view change message hangs off.\<close>

definition vc_fork_parent :: "view_change \<Rightarrow> (u64 \<times> bytes) result" where
  "vc_fork_parent vc =
     (case vc_fork vc of
        Some (first_block # _) \<Rightarrow>
          bindE (unwrap (get_parent_hash_in_proto_block_ser (hs_body first_block))) (\<lambda>parent_hash.
            Inr (u64_sub (hs_n first_block) 1, parent_hash))
      | _ \<Rightarrow> Inr (0, []))"

definition pm_send_nack ::
  "config \<Rightarrow> sender_type \<Rightarrow> view_change \<Rightarrow> block_hint list \<Rightarrow> pacemaker \<Rightarrow> pacemaker" where
  "pm_send_nack cfg sender vc hints s =
     pm_emit (PM_SendNack (fst (to_name_and_sub_id sender))
       \<lparr>nk_origin = Some (Origin_Vc vc), nk_hints = hints,
        nk_last_index_needed = pm_bci s, nk_reply_name = net_name cfg\<rparr>) s"

text \<open>The tail of \<open>handle_view_change\<close>: buffer the message and notify staging.\<close>

definition notify_view ::
  "features \<Rightarrow> consensus_config \<Rightarrow> u64 \<Rightarrow> u64 \<Rightarrow> vc_map \<Rightarrow> pacemaker \<Rightarrow> pacemaker" where
  "notify_view ft cc view config buf s =
     (if length buf \<ge> pacemaker_view_update_threshold ft cc \<and> view > pm_last_view_notified s
      then (pm_emit (PM_ToStaging (PM_UpdateView view config)) s)\<lparr>pm_last_view_notified := view\<rparr>
      else s)"

definition notify_forks ::
  "features \<Rightarrow> consensus_config \<Rightarrow> u64 \<Rightarrow> u64 \<Rightarrow> vc_map \<Rightarrow> pacemaker \<Rightarrow> pacemaker" where
  "notify_forks ft cc view config buf s =
     (if length buf \<ge> new_view_bcast_threshold ft cc \<and> view > pm_last_new_viewed_view s
      then (pm_emit (PM_ToStaging (NewViewForks view config buf)) s)
             \<lparr>pm_vc_buffer := AList.delete (view, config) (pm_vc_buffer s),
              pm_last_new_viewed_view := view\<rparr>
      else s)"

definition buffer_of :: "u64 \<times> u64 \<Rightarrow> pacemaker \<Rightarrow> vc_map" where
  "buffer_of key s = (case map_of (pm_vc_buffer s) key of None \<Rightarrow> [] | Some buf \<Rightarrow> buf)"

definition buffer_view_change ::
  "features \<Rightarrow> consensus_config \<Rightarrow> view_change \<Rightarrow> sender_type \<Rightarrow> pacemaker \<Rightarrow> pacemaker" where
  "buffer_view_change ft cc vc sender s =
     (let key = (vc_view vc, vc_config_num vc);
          buf = AList.update sender vc (buffer_of key s);
          s1 = s\<lparr>pm_vc_buffer := AList.update key buf (pm_vc_buffer s)\<rparr>
      in notify_forks ft cc (vc_view vc) (vc_config_num vc) buf
           (notify_view ft cc (vc_view vc) (vc_config_num vc) buf s1))"

definition handle_view_change ::
  "features \<Rightarrow> config \<Rightarrow> log_port \<Rightarrow> view_change \<Rightarrow> sender_type \<Rightarrow> pacemaker \<Rightarrow> pacemaker result" where
  "handle_view_change ft cfg port vc sender s =
     (if vc_view vc < pm_view_num s \<or> vc_config_num vc < pm_config_num s then Inr s
      else if pm_last_new_viewed_view s \<ge> vc_view vc then Inr s
      else bindE (vc_fork_parent vc) (\<lambda>(fork_parent_n, fork_parent_hash).
           bindE (port_check_hash port fork_parent_n fork_parent_hash) (\<lambda>hash_match.
             if \<not> hash_match \<and> fork_parent_n \<le> pm_bci s then Inr s
             else if \<not> hash_match then
               bindE (port_get_hints port (pm_bci s)) (\<lambda>hints.
                 Inr (pm_send_nack cfg sender vc hints s))
             else Inr (buffer_view_change ft (consensus cfg) vc sender s))))"

definition handle_my_view_jump ::
  "features \<Rightarrow> config \<Rightarrow> log_port \<Rightarrow> u64 \<Rightarrow> u64 \<Rightarrow> view_change \<Rightarrow> pacemaker \<Rightarrow> pacemaker result" where
  "handle_my_view_jump ft cfg port view_num config_num vc s =
     handle_view_change ft cfg port vc (Auth (net_name cfg) 0)
       (s\<lparr>pm_vc_buffer := filter (\<lambda>((view, config), _). view \<ge> view_num \<and> config \<ge> config_num)
            (pm_vc_buffer s)\<rparr>)"

definition query_enough ::
  "features \<Rightarrow> consensus_config \<Rightarrow> u64 \<Rightarrow> u64 \<Rightarrow> pacemaker \<Rightarrow> bool" where
  "query_enough ft cc view config s \<longleftrightarrow>
     pm_last_new_viewed_view s \<ge> view
     \<or> length (buffer_of (view, config) s) \<ge> new_view_bcast_threshold ft cc"

datatype pacemaker_event =
    PM_ViewChange "(view_change \<times> sender_type) option"
  | PM_Command "pacemaker_command option"

fun pacemaker_worker ::
  "features \<Rightarrow> config \<Rightarrow> log_port \<Rightarrow> pacemaker_event \<Rightarrow> pacemaker \<Rightarrow> pacemaker result" where
  "pacemaker_worker ft cfg port (PM_ViewChange (Some (vc, sender))) s =
     handle_view_change ft cfg port vc sender s"
| "pacemaker_worker ft cfg port (PM_Command (Some (MyViewJumped view_num config_num vc))) s =
     handle_my_view_jump ft cfg port view_num config_num vc s"
| "pacemaker_worker ft cfg port (PM_Command (Some (PM_UpdateBCI bci))) s = Inr (s\<lparr>pm_bci := bci\<rparr>)"
| "pacemaker_worker ft cfg port (PM_Command (Some (QueryEnoughVCMsg view config))) s =
     Inr (pm_emit (PM_QueryReply (query_enough ft (consensus cfg) view config s)) s)"
| "pacemaker_worker ft cfg port _ s = Inr s"

definition pacemaker_run ::
  "features \<Rightarrow> config \<Rightarrow> (log_port \<times> pacemaker_event) list \<Rightarrow> pacemaker \<Rightarrow> pacemaker result" where
  "pacemaker_run ft cfg evs s = foldE (\<lambda>(port, ev). pacemaker_worker ft cfg port ev) evs s"

section \<open>What a run has received and sent\<close>

fun vc_of_event :: "config \<Rightarrow> pacemaker_event \<Rightarrow> (sender_type \<times> view_change) option" where
  "vc_of_event cfg (PM_ViewChange (Some (vc, sender))) = Some (sender, vc)"
| "vc_of_event cfg (PM_Command (Some (MyViewJumped _ _ vc))) = Some (Auth (net_name cfg) 0, vc)"
| "vc_of_event cfg _ = None"

definition anchored :: "log_port \<Rightarrow> view_change \<Rightarrow> bool" where
  "anchored port vc \<longleftrightarrow>
     (\<exists>n h. vc_fork_parent vc = Inr (n, h) \<and> port_check_hash port n h = Inr True)"

text \<open>The messages that arrived with a fork that the log server could place.\<close>

definition received :: "config \<Rightarrow> (log_port \<times> pacemaker_event) list \<Rightarrow> (sender_type \<times> view_change) set" where
  "received cfg evs =
     {(x, vc). \<exists>(port, ev) \<in> set evs. vc_of_event cfg ev = Some (x, vc) \<and> anchored port vc}"

fun fork_msgs :: "pacemaker_out list \<Rightarrow> (u64 \<times> u64 \<times> vc_map) list" where
  "fork_msgs [] = []"
| "fork_msgs (PM_ToStaging (NewViewForks v c forks) # os) = (v, c, forks) # fork_msgs os"
| "fork_msgs (_ # os) = fork_msgs os"

lemma fork_msgs_append: "fork_msgs (xs @ ys) = fork_msgs xs @ fork_msgs ys"
  by (induction xs rule: fork_msgs.induct) auto

lemma in_fork_msgs: "(v, c, forks) \<in> set (fork_msgs os) \<longleftrightarrow> PM_ToStaging (NewViewForks v c forks) \<in> set os"
  by (induction os rule: fork_msgs.induct) auto

lemma received_mono: "set evs \<subseteq> set evs' \<Longrightarrow> received cfg evs \<subseteq> received cfg evs'"
  by (auto simp: received_def)

lemma received_snoc:
  "received cfg (evs @ [(port, ev)]) = received cfg evs
     \<union> {(x, vc). vc_of_event cfg ev = Some (x, vc) \<and> anchored port vc}"
  by (auto simp: received_def)

section \<open>The invariant\<close>

definition vcs_ok :: "(sender_type \<times> view_change) set \<Rightarrow> u64 \<times> u64 \<Rightarrow> vc_map \<Rightarrow> bool" where
  "vcs_ok R key buf \<longleftrightarrow>
     keys_distinct buf \<and> set buf \<subseteq> R \<and> (\<forall>(x, vc) \<in> set buf. (vc_view vc, vc_config_num vc) = key)"

definition quorum_forks ::
  "features \<Rightarrow> consensus_config \<Rightarrow> (sender_type \<times> view_change) set \<Rightarrow> u64 \<times> u64 \<times> vc_map \<Rightarrow> bool" where
  "quorum_forks ft cc R m \<longleftrightarrow>
     (case m of (v, c, forks) \<Rightarrow> vcs_ok R (v, c) forks \<and> new_view_bcast_threshold ft cc \<le> length forks)"

definition pm_inv :: "features \<Rightarrow> consensus_config \<Rightarrow> (sender_type \<times> view_change) set \<Rightarrow> pacemaker \<Rightarrow> bool" where
  "pm_inv ft cc R s \<longleftrightarrow>
     (\<forall>key buf. map_of (pm_vc_buffer s) key = Some buf \<longrightarrow> vcs_ok R key buf)
     \<and> list_all (quorum_forks ft cc R) (fork_msgs (pm_out s))
     \<and> sorted_wrt (<) (map fst (fork_msgs (pm_out s)))
     \<and> (\<forall>v \<in> fst ` set (fork_msgs (pm_out s)). v \<le> pm_last_new_viewed_view s)
     \<and> (pm_last_new_viewed_view s = 0 \<or> pm_last_new_viewed_view s \<in> fst ` set (fork_msgs (pm_out s)))
     \<and> pm_view_num s = 0 \<and> pm_config_num s = 0 \<and> keys_distinct (pm_vc_buffer s)"

lemma pm_invD:
  assumes "pm_inv ft cc R s"
  shows "\<And>key buf. map_of (pm_vc_buffer s) key = Some buf \<Longrightarrow> vcs_ok R key buf"
    and "list_all (quorum_forks ft cc R) (fork_msgs (pm_out s))"
    and "sorted_wrt (<) (map fst (fork_msgs (pm_out s)))"
    and "\<And>v. v \<in> fst ` set (fork_msgs (pm_out s)) \<Longrightarrow> v \<le> pm_last_new_viewed_view s"
    and "pm_last_new_viewed_view s = 0 \<or> pm_last_new_viewed_view s \<in> fst ` set (fork_msgs (pm_out s))"
    and "pm_view_num s = 0" and "pm_config_num s = 0" and "keys_distinct (pm_vc_buffer s)"
  using assms by (auto simp: pm_inv_def)

lemma vcs_ok_mono: "vcs_ok R key buf \<Longrightarrow> R \<subseteq> R' \<Longrightarrow> vcs_ok R' key buf"
  by (auto simp: vcs_ok_def)

lemma quorum_forks_mono: "quorum_forks ft cc R m \<Longrightarrow> R \<subseteq> R' \<Longrightarrow> quorum_forks ft cc R' m"
  by (auto simp: quorum_forks_def dest: vcs_ok_mono)

lemma pm_inv_mono: "pm_inv ft cc R s \<Longrightarrow> R \<subseteq> R' \<Longrightarrow> pm_inv ft cc R' s"
  unfolding pm_inv_def by (blast intro: vcs_ok_mono quorum_forks_mono list.pred_mono_strong)

lemma pm_inv_new: "pm_inv ft cc R pacemaker_new"
  by (simp add: pm_inv_def pacemaker_new_def)

lemma vcs_ok_buffer_of: "pm_inv ft cc R s \<Longrightarrow> vcs_ok R key (buffer_of key s)"
  by (auto simp: buffer_of_def vcs_ok_def dest!: pm_invD(1) [of _ _ _ _ key] split: option.split)

lemma vcs_ok_update:
  assumes "vcs_ok R key buf" and "(vc_view vc, vc_config_num vc) = key" and "(x, vc) \<in> R"
  shows "vcs_ok R key (AList.update x vc buf)"
proof -
  have "set (AList.update x vc buf) \<subseteq> insert (x, vc) (set buf)"
    by (induction buf) auto
  with assms show ?thesis by (fastforce simp: vcs_ok_def)
qed

lemma notify_view_inv:
  "pm_inv ft cc R s \<Longrightarrow> pm_inv ft cc R (notify_view ft cc v c buf s)"
  by (auto simp: pm_inv_def notify_view_def pm_emit_def fork_msgs_append)

lemma notify_view_simps [simp]:
  "pm_vc_buffer (notify_view ft cc v c buf s) = pm_vc_buffer s"
  "pm_last_new_viewed_view (notify_view ft cc v c buf s) = pm_last_new_viewed_view s"
  by (simp_all add: notify_view_def pm_emit_def)

lemma notify_forks_inv:
  assumes inv: "pm_inv ft cc R s" and buf: "vcs_ok R (v, c) buf"
  shows "pm_inv ft cc R (notify_forks ft cc v c buf s)"
proof -
  note D = pm_invD [OF inv]
  have less: "\<forall>x \<in> set (fork_msgs (pm_out s)). fst x < v" if "pm_last_new_viewed_view s < v"
    using D(4) that by (meson imageI le_less_trans)
  have "vcs_ok R key b" if "map_of (AList.delete (v, c) (pm_vc_buffer s)) key = Some b" for key b
    using that D(1) by (auto simp del: map_of_eq_Some_iff split: if_split_asm)
  with D(2,3,6-8) less buf inv show ?thesis
    by (auto simp del: map_of_eq_Some_iff simp: pm_inv_def notify_forks_def pm_emit_def
        fork_msgs_append sorted_wrt_append quorum_forks_def intro: less_imp_le)
qed

lemma buffer_view_change_inv:
  assumes inv: "pm_inv ft cc R s" and "(x, vc) \<in> R"
  shows "pm_inv ft cc R (buffer_view_change ft cc vc x s)"
proof -
  let ?key = "(vc_view vc, vc_config_num vc)"
  let ?buf = "AList.update x vc (buffer_of ?key s)"
  have buf: "vcs_ok R ?key ?buf"
    by (rule vcs_ok_update [OF vcs_ok_buffer_of [OF inv] refl assms(2)])
  with inv have "pm_inv ft cc R (s\<lparr>pm_vc_buffer := AList.update ?key ?buf (pm_vc_buffer s)\<rparr>)"
    by (simp add: pm_inv_def)
  then show ?thesis
    unfolding buffer_view_change_def Let_def by (intro notify_forks_inv notify_view_inv buf)
qed

lemma pm_inv_filter: "pm_inv ft cc R s \<Longrightarrow> pm_inv ft cc R (s\<lparr>pm_vc_buffer := filter P (pm_vc_buffer s)\<rparr>)"
  by (auto simp: pm_inv_def map_of_eq_Some_iff)

lemma handle_view_change_inv:
  assumes "pm_inv ft (consensus cfg) R s" and "handle_view_change ft cfg port vc x s = Inr s'"
    and "anchored port vc \<Longrightarrow> (x, vc) \<in> R"
  shows "pm_inv ft (consensus cfg) R s'"
  using assms
  by (auto simp: handle_view_change_def pm_send_nack_def anchored_def buffer_view_change_inv
      elim!: bindE_InrE split: if_split_asm)
    (simp add: pm_inv_def pm_emit_def fork_msgs_append)

lemma pacemaker_worker_inv:
  assumes inv: "pm_inv ft (consensus cfg) (received cfg evs) s"
    and step: "pacemaker_worker ft cfg port ev s = Inr s'"
  shows "pm_inv ft (consensus cfg) (received cfg (evs @ [(port, ev)])) s'"
proof -
  have inv': "pm_inv ft (consensus cfg) (received cfg (evs @ [(port, ev)])) s"
    using inv by (rule pm_inv_mono) (auto simp: received_snoc)
  show ?thesis
    using step inv'
    by (cases "(ft, cfg, port, ev, s)" rule: pacemaker_worker.cases)
      (auto simp: handle_my_view_jump_def received_snoc intro: handle_view_change_inv pm_inv_filter,
       simp_all add: pm_inv_def pm_emit_def fork_msgs_append)
qed

lemma pacemaker_run_snoc:
  "pacemaker_run ft cfg (evs @ [(port, ev)]) s
     = bindE (pacemaker_run ft cfg evs s) (pacemaker_worker ft cfg port ev)"
  by (simp add: pacemaker_run_def foldE_snoc)

lemma pacemaker_run_inv:
  "pacemaker_run ft cfg evs pacemaker_new = Inr s \<Longrightarrow>
     pm_inv ft (consensus cfg) (received cfg evs) s"
proof (induction evs arbitrary: s rule: rev_induct)
  case Nil
  then show ?case by (simp add: pacemaker_run_def pm_inv_new)
next
  case (snoc e evs)
  then show ?case
    by (cases e) (auto simp: pacemaker_run_snoc elim!: bindE_InrE intro: pacemaker_worker_inv)
qed

section \<open>Progress\<close>

text \<open>
  The senders that asked for view \<open>v\<close> in configuration \<open>c\<close>, and the events that do not
  make the pacemaker forget what it has collected for it.
\<close>

definition spoke :: "config \<Rightarrow> u64 \<Rightarrow> u64 \<Rightarrow> (log_port \<times> pacemaker_event) list \<Rightarrow> sender_type set" where
  "spoke cfg v c evs = {x. \<exists>vc. (x, vc) \<in> received cfg evs \<and> vc_view vc = v \<and> vc_config_num vc = c}"

fun no_jump_past :: "u64 \<Rightarrow> u64 \<Rightarrow> pacemaker_event \<Rightarrow> bool" where
  "no_jump_past v c (PM_Command (Some (MyViewJumped v' c' _))) \<longleftrightarrow> v' \<le> v \<and> c' \<le> c"
| "no_jump_past v c _ \<longleftrightarrow> True"

definition senders :: "vc_map \<Rightarrow> sender_type set" where
  "senders buf = fst ` set buf"

definition collecting :: "features \<Rightarrow> consensus_config \<Rightarrow> u64 \<Rightarrow> u64 \<Rightarrow> sender_type set \<Rightarrow> pacemaker \<Rightarrow> bool" where
  "collecting ft cc v c X s \<longleftrightarrow>
     v \<le> pm_last_new_viewed_view s
     \<or> X \<subseteq> senders (buffer_of (v, c) s)
       \<and> length (buffer_of (v, c) s) < new_view_bcast_threshold ft cc"

lemma buffer_of_buffer_view_change:
  "buffer_of key (buffer_view_change ft cc vc x s) =
     (if key = (vc_view vc, vc_config_num vc)
      then let buf = AList.update x vc (buffer_of key s)
           in if new_view_bcast_threshold ft cc \<le> length buf \<and> pm_last_new_viewed_view s < vc_view vc
              then [] else buf
      else buffer_of key s)"
  by (simp add: buffer_view_change_def buffer_of_def notify_forks_def pm_emit_def Let_def)

lemma last_new_viewed_buffer_view_change:
  "pm_last_new_viewed_view (buffer_view_change ft cc vc x s) =
     (if new_view_bcast_threshold ft cc
           \<le> length (AList.update x vc (buffer_of (vc_view vc, vc_config_num vc) s))
         \<and> pm_last_new_viewed_view s < vc_view vc
      then vc_view vc else pm_last_new_viewed_view s)"
  by (simp add: buffer_view_change_def notify_forks_def pm_emit_def Let_def)

lemma buffer_of_simps [simp]:
  "buffer_of key (s\<lparr>pm_out := os\<rparr>) = buffer_of key s"
  "buffer_of key (s\<lparr>pm_bci := n\<rparr>) = buffer_of key s"
  by (simp_all add: buffer_of_def)

lemma handle_view_change_cases:
  assumes step: "handle_view_change ft cfg port vc x s = Inr s'"
    and zero: "pm_view_num s = 0" "pm_config_num s = 0"
  obtains (dropped) "\<And>key. buffer_of key s' = buffer_of key s"
      and "pm_last_new_viewed_view s' = pm_last_new_viewed_view s"
      and "vc_view vc \<le> pm_last_new_viewed_view s \<or> \<not> anchored port vc"
  | (buffered) "s' = buffer_view_change ft (consensus cfg) vc x s" and "anchored port vc"
      and "pm_last_new_viewed_view s < vc_view vc"
  using step zero
  by (auto simp: handle_view_change_def anchored_def pm_send_nack_def pm_emit_def
      elim!: bindE_InrE split: if_split_asm)

lemma senders_update: "senders (AList.update x vc m) = insert x (senders m)"
  by (simp add: dom_update senders_def)

lemma handle_view_change_collecting:
  assumes coll: "collecting ft (consensus cfg) v c X s"
    and zero: "pm_view_num s = 0" "pm_config_num s = 0"
    and step: "handle_view_change ft cfg port vc x s = Inr s'"
  shows "collecting ft (consensus cfg) v c
           (X \<union> {y. x = y \<and> anchored port vc \<and> vc_view vc = v \<and> vc_config_num vc = c}) s'"
  using step zero
proof (cases rule: handle_view_change_cases)
  case dropped
  with coll show ?thesis by (auto simp: collecting_def)
next
  case buffered
  show ?thesis
  proof (cases "(v, c) = (vc_view vc, vc_config_num vc)")
    case True
    with coll buffered show ?thesis
      by (simp add: collecting_def buffer_of_buffer_view_change last_new_viewed_buffer_view_change
          senders_update Let_def) blast
  next
    case False
    with coll buffered show ?thesis
      by (auto simp: collecting_def buffer_of_buffer_view_change last_new_viewed_buffer_view_change)
  qed
qed

lemma buffer_of_filter:
  assumes "keys_distinct (pm_vc_buffer s)" and "\<And>buf. P ((v, c), buf)"
  shows "buffer_of (v, c) (s\<lparr>pm_vc_buffer := filter P (pm_vc_buffer s)\<rparr>) = buffer_of (v, c) s"
proof -
  have "map_of (filter P m) (v, c) = map_of m (v, c)" for m :: "((u64 \<times> u64) \<times> vc_map) list"
    using assms(2) by (induction m) auto
  then show ?thesis by (simp add: buffer_of_def)
qed

lemma spoke_snoc:
  "spoke cfg v c (evs @ [(port, ev)]) = spoke cfg v c evs
     \<union> {x. \<exists>vc. vc_of_event cfg ev = Some (x, vc) \<and> anchored port vc
             \<and> vc_view vc = v \<and> vc_config_num vc = c}"
  by (auto simp: spoke_def received_snoc)

lemma pacemaker_worker_collecting:
  assumes inv: "pm_inv ft (consensus cfg) R s"
    and coll: "collecting ft (consensus cfg) v c (spoke cfg v c evs) s"
    and step: "pacemaker_worker ft cfg port ev s = Inr s'" and jump: "no_jump_past v c ev"
  shows "collecting ft (consensus cfg) v c (spoke cfg v c (evs @ [(port, ev)])) s'"
proof -
  note zero = pm_invD(6,7) [OF inv]
  consider (vc) vc x where "ev = PM_ViewChange (Some (vc, x))"
    | (jump) v' c' vc where "ev = PM_Command (Some (MyViewJumped v' c' vc))"
    | (other) "vc_of_event cfg ev = None"
    by (cases "(cfg, ev)" rule: vc_of_event.cases) auto
  then show ?thesis
  proof cases
    case vc
    with step have "handle_view_change ft cfg port vc x s = Inr s'" by simp
    from handle_view_change_collecting [OF coll zero this] show ?thesis
      by (simp add: spoke_snoc vc)
  next
    case (jump v' c' vc)
    let ?t = "s\<lparr>pm_vc_buffer := filter (\<lambda>((view, config), _). view \<ge> v' \<and> config \<ge> c') (pm_vc_buffer s)\<rparr>"
    have "collecting ft (consensus cfg) v c (spoke cfg v c evs) ?t"
      using coll assms(4) jump buffer_of_filter [OF pm_invD(8) [OF inv]] by (simp add: collecting_def)
    moreover have "handle_view_change ft cfg port vc (Auth (net_name cfg) 0) ?t = Inr s'"
      using step jump by (simp add: handle_my_view_jump_def)
    ultimately have "collecting ft (consensus cfg) v c (spoke cfg v c evs \<union> {y. Auth (net_name cfg) 0 = y
        \<and> anchored port vc \<and> vc_view vc = v \<and> vc_config_num vc = c}) s'"
      using zero by (intro handle_view_change_collecting) simp_all
    then show ?thesis by (simp add: spoke_snoc jump)
  next
    case other
    then have "collecting ft (consensus cfg) v c (spoke cfg v c evs) s'"
      using coll step by (cases "(ft, cfg, port, ev, s)" rule: pacemaker_worker.cases)
        (auto simp: collecting_def pm_emit_def)
    with other show ?thesis by (simp add: spoke_snoc)
  qed
qed

lemma pacemaker_run_collecting:
  assumes "pacemaker_run ft cfg evs pacemaker_new = Inr s" and "0 < new_view_bcast_threshold ft (consensus cfg)"
    and "\<forall>(port, ev) \<in> set evs. no_jump_past v c ev"
  shows "collecting ft (consensus cfg) v c (spoke cfg v c evs) s"
  using assms
proof (induction evs arbitrary: s rule: rev_induct)
  case Nil
  then show ?case
    by (auto simp: pacemaker_run_def collecting_def pacemaker_new_def buffer_of_def spoke_def received_def)
next
  case (snoc e evs)
  obtain port ev where e: "e = (port, ev)" by (cases e)
  with snoc.prems obtain s1 where s1: "pacemaker_run ft cfg evs pacemaker_new = Inr s1"
    "pacemaker_worker ft cfg port ev s1 = Inr s"
    by (auto simp: pacemaker_run_snoc elim!: bindE_InrE)
  show ?case
    using pacemaker_worker_collecting [OF pacemaker_run_inv [OF s1(1)] snoc.IH [OF s1(1)] s1(2)]
      snoc.prems e by auto
qed

lemma pacemaker_run_progress:
  assumes run: "pacemaker_run ft cfg evs pacemaker_new = Inr s"
    and thr: "0 < new_view_bcast_threshold ft (consensus cfg)"
    and jump: "\<forall>(port, ev) \<in> set evs. no_jump_past v c ev"
    and quorum: "new_view_bcast_threshold ft (consensus cfg) \<le> card (spoke cfg v c evs)"
  shows "v \<le> pm_last_new_viewed_view s"
proof (rule ccontr)
  assume "\<not> ?thesis"
  with pacemaker_run_collecting [OF run thr jump]
  have "spoke cfg v c evs \<subseteq> set (map fst (buffer_of (v, c) s))"
    and "length (buffer_of (v, c) s) < new_view_bcast_threshold ft (consensus cfg)"
    by (auto simp: collecting_def senders_def)
  moreover from this(1) have "card (spoke cfg v c evs) \<le> length (buffer_of (v, c) s)"
    by (metis card_length card_mono List.finite_set le_trans length_map)
  ultimately show False using quorum by simp
qed

text \<open>The worker only fails on a message whose fork it cannot parse or place.\<close>

definition answered :: "log_port \<Rightarrow> view_change \<Rightarrow> bool" where
  "answered port vc \<longleftrightarrow>
     (\<exists>n h b. vc_fork_parent vc = Inr (n, h) \<and> port_check_hash port n h = Inr b
        \<and> (\<not> b \<longrightarrow> (\<forall>m. \<exists>hints. port_get_hints port m = Inr hints)))"

lemma handle_view_change_total:
  assumes "answered port vc"
  shows "\<exists>s'. handle_view_change ft cfg port vc x s = Inr s'"
proof -
  obtain n h b where a: "vc_fork_parent vc = Inr (n, h)" "port_check_hash port n h = Inr b"
    and hints: "\<not> b \<Longrightarrow> \<exists>hs. port_get_hints port (pm_bci s) = Inr hs"
    using assms unfolding answered_def by blast
  show ?thesis
    using hints by (cases b) (auto simp: handle_view_change_def a)
qed

lemma pacemaker_run_total:
  assumes "\<forall>(port, ev) \<in> set evs. \<forall>x vc. vc_of_event cfg ev = Some (x, vc) \<longrightarrow> answered port vc"
  shows "\<exists>s'. pacemaker_run ft cfg evs s = Inr s'"
  using assms
proof (induction evs rule: rev_induct)
  case Nil
  then show ?case by (simp add: pacemaker_run_def)
next
  case (snoc e evs)
  obtain port ev where e: "e = (port, ev)" by (cases e)
  from snoc obtain s1 where s1: "pacemaker_run ft cfg evs s = Inr s1" by auto
  have ok: "answered port vc" if "vc_of_event cfg ev = Some (x, vc)" for x vc
    using snoc.prems that by (auto simp: e)
  have "\<exists>s'. pacemaker_worker ft cfg port ev s1 = Inr s'"
    using ok by (cases "(ft, cfg, port, ev, s1)" rule: pacemaker_worker.cases)
      (auto simp: handle_my_view_jump_def intro!: handle_view_change_total)
  with s1 show ?case by (simp add: e pacemaker_run_snoc)
qed

lemma log_rel_answered:
  assumes "log_rel fetch k hist ls" and "\<exists>p. vc_fork_parent vc = Inr p"
  shows "answered (log_port_of fetch ls) vc"
  using assms(2) log_rel_port [OF assms(1)] log_rel_hints [OF assms(1)]
  by (auto simp: answered_def)

lemma pacemaker_run_forks:
  assumes run: "pacemaker_run ft cfg evs pacemaker_new = Inr s"
    and "0 < v" and "v \<le> pm_last_new_viewed_view s"
  shows "\<exists>v' c' forks. v \<le> v' \<and> PM_ToStaging (NewViewForks v' c' forks) \<in> set (pm_out s)
           \<and> quorum_forks ft (consensus cfg) (received cfg evs) (v', c', forks)"
proof -
  note D = pm_invD [OF pacemaker_run_inv [OF run]]
  from D(5) assms(2,3) obtain c' forks where
    m: "(pm_last_new_viewed_view s, c', forks) \<in> set (fork_msgs (pm_out s))" by fastforce
  with D(2) have "quorum_forks ft (consensus cfg) (received cfg evs) (pm_last_new_viewed_view s, c', forks)"
    by (simp add: list_all_iff)
  with m assms(3) show ?thesis by (auto simp: in_fork_msgs)
qed

text \<open>Events that each meet the log server in some state of its own.\<close>

definition served ::
  "(bytes \<Rightarrow> (io_error + cached_block) result) \<Rightarrow> (log_server \<times> pacemaker_event) list
     \<Rightarrow> (log_port \<times> pacemaker_event) list" where
  "served fetch evs = map (\<lambda>(ls, ev). (log_port_of fetch ls, ev)) evs"

lemma in_served: "(port, ev) \<in> set (served fetch evs) \<Longrightarrow> \<exists>ls. (ls, ev) \<in> set evs \<and> port = log_port_of fetch ls"
  by (auto simp: served_def)

section \<open>Properties\<close>

text \<open>
  C8: the forks of a new view come from a quorum. In every run of the pacemaker each
  \<open>NewViewForks\<close> message to staging holds view change messages of at least
  \<open>new_view_bcast_threshold\<close> different senders, all for the view and the configuration of
  the message, all actually received, and all with a fork whose parent the log server
  confirmed when the message arrived. The views of these messages strictly increase, so
  that staging gets the forks of a view at most once.
\<close>
theorem new_view_quorum:
  assumes "pacemaker_run ft cfg evs pacemaker_new = Inr s"
  shows "sorted_wrt (<) (map fst (fork_msgs (pm_out s)))
    \<and> (\<forall>(v, c, forks) \<in> set (fork_msgs (pm_out s)).
         new_view_bcast_threshold ft (consensus cfg) \<le> length forks
         \<and> distinct (map fst forks)
         \<and> (\<forall>(x, vc) \<in> set forks. vc_view vc = v \<and> vc_config_num vc = c
              \<and> (\<exists>(port, ev) \<in> set evs. vc_of_event cfg ev = Some (x, vc) \<and> anchored port vc)))"
  using pm_invD(2,3) [OF pacemaker_run_inv [OF assms]]
  by (fastforce simp: list_all_iff quorum_forks_def vcs_ok_def received_def)

definition demo_vc :: view_change where
  "demo_vc = \<lparr>vc_view = 2, vc_config_num = 1, vc_fork = None, vc_fork_sig = [],
     vc_fork_last_n = 0, vc_fork_last_qc = None\<rparr>"

definition demo_log :: log_server where
  "demo_log = \<lparr>ls_bci = 0, ls_log = [],
     ls_read_cache = \<lparr>rdc_cache = [], rdc_working_set_size = 100\<rparr>, ls_out = []\<rparr>"

definition demo_vc_events :: "(log_server \<times> pacemaker_event) list" where
  "demo_vc_events =
     [(demo_log, PM_ViewChange (Some (demo_vc, Auth ''node2'' 0))),
      (demo_log, PM_ViewChange (Some (demo_vc, Auth ''node3'' 0))),
      (demo_log, PM_ViewChange (Some (demo_vc, Auth ''node4'' 0)))]"

lemma demo_log_rel: "log_rel demo_fetch 0 [] demo_log"
  by (simp add: log_rel_def genesis_chain_def cache_ok_def demo_log_def btree_ok_def)

lemmas demo_pm_defs = demo_vc_events_def served_def pacemaker_run_def handle_view_change_def
  vc_fork_parent_def check_hash_0 buffer_view_change_def notify_view_def notify_forks_def
  pacemaker_view_update_threshold_def new_view_bcast_threshold_def u64_sub_def demo_cfg_def
  demo_cc_def pirateship_def pacemaker_new_def demo_vc_def buffer_of_def pm_emit_def Let_def

theorem new_view_quorum_witness:
  "\<exists>s c forks. pacemaker_run pirateship (demo_cfg ''node1'') (served demo_fetch demo_vc_events) pacemaker_new = Inr s
     \<and> (2, c, forks) \<in> set (fork_msgs (pm_out s)) \<and> 3 \<le> length forks \<and> distinct (map fst forks)"
proof -
  obtain s where s: "pacemaker_run pirateship (demo_cfg ''node1'') (served demo_fetch demo_vc_events) pacemaker_new = Inr s"
    and m: "(2, 1, [(Auth ''node2'' 0, demo_vc), (Auth ''node3'' 0, demo_vc), (Auth ''node4'' 0, demo_vc)])
      \<in> set (fork_msgs (pm_out s))"
    by (simp add: demo_pm_defs)
  have "new_view_bcast_threshold pirateship (consensus (demo_cfg ''node1'')) = 3"
    by (simp add: demo_pm_defs)
  with new_view_quorum [OF s] m s show ?thesis by fastforce
qed

text \<open>
  C18: a new view is reached once a quorum asks for it. Let the log server stand for some
  history whenever it is asked, and let every view change message carry a fork that can be
  parsed. Whatever the order of the events, and whatever messages for other views arrive in
  between, once \<open>new_view_bcast_threshold\<close> different senders have asked for view \<open>v\<close> with
  forks that the log server can place, the pacemaker has handed staging the forks of view
  \<open>v\<close> or of a later view, and no event made it fail. Only staging's own jump past \<open>v\<close> is
  excluded: it clears the buffer.
\<close>
theorem new_view_liveness:
  assumes "\<forall>(ls, ev) \<in> set evs. (\<exists>k hist. log_rel fetch k hist ls) \<and> no_jump_past v c ev
      \<and> (\<forall>x vc. vc_of_event cfg ev = Some (x, vc) \<longrightarrow> (\<exists>p. vc_fork_parent vc = Inr p))"
    and "0 < v" and "0 < new_view_bcast_threshold ft (consensus cfg)"
    and "new_view_bcast_threshold ft (consensus cfg) \<le> card (spoke cfg v c (served fetch evs))"
  shows "\<exists>s. pacemaker_run ft cfg (served fetch evs) pacemaker_new = Inr s
    \<and> (\<exists>v' c' forks. v \<le> v' \<and> PM_ToStaging (NewViewForks v' c' forks) \<in> set (pm_out s))"
proof -
  have "\<forall>(port, ev) \<in> set (served fetch evs). no_jump_past v c ev"
    using assms(1) by (fastforce dest: in_served)
  moreover have "\<forall>(port, ev) \<in> set (served fetch evs). \<forall>x vc. vc_of_event cfg ev = Some (x, vc) \<longrightarrow> answered port vc"
    using assms(1) by (fastforce dest!: in_served intro: log_rel_answered)
  then obtain s where run: "pacemaker_run ft cfg (served fetch evs) pacemaker_new = Inr s"
    using pacemaker_run_total by blast
  ultimately have "v \<le> pm_last_new_viewed_view s"
    using assms(3,4) by (intro pacemaker_run_progress [where c = c])
  with pacemaker_run_forks [OF run assms(2)] run show ?thesis by blast
qed

theorem new_view_liveness_witness:
  "\<exists>s. pacemaker_run pirateship (demo_cfg ''node1'') (served demo_fetch demo_vc_events) pacemaker_new = Inr s
    \<and> (\<exists>v' c' forks. 2 \<le> v' \<and> PM_ToStaging (NewViewForks v' c' forks) \<in> set (pm_out s))"
proof (rule new_view_liveness [where c = 1])
  show "\<forall>(ls, ev) \<in> set demo_vc_events. (\<exists>k hist. log_rel demo_fetch k hist ls) \<and> no_jump_past 2 1 ev
      \<and> (\<forall>x vc. vc_of_event (demo_cfg ''node1'') ev = Some (x, vc) \<longrightarrow> (\<exists>p. vc_fork_parent vc = Inr p))"
    using demo_log_rel by (auto simp: demo_vc_events_def vc_fork_parent_def demo_vc_def)
  have "spoke (demo_cfg ''node1'') 2 1 (served demo_fetch demo_vc_events)
      = {Auth ''node2'' 0, Auth ''node3'' 0, Auth ''node4'' 0}"
    by (auto simp: spoke_def received_def demo_vc_events_def served_def anchored_def vc_fork_parent_def
        demo_vc_def check_hash_0)
  then show "new_view_bcast_threshold pirateship (consensus (demo_cfg ''node1''))
      \<le> card (spoke (demo_cfg ''node1'') 2 1 (served demo_fetch demo_vc_events))"
    by (simp add: demo_pm_defs)
qed (simp_all add: demo_pm_defs)

text \<open>
  C40: the senders of that quorum need not be different nodes. The buffer is keyed by
  \<open>SenderType\<close>, which contains the sub-identifier that a client chooses when it connects,
  while votes are counted by name. One node that sends the same message, with no fork at
  all, over \<open>new_view_bcast_threshold\<close> connections makes the pacemaker hand staging the
  forks of a new view that all come from this node.
\<close>
theorem view_change_quorum_by_one_node:
  assumes "0 < vc_view vc" and "vc_fork vc = None" and "0 < new_view_bcast_threshold ft (consensus cfg)"
  shows "\<exists>s c forks. pacemaker_run ft cfg
      (served fetch (map (\<lambda>i. (ls, PM_ViewChange (Some (vc, Auth x i))))
         [0..<new_view_bcast_threshold ft (consensus cfg)])) pacemaker_new = Inr s
    \<and> PM_ToStaging (NewViewForks (vc_view vc) c forks) \<in> set (pm_out s)
    \<and> new_view_bcast_threshold ft (consensus cfg) \<le> length forks
    \<and> (\<forall>(sender, _) \<in> set forks. fst (to_name_and_sub_id sender) = x)"
proof -
  let ?t = "new_view_bcast_threshold ft (consensus cfg)"
  let ?evs = "served fetch (map (\<lambda>i. (ls, PM_ViewChange (Some (vc, Auth x i)))) [0..<?t])"
  have parent: "vc_fork_parent vc = Inr (0, [])" using assms(2) by (simp add: vc_fork_parent_def)
  have ok: "anchored (log_port_of fetch ls) vc" "answered (log_port_of fetch ls) vc"
    by (auto simp: anchored_def answered_def parent check_hash_0)
  have rec: "received cfg ?evs = (\<lambda>i. (Auth x i, vc)) ` {..<?t}"
    using ok by (auto simp: received_def served_def)
  have "spoke cfg (vc_view vc) (vc_config_num vc) ?evs = Auth x ` {..<?t}"
    by (auto simp: spoke_def rec)
  then have "?t \<le> card (spoke cfg (vc_view vc) (vc_config_num vc) ?evs)"
    by (simp add: card_image inj_on_def)
  moreover obtain s where run: "pacemaker_run ft cfg ?evs pacemaker_new = Inr s"
    using ok pacemaker_run_total [of ?evs cfg ft pacemaker_new] by (auto simp: served_def)
  ultimately have "vc_view vc \<le> pm_last_new_viewed_view s"
    using assms(3) by (intro pacemaker_run_progress [where c = "vc_config_num vc"]) (auto simp: served_def)
  from pacemaker_run_forks [OF run assms(1) this] obtain v' c' forks where
    m: "PM_ToStaging (NewViewForks v' c' forks) \<in> set (pm_out s)"
    and q: "?t \<le> length forks" "set forks \<subseteq> received cfg ?evs"
      "\<forall>(y, vc) \<in> set forks. (vc_view vc, vc_config_num vc) = (v', c')"
    by (auto simp: quorum_forks_def vcs_ok_def)
  obtain y where "y \<in> set forks" using q(1) assms(3) by (cases forks) auto
  moreover from this q(2) have "snd y = vc" by (auto simp: rec)
  ultimately have "v' = vc_view vc" using q(3) by (cases y) auto
  moreover have "\<forall>(sender, _) \<in> set forks. fst (to_name_and_sub_id sender) = x"
    using q(2) by (auto simp: rec)
  ultimately show ?thesis using run m q(1) by blast
qed

theorem view_change_quorum_by_one_node_witness:
  "\<exists>s c forks. pacemaker_run pirateship (demo_cfg ''node1'')
      (served demo_fetch (map (\<lambda>i. (demo_log, PM_ViewChange (Some (demo_vc, Auth ''node4'' i))))
         [0..<new_view_bcast_threshold pirateship (consensus (demo_cfg ''node1''))])) pacemaker_new = Inr s
    \<and> PM_ToStaging (NewViewForks (vc_view demo_vc) c forks) \<in> set (pm_out s)
    \<and> new_view_bcast_threshold pirateship (consensus (demo_cfg ''node1'')) \<le> length forks
    \<and> (\<forall>(sender, _) \<in> set forks. fst (to_name_and_sub_id sender) = ''node4'')"
  by (rule view_change_quorum_by_one_node) (simp_all add: demo_pm_defs)

end
