(* ===== verification/Broadcaster.thy ===== *)
theory Broadcaster
  imports Storage Quorums
begin

text \<open>
  The block broadcaster (\<open>src/consensus/block_broadcaster.rs\<close>): it stores every block and
  only then forwards it to staging, announces it to the application, and sends the node's
  own blocks to the other nodes. Blocks of other nodes arrive verified, or as errors that
  make the rest of their fork useless. The lemmas show that what leaves the broadcaster
  is on disk.
\<close>

section \<open>Definitions\<close>

datatype broadcaster_out =
    BB_ToStaging cached_block storage_ack ae_stats bool
  | BB_ToForkReceiver fork_receiver_command
  | BB_ToApp app_command
  | BB_Broadcast "string list" append_entries nat

record 'd broadcaster =
  bb_ci :: u64
  bb_fork_prefix_buffer :: "cached_block list"
  bb_evil_last_hash :: future_hash
  bb_db :: 'd
  bb_out :: "broadcaster_out list"

definition broadcaster_new :: "'d \<Rightarrow> 'd broadcaster" where
  "broadcaster_new db =
     \<lparr>bb_ci = 0, bb_fork_prefix_buffer = [], bb_evil_last_hash = FH_None, bb_db = db, bb_out = []\<rparr>"

definition bb_emit :: "broadcaster_out \<Rightarrow> 'd broadcaster \<Rightarrow> 'd broadcaster" where
  "bb_emit m s = s\<lparr>bb_out := bb_out s @ [m]\<rparr>"

definition bb_get_everyone_except_me :: "config \<Rightarrow> string list" where
  "bb_get_everyone_except_me cfg =
     filter (\<lambda>e. e \<noteq> net_name cfg) (node_list (consensus cfg)) @ learner_list (consensus cfg)"

fun push_prefix :: "(io_error + cached_block) list \<Rightarrow> cached_block list \<Rightarrow> cached_block list result" where
  "push_prefix [] buf = Inr buf"
| "push_prefix (Inl _ # rs) buf = Inl Explicit_Panic"
| "push_prefix (Inr block # rs) buf = push_prefix rs (buf @ [block])"

fun handle_control_command :: "broadcaster_command \<Rightarrow> 'd broadcaster \<Rightarrow> 'd broadcaster result" where
  "handle_control_command (UpdateCI ci) s = Inr (s\<lparr>bb_ci := ci\<rparr>)"
| "handle_control_command (NextAEForkPrefix blocks) s =
     bindE (push_prefix blocks (bb_fork_prefix_buffer s)) (\<lambda>buf.
       Inr (s\<lparr>bb_fork_prefix_buffer := buf\<rparr>))"

definition store_and_forward_internally ::
  "features \<Rightarrow> 'd rocks_lib \<Rightarrow> cached_block \<Rightarrow> ae_stats \<Rightarrow> bool \<Rightarrow> 'd broadcaster \<Rightarrow> 'd broadcaster result" where
  "store_and_forward_internally ft rl block stats this_is_final_block s =
     (case storage_put_block ft rl block (bb_db s) of
        (db', Put_Reply ack) \<Rightarrow>
          Inr (bb_emit (BB_ToStaging block ack stats this_is_final_block) (s\<lparr>bb_db := db'\<rparr>))
      | (_, Get_Reply _) \<Rightarrow> Inl Unwrap_None)"

text \<open>
  The two loops over a fork. \<open>cnt\<close> counts the blocks, the last one is the final block.
\<close>

fun forward_mine ::
  "features \<Rightarrow> 'd rocks_lib \<Rightarrow> string \<Rightarrow> u64 \<Rightarrow> u64 \<Rightarrow> nat \<Rightarrow> nat \<Rightarrow> cached_block list
     \<Rightarrow> 'd broadcaster \<Rightarrow> 'd broadcaster result" where
  "forward_mine ft rl me view config_num fork_size cnt [] s = Inr s"
| "forward_mine ft rl me view config_num fork_size cnt (block # blocks) s =
     bindE (store_and_forward_internally ft rl block
       \<lparr>st_view = view, st_view_is_stable = blk_view_is_stable (cb_block block),
        st_config_num = config_num, st_sender = me, st_ci = bb_ci s\<rparr> (cnt + 1 = fork_size) s)
       (forward_mine ft rl me view config_num fork_size (cnt + 1) blocks)"

definition new_request_batch :: "u64 \<Rightarrow> bool \<Rightarrow> bool \<Rightarrow> cached_block \<Rightarrow> app_command" where
  "new_request_batch view view_is_stable mine block =
     NewRequestBatch (cb_n block) view view_is_stable mine
       (length (tx_list (cb_block block))) (cb_hash block)"

fun forward_other ::
  "features \<Rightarrow> 'd rocks_lib \<Rightarrow> ae_stats \<Rightarrow> nat \<Rightarrow> nat \<Rightarrow> cached_block list
     \<Rightarrow> 'd broadcaster \<Rightarrow> 'd broadcaster result" where
  "forward_other ft rl stats fork_size cnt [] s = Inr s"
| "forward_other ft rl stats fork_size cnt (block # blocks) s =
     bindE (store_and_forward_internally ft rl block stats (cnt + 1 = fork_size) s) (\<lambda>s'.
       forward_other ft rl stats fork_size (cnt + 1) blocks
         (bb_emit (BB_ToApp (new_request_batch (st_view stats) (st_view_is_stable stats) False block)) s'))"

definition broadcast_ae_fork ::
  "features \<Rightarrow> config \<Rightarrow> string list \<Rightarrow> cached_block list \<Rightarrow> u64 \<Rightarrow> bool \<Rightarrow> u64
     \<Rightarrow> 'd broadcaster \<Rightarrow> 'd broadcaster" where
  "broadcast_ae_fork ft cfg names ae_blocks view view_is_stable config_num s =
     bb_emit (BB_Broadcast names
       \<lparr>ae_fork = Some (map half_serialize ae_blocks), ae_commit_index = bb_ci s, ae_view = view,
        ae_view_is_stable = view_is_stable, ae_config_num = config_num,
        ae_is_backfill_response = False\<rparr>
       (get_byzantine_broadcast_threshold ft (consensus cfg))) s"

text \<open>
  The simulated byzantine leader of the feature \<open>evil\<close>: the second half of the peers gets
  a block with one more, empty transaction.
\<close>

definition empty_tx :: transaction where
  "empty_tx = \<lparr>on_receive = None, on_crash_commit = None, on_byzantine_commit = None,
     is_reconfiguration = False, is_2pc = False\<rparr>"

definition maybe_act_evil ::
  "'k node_env \<Rightarrow> string list \<Rightarrow> cached_block list \<Rightarrow> u64 \<Rightarrow> bool \<Rightarrow> u64
     \<Rightarrow> 'd broadcaster \<Rightarrow> ('d broadcaster \<times> string list) result" where
  "maybe_act_evil e names ae_blocks view view_is_stable config_num s =
     (if node_list (env_cc e) = [] then Inl Out_Of_Bounds
      else if \<not> (hd (node_list (env_cc e)) = net_name (env_cfg e)
                 \<and> simulate_byzantine_behavior (env_cfg e))
      then Inr (s, names)
      else if ae_blocks = [] then Inl Unwrap_None
      else let block = last ae_blocks
           in if cb_n block < byzantine_start_block (env_cfg e) then Inr (s, names)
              else let parent_hash_rx =
                         (if bb_evil_last_hash s = FH_None then FH_Immediate (cb_parent block)
                          else bb_evil_last_hash s);
                       must_sign = is_signed (cb_block block);
                       forged = (cb_block block)\<lparr>tx_list := tx_list (cb_block block) @ [empty_tx]\<rparr>
                   in bindE (prepare_block (env_lib e) forged must_sign parent_hash_rx) (\<lambda>evil_block.
                        let k = length names div 2;
                            s1 = s\<lparr>bb_evil_last_hash := FH_Future (cb_hash evil_block)\<rparr>
                        in Inr (broadcast_ae_fork (env_ft e) (env_cfg e) (drop k names)
                                  (butlast ae_blocks @ [evil_block]) view view_is_stable config_num s1,
                                take k names)))"

definition process_my_block ::
  "'k node_env \<Rightarrow> 'd rocks_lib \<Rightarrow> cached_block \<Rightarrow> 'd broadcaster \<Rightarrow> 'd broadcaster result" where
  "process_my_block e rl block s =
     (let view = blk_view (cb_block block);
          view_is_stable = blk_view_is_stable (cb_block block);
          config_num = blk_config_num (cb_block block);
          ae_blocks = bb_fork_prefix_buffer s @ [block]
      in bindE (forward_mine (env_ft e) rl (net_name (env_cfg e)) view config_num (length ae_blocks) 0
                  ae_blocks (s\<lparr>bb_fork_prefix_buffer := []\<rparr>)) (\<lambda>s1.
           let s2 = bb_emit (BB_ToApp (new_request_batch view view_is_stable True block)) s1;
               names = bb_get_everyone_except_me (env_cfg e)
           in bindE (if ft_evil (env_ft e)
                     then maybe_act_evil e names ae_blocks view view_is_stable config_num s2
                     else Inr (s2, names)) (\<lambda>(s3, names').
                Inr (broadcast_ae_fork (env_ft e) (env_cfg e) names' ae_blocks view view_is_stable
                       config_num s3))))"

definition process_other_block ::
  "features \<Rightarrow> 'd rocks_lib \<Rightarrow> multipart_fork \<Rightarrow> 'd broadcaster \<Rightarrow> 'd broadcaster result" where
  "process_other_block ft rl mf s =
     (let results = mf_fork_future mf
      in if list_ex (\<lambda>r. case r of Inl _ \<Rightarrow> True | Inr _ \<Rightarrow> False) results
         then Inr (bb_emit (BB_ToForkReceiver (MultipartNack (mf_remaining_parts mf))) s)
         else forward_other ft rl (mf_ae_stats mf) (length results) 0
                (map projr results) s)"

datatype broadcaster_event =
    BB_MyBlock "(u64 \<times> cached_block option) option"
  | BB_OtherBlock "multipart_fork option"
  | BB_Control "broadcaster_command option"

fun broadcaster_worker ::
  "'k node_env \<Rightarrow> 'd rocks_lib \<Rightarrow> broadcaster_event \<Rightarrow> 'd broadcaster \<Rightarrow> 'd broadcaster result" where
  "broadcaster_worker e rl (BB_MyBlock None) s = Inl Err_Unit"
| "broadcaster_worker e rl (BB_MyBlock (Some (_, None))) s = Inr s"
| "broadcaster_worker e rl (BB_MyBlock (Some (_, Some block))) s = process_my_block e rl block s"
| "broadcaster_worker e rl (BB_OtherBlock None) s = Inl Err_Unit"
| "broadcaster_worker e rl (BB_OtherBlock (Some mf)) s = process_other_block (env_ft e) rl mf s"
| "broadcaster_worker e rl (BB_Control None) s = Inl Err_Unit"
| "broadcaster_worker e rl (BB_Control (Some cmd)) s = handle_control_command cmd s"

definition broadcaster_run ::
  "'k node_env \<Rightarrow> 'd rocks_lib \<Rightarrow> broadcaster_event list \<Rightarrow> 'd broadcaster \<Rightarrow> 'd broadcaster result" where
  "broadcaster_run e rl evs s = foldE (broadcaster_worker e rl) evs s"

section \<open>What is forwarded is stored\<close>

text \<open>
  What is assumed of RocksDB: an acknowledged write is read back, other keys keep their
  values, and a failed write changes nothing.
\<close>

definition rocks_ok :: "'d rocks_lib \<Rightarrow> bool" where
  "rocks_ok rl \<longleftrightarrow>
     (\<forall>k v d d'. db_put_opt rl k v d = (d', True) \<longrightarrow> db_get rl k d' = Some (Some v))
     \<and> (\<forall>k v d d' ok k'. db_put_opt rl k v d = (d', ok) \<longrightarrow> k' \<noteq> k \<or> \<not> ok
          \<longrightarrow> db_get rl k' d' = db_get rl k' d)"

definition collision_free :: "cached_block set \<Rightarrow> bool" where
  "collision_free S \<longleftrightarrow> (\<forall>b \<in> S. \<forall>c \<in> S. cb_hash b = cb_hash c \<longrightarrow> cb_ser b = cb_ser c)"

fun staged :: "broadcaster_out list \<Rightarrow> (cached_block \<times> storage_ack) list" where
  "staged [] = []"
| "staged (BB_ToStaging b ack _ _ # os) = (b, ack) # staged os"
| "staged (_ # os) = staged os"

lemma staged_append: "staged (xs @ ys) = staged xs @ staged ys"
  by (induction xs rule: staged.induct) auto

definition oks :: "(io_error + 'a) list \<Rightarrow> 'a set" where
  "oks rs = {x. Inr x \<in> set rs}"

fun event_blocks :: "broadcaster_event \<Rightarrow> cached_block set" where
  "event_blocks (BB_MyBlock (Some (_, Some b))) = {b}"
| "event_blocks (BB_OtherBlock (Some mf)) = oks (mf_fork_future mf)"
| "event_blocks (BB_Control (Some (NextAEForkPrefix rs))) = oks rs"
| "event_blocks _ = {}"

definition disk_inv :: "'d rocks_lib \<Rightarrow> cached_block set \<Rightarrow> 'd broadcaster \<Rightarrow> bool" where
  "disk_inv rl S s \<longleftrightarrow>
     set (bb_fork_prefix_buffer s) \<subseteq> S
     \<and> (\<forall>(b, ack) \<in> set (staged (bb_out s)). b \<in> S \<and>
          (ack = StorageOk \<longrightarrow> db_get rl (cb_hash b) (bb_db s) = Some (Some (cb_ser b))))"

lemma disk_inv_emit:
  "disk_inv rl S s \<Longrightarrow> staged [m] = [] \<Longrightarrow> disk_inv rl S (bb_emit m s)"
  by (simp add: disk_inv_def bb_emit_def staged_append)

lemma disk_inv_update [simp]:
  "disk_inv rl S (s\<lparr>bb_ci := ci\<rparr>) = disk_inv rl S s"
  "disk_inv rl S (s\<lparr>bb_evil_last_hash := h\<rparr>) = disk_inv rl S s"
  by (simp_all add: disk_inv_def)

lemma put_block_get:
  assumes "rocks_ok rl" and "ft_storage ft" and "storage_put_block ft rl b db = (db', Put_Reply ack)"
  shows "(ack = StorageOk \<longrightarrow> db_get rl (cb_hash b) db' = Some (Some (cb_ser b)))
    \<and> (\<forall>k. k \<noteq> cb_hash b \<or> ack = StorageErr \<longrightarrow> db_get rl k db' = db_get rl k db)"
  using assms
  by (cases ack) (auto simp: storage_put_block_def rocks_put_block_def rocks_ok_def
      split: prod.split_asm if_split_asm)

lemma store_and_forward_disk:
  assumes inv: "disk_inv rl S s" and env: "rocks_ok rl" "ft_storage ft" "collision_free S"
    and b: "b \<in> S" and step: "store_and_forward_internally ft rl b st fin s = Inr s'"
  shows "disk_inv rl S s' \<and> bb_fork_prefix_buffer s' = bb_fork_prefix_buffer s"
proof -
  from step obtain db' ack where put: "storage_put_block ft rl b (bb_db s) = (db', Put_Reply ack)"
    and s': "s' = bb_emit (BB_ToStaging b ack st fin) (s\<lparr>bb_db := db'\<rparr>)"
    by (auto simp: store_and_forward_internally_def split: prod.split_asm storage_reply.split_asm)
  have ok: "ack = StorageOk \<Longrightarrow> db_get rl (cb_hash b) db' = Some (Some (cb_ser b))"
    and get: "\<And>k. k \<noteq> cb_hash b \<or> ack = StorageErr \<Longrightarrow> db_get rl k db' = db_get rl k (bb_db s)"
    using put_block_get [OF env(1,2) put] by blast+
  have keep: "db_get rl (cb_hash c) db' = Some (Some (cb_ser c))"
    if c: "c \<in> S" "db_get rl (cb_hash c) (bb_db s) = Some (Some (cb_ser c))" for c
  proof (cases "cb_hash c = cb_hash b \<and> ack = StorageOk")
    case True
    then have "cb_ser c = cb_ser b" using env(3) b c(1) unfolding collision_free_def by blast
    with True ok show ?thesis by simp
  next
    case False
    then have "cb_hash c \<noteq> cb_hash b \<or> ack = StorageErr" by (cases ack) auto
    with get have "db_get rl (cb_hash c) db' = db_get rl (cb_hash c) (bb_db s)" by blast
    with c(2) show ?thesis by simp
  qed
  have "bb_fork_prefix_buffer s' = bb_fork_prefix_buffer s" "bb_db s' = db'"
    "staged (bb_out s') = staged (bb_out s) @ [(b, ack)]"
    by (simp_all add: s' bb_emit_def staged_append)
  moreover have "c \<in> S \<and> (a = StorageOk \<longrightarrow> db_get rl (cb_hash c) db' = Some (Some (cb_ser c)))"
    if "(c, a) \<in> set (staged (bb_out s))" for c a
    using inv keep [of c] that unfolding disk_inv_def by blast
  ultimately show ?thesis
    using inv b ok unfolding disk_inv_def by auto
qed

lemma forward_mine_disk:
  assumes "forward_mine ft rl me v c k cnt bs s = Inr s'" and "disk_inv rl S s" and "set bs \<subseteq> S"
    and "rocks_ok rl" "ft_storage ft" "collision_free S"
  shows "disk_inv rl S s'"
  using assms
  by (induction ft rl me v c k cnt bs s rule: forward_mine.induct)
    (auto elim!: bindE_InrE dest: store_and_forward_disk)

lemma forward_other_disk:
  assumes "forward_other ft rl st k cnt bs s = Inr s'" and "disk_inv rl S s" and "set bs \<subseteq> S"
    and "rocks_ok rl" "ft_storage ft" "collision_free S"
  shows "disk_inv rl S s'"
  using assms
proof (induction ft rl st k cnt bs s rule: forward_other.induct)
  case (2 ft rl st k cnt b bs s)
  from 2(2) obtain s1 where s1: "store_and_forward_internally ft rl b st (cnt + 1 = k) s = Inr s1"
    and rest: "forward_other ft rl st k (cnt + 1) bs
      (bb_emit (BB_ToApp (new_request_batch (st_view st) (st_view_is_stable st) False b)) s1) = Inr s'"
    by (auto elim!: bindE_InrE)
  have "disk_inv rl S s1" using store_and_forward_disk [OF _ _ _ _ _ s1] 2(3-) by simp
  then show ?case using 2(1) [OF rest] 2(3-) by (simp add: disk_inv_emit)
qed simp

lemma push_prefix_set: "push_prefix rs buf = Inr buf' \<Longrightarrow> set buf' = set buf \<union> oks rs"
  by (induction rs buf rule: push_prefix.induct) (auto simp: oks_def)

lemma maybe_act_evil_disk:
  "maybe_act_evil e names bs v st c s = Inr (s', names') \<Longrightarrow> disk_inv rl S s \<Longrightarrow> disk_inv rl S s'"
  by (auto simp: maybe_act_evil_def broadcast_ae_fork_def Let_def disk_inv_emit
      elim!: bindE_InrE split: if_split_asm)

lemma process_my_block_disk:
  assumes "process_my_block e rl b s = Inr s'" and inv: "disk_inv rl S s" and "b \<in> S"
    and "rocks_ok rl" "ft_storage (env_ft e)" "collision_free S"
  shows "disk_inv rl S s'"
proof -
  let ?bs = "bb_fork_prefix_buffer s @ [b]" and ?v = "blk_view (cb_block b)"
    and ?st = "blk_view_is_stable (cb_block b)" and ?c = "blk_config_num (cb_block b)"
  have bs: "set ?bs \<subseteq> S" and inv0: "disk_inv rl S (s\<lparr>bb_fork_prefix_buffer := []\<rparr>)"
    using inv assms(3) by (auto simp: disk_inv_def)
  from assms(1) obtain s1 s3 names where
    s1: "forward_mine (env_ft e) rl (net_name (env_cfg e)) ?v ?c (length ?bs) 0 ?bs
           (s\<lparr>bb_fork_prefix_buffer := []\<rparr>) = Inr s1"
    and s3: "(if ft_evil (env_ft e)
              then maybe_act_evil e (bb_get_everyone_except_me (env_cfg e)) ?bs ?v ?st ?c
                     (bb_emit (BB_ToApp (new_request_batch ?v ?st True b)) s1)
              else Inr (bb_emit (BB_ToApp (new_request_batch ?v ?st True b)) s1,
                        bb_get_everyone_except_me (env_cfg e))) = Inr (s3, names)"
    and s': "s' = broadcast_ae_fork (env_ft e) (env_cfg e) names ?bs ?v ?st ?c s3"
    unfolding process_my_block_def Let_def by (elim bindE_InrE) auto
  have "disk_inv rl S s1" by (rule forward_mine_disk [OF s1 inv0 bs assms(4-)])
  then have "disk_inv rl S (bb_emit (BB_ToApp (new_request_batch ?v ?st True b)) s1)"
    by (rule disk_inv_emit) simp
  with s3 have "disk_inv rl S s3" by (auto split: if_split_asm dest: maybe_act_evil_disk)
  then show ?thesis by (simp add: s' broadcast_ae_fork_def disk_inv_emit)
qed

lemma no_error_oks:
  "\<not> list_ex (\<lambda>r. case r of Inl _ \<Rightarrow> True | Inr _ \<Rightarrow> False) rs \<Longrightarrow> projr ` set rs = oks rs"
  by (induction rs) (auto simp: oks_def split: sum.split_asm)

lemma broadcaster_worker_disk:
  assumes step: "broadcaster_worker e rl ev s = Inr s'" and inv: "disk_inv rl S s"
    and ev: "event_blocks ev \<subseteq> S"
    and env: "rocks_ok rl" "ft_storage (env_ft e)" "collision_free S"
  shows "disk_inv rl S s'"
proof -
  consider (mine) n b where "ev = BB_MyBlock (Some (n, Some b))"
    | (other) mf where "ev = BB_OtherBlock (Some mf)"
    | (control) cmd where "ev = BB_Control (Some cmd)" | (rest) "s' = s"
    using step by (cases "(e, rl, ev, s)" rule: broadcaster_worker.cases) auto
  then show ?thesis
  proof cases
    case mine
    with step ev show ?thesis by (auto intro: process_my_block_disk [OF _ inv _ env])
  next
    case other
    show ?thesis
    proof (cases "list_ex (\<lambda>r. case r of Inl _ \<Rightarrow> True | Inr _ \<Rightarrow> False) (mf_fork_future mf)")
      case True
      with other step inv show ?thesis by (auto simp: process_other_block_def disk_inv_emit)
    next
      case False
      with other step have "forward_other (env_ft e) rl (mf_ae_stats mf) (length (mf_fork_future mf)) 0
          (map projr (mf_fork_future mf)) s = Inr s'"
        by (simp add: process_other_block_def Let_def)
      moreover have "set (map projr (mf_fork_future mf)) \<subseteq> S"
        using False other ev by (simp add: no_error_oks)
      ultimately show ?thesis by (rule forward_other_disk [OF _ inv _ env])
    qed
  next
    case control
    with step inv ev show ?thesis
      by (cases cmd) (auto simp: disk_inv_def elim!: bindE_InrE dest!: push_prefix_set)
  qed (simp add: inv)
qed

lemma broadcaster_run_disk:
  assumes "broadcaster_run e rl evs s = Inr s'" and "disk_inv rl S s"
    and "\<forall>ev \<in> set evs. event_blocks ev \<subseteq> S"
    and "rocks_ok rl" "ft_storage (env_ft e)" "collision_free S"
  shows "disk_inv rl S s'"
  using assms unfolding broadcaster_run_def
  by (elim foldE_invariant [where I = "disk_inv rl S"]) (auto intro: broadcaster_worker_disk)

section \<open>Properties\<close>

text \<open>
  A block whose hash and contents belong to its bytes, as the crypto service makes them.
\<close>

definition cached_ok :: "'k crypto_lib \<Rightarrow> cached_block \<Rightarrow> bool" where
  "cached_ok lib b \<longleftrightarrow>
     hash_proto_block_ser lib (cb_ser b) = Inr (cb_hash b)
     \<and> deserialize_proto_block (pb_decode lib) (cb_ser b) = Inr (Inr (cb_block b))"

text \<open>
  C10: anything that leaves the broadcaster is stored on disk, the invariant stated in its
  \<open>worker\<close>. In every run, own blocks, blocks of other nodes and fork prefixes in any order,
  each block that was forwarded to staging with a successful storage acknowledgement is read
  back from the storage under its hash, unchanged, also after all later writes. Assumed: the
  laws \<open>rocks_ok\<close> of the engine, blocks made by the crypto service, and no two different
  blocks of the run with the same hash.
\<close>
theorem forwarded_blocks_are_stored:
  assumes "broadcaster_run e rl evs (broadcaster_new db) = Inr s"
    and "rocks_ok rl" and "ft_storage (env_ft e)"
    and "collision_free (\<Union>ev \<in> set evs. event_blocks ev)"
    and "\<forall>ev \<in> set evs. \<forall>b \<in> event_blocks ev. cached_ok (env_lib e) b"
  shows "\<forall>(b, ack) \<in> set (staged (bb_out s)).
    ack = StorageOk \<longrightarrow> storage_get_block (env_ft e) rl (env_lib e) (bb_db s) (cb_hash b) = Inr (Inr b)"
proof -
  have "disk_inv rl (\<Union>ev \<in> set evs. event_blocks ev) s"
    using assms(1-4) by (rule_tac broadcaster_run_disk) (auto simp: disk_inv_def broadcaster_new_def)
  moreover have "storage_get_block (env_ft e) rl (env_lib e) (bb_db s) (cb_hash b) = Inr (Inr b)"
    if "cached_ok (env_lib e) b" "db_get rl (cb_hash b) (bb_db s) = Some (Some (cb_ser b))" for b
    using that by (simp add: storage_get_block_def rocks_get_block_def check_block_ser_def cached_ok_def)
  ultimately show ?thesis using assms(5) by (fastforce simp: disk_inv_def)
qed

lemma verified_cached_ok: "verify_block_ser lib ft cc ks m ser = Inr (Inr b) \<Longrightarrow> cached_ok lib b"
  using verify_block_serD(1,2,3) by (fastforce simp: cached_ok_def)

definition store_env :: "unit node_env" where
  "store_env = \<lparr>env_lib = demo_lib (demo_block 2 2 [demo_qc]), env_ft = pirateship,
     env_cfg = demo_cfg ''node2'', env_keys = demo_ks\<rparr>"

definition demo_part :: "cached_block \<Rightarrow> multipart_fork" where
  "demo_part b = \<lparr>mf_fork_future = [Inr b], mf_remaining_parts = 0,
     mf_ae_stats = \<lparr>st_view = 2, st_view_is_stable = True, st_config_num = 1,
       st_sender = ''node2'', st_ci = 0\<rparr>\<rparr>"

lemma demo_rocks_ok: "rocks_ok demo_rocks"
  by (simp add: rocks_ok_def demo_rocks_def)

theorem forwarded_blocks_are_stored_witness:
  "\<exists>b s. cb_ser b = demo_ser
     \<and> broadcaster_run store_env demo_rocks [BB_OtherBlock (Some (demo_part b))]
         (broadcaster_new Map.empty) = Inr s
     \<and> (b, StorageOk) \<in> set (staged (bb_out s))
     \<and> storage_get_block pirateship demo_rocks (env_lib store_env) (bb_db s) (cb_hash b) = Inr (Inr b)"
proof -
  obtain b where b: "verify_block_ser (env_lib store_env) pirateship demo_cc demo_ks 1 demo_ser = Inr (Inr b)"
    using demo_verifies by (auto simp: store_env_def)
  obtain s where s: "broadcaster_run store_env demo_rocks [BB_OtherBlock (Some (demo_part b))]
      (broadcaster_new Map.empty) = Inr s" "(b, StorageOk) \<in> set (staged (bb_out s))"
    by (simp add: broadcaster_run_def demo_part_def process_other_block_def Let_def
        store_and_forward_internally_def storage_put_block_def rocks_put_block_def demo_rocks_def
        store_env_def pirateship_def broadcaster_new_def bb_emit_def)
  have "\<forall>(b, ack) \<in> set (staged (bb_out s)). ack = StorageOk \<longrightarrow>
      storage_get_block (env_ft store_env) demo_rocks (env_lib store_env) (bb_db s) (cb_hash b) = Inr (Inr b)"
    by (rule forwarded_blocks_are_stored [OF s(1) demo_rocks_ok])
      (use verified_cached_ok [OF b] in \<open>auto simp: store_env_def pirateship_def demo_part_def oks_def collision_free_def\<close>)
  with s b show ?thesis using verify_block_serD(1) [OF b] by (fastforce simp: store_env_def)
qed

end
