(* ===== verification/ForkReceiver.thy ===== *)
theory ForkReceiver
  imports LogPort Quorums
begin

text \<open>
  The fork receiver (\<open>src/consensus/fork_receiver.rs\<close>): the gate for the forks that other
  nodes send. It checks sender, view and configuration, that the fork hangs off a known
  block and that every new view in it starts with an unstable block; it cuts the fork into
  parts at configuration changes and forwards a part only after staging has accepted the
  one before. A fork that does not fit is answered with a request for more blocks.
\<close>

section \<open>Definitions\<close>

datatype fork_receiver_out =
    FR_ToBroadcaster multipart_fork
  | FR_SendNack string backfill_nack

record fork_receiver =
  fr_view :: u64
  fr_config_num :: u64
  fr_multipart_buffer :: "(half_block list \<times> ae_stats) list"
  fr_blocked_on_multipart :: bool
  fr_last_ae_view :: u64
  fr_last_ae_block_hash :: future_hash
  fr_waiting_on_nack_reply :: bool
  fr_out :: "fork_receiver_out list"

definition fork_receiver_new :: "features \<Rightarrow> fork_receiver" where
  "fork_receiver_new ft =
     \<lparr>fr_view = (if ft_view_change ft then 0 else 1),
      fr_config_num = (if ft_view_change ft then 0 else 1),
      fr_multipart_buffer = [], fr_blocked_on_multipart = False, fr_last_ae_view = 0,
      fr_last_ae_block_hash = FH_None, fr_waiting_on_nack_reply = False, fr_out = []\<rparr>"

definition fr_emit :: "fork_receiver_out \<Rightarrow> fork_receiver \<Rightarrow> fork_receiver" where
  "fr_emit m s = s\<lparr>fr_out := fr_out s @ [m]\<rparr>"

definition fr_send_nack ::
  "config \<Rightarrow> log_port \<Rightarrow> string \<Rightarrow> append_entries \<Rightarrow> fork_receiver \<Rightarrow> fork_receiver result" where
  "fr_send_nack cfg port sender ae s =
     bindE (case ae_fork ae of
              None \<Rightarrow> Inr (ae_commit_index ae)
            | Some [] \<Rightarrow> Inl Unwrap_None
            | Some (first # _) \<Rightarrow> Inr (hs_n first)) (\<lambda>first_block_n.
       let last_index_needed = (if first_block_n > 100 then first_block_n - 100 else 0)
       in bindE (port_get_hints port last_index_needed) (\<lambda>hints.
            Inr (fr_emit (FR_SendNack sender
              \<lparr>nk_origin = Some (Origin_Ae ae), nk_hints = hints,
               nk_last_index_needed = last_index_needed, nk_reply_name = net_name cfg\<rparr>)
              (s\<lparr>fr_waiting_on_nack_reply := True\<rparr>))))"

text \<open>
  The remembered hash of the last forwarded block is awaited once and then kept; the
  hash of a block that failed verification is forgotten.
\<close>

definition last_hash :: "future_hash \<Rightarrow> future_hash \<times> bytes option" where
  "last_hash f =
     (case f of
        FH_None \<Rightarrow> (FH_None, None)
      | FH_Immediate hsh \<Rightarrow> (FH_Immediate hsh, Some hsh)
      | FH_Future hsh \<Rightarrow> (FH_Immediate hsh, Some hsh)
      | FH_FutureResult r \<Rightarrow>
          (case r of Inl _ \<Rightarrow> (FH_None, None) | Inr hsh \<Rightarrow> (FH_Immediate hsh, Some hsh)))"

text \<open>The result is whether the prefix is common; \<open>False\<close> is \<open>Err(())\<close>.\<close>

definition ensure_common_prefix ::
  "log_port \<Rightarrow> append_entries \<Rightarrow> fork_receiver \<Rightarrow> (fork_receiver \<times> bool) result" where
  "ensure_common_prefix port ae s =
     bindE (unwrap (ae_fork ae)) (\<lambda>fork.
       case fork of
         [] \<Rightarrow> Inr (s, True)
       | first # _ \<Rightarrow>
           bindE (unwrap (get_parent_hash_in_proto_block_ser (hs_body first))) (\<lambda>parent_hash.
             case last_hash (fr_last_ae_block_hash s) of
               (kept, hsh) \<Rightarrow>
                 (let s1 = s\<lparr>fr_last_ae_block_hash := kept\<rparr>
                  in if hsh = Some parent_hash then Inr (s1, True)
                     else bindE (port_check_hash port (u64_sub (hs_n first) 1) parent_hash) (\<lambda>known.
                            Inr (s1, known)))))"

text \<open>
  The first block of every view above \<open>test_view\<close> must be unstable; the result is the
  highest view, \<open>None\<close> the early exit.
\<close>

fun scan_views :: "u64 \<Rightarrow> half_block list \<Rightarrow> u64 option" where
  "scan_views test_view [] = Some test_view"
| "scan_views test_view (block # blocks) =
     (if hs_view block > test_view then
        (if hs_view_is_stable block then None else scan_views (hs_view block) blocks)
      else scan_views test_view blocks)"

text \<open>The blocks of one configuration and the first block of the next are one part.\<close>

fun split_parts :: "u64 \<Rightarrow> half_block list \<Rightarrow> half_block list \<Rightarrow> half_block list list option" where
  "split_parts curr_config curr_part [] = Some (if curr_part = [] then [] else [curr_part])"
| "split_parts curr_config curr_part (block # blocks) =
     (if hs_config_num block = curr_config then split_parts curr_config (curr_part @ [block]) blocks
      else if hs_view_is_stable block then None
      else map_option ((#) (curr_part @ [block])) (split_parts (hs_config_num block) [] blocks))"

definition stats_of :: "append_entries \<Rightarrow> string \<Rightarrow> ae_stats" where
  "stats_of ae sender =
     \<lparr>st_view = ae_view ae, st_view_is_stable = ae_view_is_stable ae,
      st_config_num = ae_config_num ae, st_sender = sender, st_ci = ae_commit_index ae\<rparr>"

text \<open>Verify a part, forward it and remember the hash of its last block.\<close>

definition forward_part ::
  "'k node_env \<Rightarrow> half_block list \<Rightarrow> nat \<Rightarrow> ae_stats \<Rightarrow> fork_receiver \<Rightarrow> fork_receiver result" where
  "forward_part e part remaining stats s =
     bindE (prepare_fork (env_lib e) (env_ft e) (env_cc e) (env_keys e) part remaining stats
              (fr_byzantine_liveness_threshold (env_ft e) (env_cc e))) (\<lambda>(multipart_fut, hashes).
       let s1 = fr_emit (FR_ToBroadcaster multipart_fut) s
       in if hashes = [] then Inl Unwrap_None
          else Inr (s1\<lparr>fr_last_ae_block_hash := FH_FutureResult (last hashes)\<rparr>))"

definition forward_parts ::
  "'k node_env \<Rightarrow> append_entries \<Rightarrow> string \<Rightarrow> half_block list list \<Rightarrow> fork_receiver \<Rightarrow> fork_receiver result" where
  "forward_parts e ae sender parts s =
     (case parts of
        [] \<Rightarrow> Inr s
      | first_part # rest \<Rightarrow>
          bindE (forward_part e first_part (length rest) (stats_of ae sender) s) (\<lambda>s1.
            if rest \<noteq> [] then
              bindE (assertE Assertion (fr_multipart_buffer s1 = [])) (\<lambda>_.
                Inr (s1\<lparr>fr_multipart_buffer := map (\<lambda>part. (part, stats_of ae sender)) rest,
                        fr_blocked_on_multipart := True\<rparr>))
            else Inr s1))"

definition process_fork ::
  "'k node_env \<Rightarrow> log_port \<Rightarrow> append_entries \<Rightarrow> string \<Rightarrow> fork_receiver \<Rightarrow> fork_receiver result" where
  "process_fork e port ae sender s =
     (if ae_view ae < fr_view s \<or> ae_config_num ae < fr_config_num s then Inr s
      else bindE (if ae_config_num ae = fr_config_num s
                  then bindE (get_leader_for_view (env_ft e) (env_cc e) (ae_view ae)) (\<lambda>leader.
                         Inr (leader = sender))
                  else Inr True) (\<lambda>may_send.
        if \<not> may_send then Inr s
        else bindE (ensure_common_prefix port ae s) (\<lambda>(s1, common).
          if \<not> common then fr_send_nack (env_cfg e) port sender ae s1
          else case ae_fork ae of
                 None \<Rightarrow> Inr s1
               | Some fork \<Rightarrow>
                   (case scan_views (fr_view s1) fork of
                      None \<Rightarrow> fr_send_nack (env_cfg e) port sender ae s1
                    | Some test_view \<Rightarrow>
                        if test_view < ae_view ae then fr_send_nack (env_cfg e) port sender ae s1
                        else let s2 = s1\<lparr>fr_waiting_on_nack_reply := False\<rparr>
                             in case split_parts (fr_config_num s2) [] fork of
                                  None \<Rightarrow> Inr s2
                                | Some parts \<Rightarrow> forward_parts e ae sender parts s2))))"

definition fr_update_view ::
  "'k node_env \<Rightarrow> u64 \<Rightarrow> u64 \<Rightarrow> fork_receiver \<Rightarrow> fork_receiver result" where
  "fr_update_view e view config_num s =
     (let s1 = (if fr_view s \<noteq> view
                then s\<lparr>fr_last_ae_view := view, fr_last_ae_block_hash := FH_None\<rparr> else s);
          config_is_updating = fr_config_num s < config_num;
          s2 = s1\<lparr>fr_view := view, fr_config_num := config_num\<rparr>
      in bindE (case fr_multipart_buffer s2 of
                  [] \<Rightarrow> Inr s2
                | (part, stats) # rest \<Rightarrow>
                    if config_is_updating then
                      (let s3 = s2\<lparr>fr_multipart_buffer := rest\<rparr>
                       in bindE (if rest = []
                                 then bindE (get_leader_for_view (env_ft e) (env_cc e) view) (\<lambda>leader.
                                        Inr (leader = st_sender stats))
                                 else Inr True) (\<lambda>maybe_legit.
                            if maybe_legit then forward_part e part (length rest) stats s3 else Inr s3))
                    else Inr s2) (\<lambda>s4.
           Inr (if fr_multipart_buffer s4 = [] then s4\<lparr>fr_blocked_on_multipart := False\<rparr> else s4)))"

definition fr_multipart_nack :: "nat \<Rightarrow> fork_receiver \<Rightarrow> fork_receiver result" where
  "fr_multipart_nack n s =
     bindE (assertE Assertion (n = length (fr_multipart_buffer s))) (\<lambda>_.
       let s1 = s\<lparr>fr_multipart_buffer := drop n (fr_multipart_buffer s)\<rparr>
       in Inr (if fr_multipart_buffer s1 = [] then s1\<lparr>fr_blocked_on_multipart := False\<rparr> else s1))"

fun fr_handle_command ::
  "'k node_env \<Rightarrow> log_port \<Rightarrow> fork_receiver_command \<Rightarrow> fork_receiver \<Rightarrow> fork_receiver result" where
  "fr_handle_command e port (UpdateView view config_num) s = fr_update_view e view config_num s"
| "fr_handle_command e port (MultipartNack n) s = fr_multipart_nack n s"
| "fr_handle_command e port (UseBackfillResponse ae sender) s =
     process_fork e port ae (fst (to_name_and_sub_id sender)) s"

datatype fork_receiver_event =
    FR_Fork "(append_entries \<times> sender_type) option"
  | FR_Command "fork_receiver_command option"

text \<open>
  While it waits for staging or for a backfill the worker reads only commands, and a closed
  command channel is then an \<open>unwrap\<close> of \<open>None\<close>. \<open>fr_accepts\<close> says which events it reads.
\<close>

definition fr_waits :: "fork_receiver \<Rightarrow> bool" where
  "fr_waits s \<longleftrightarrow> fr_blocked_on_multipart s \<or> fr_waiting_on_nack_reply s"

fun fr_accepts :: "fork_receiver \<Rightarrow> fork_receiver_event \<Rightarrow> bool" where
  "fr_accepts s (FR_Fork _) \<longleftrightarrow> \<not> fr_waits s"
| "fr_accepts s (FR_Command _) \<longleftrightarrow> True"

fun fork_receiver_worker ::
  "'k node_env \<Rightarrow> log_port \<Rightarrow> fork_receiver_event \<Rightarrow> fork_receiver \<Rightarrow> fork_receiver result" where
  "fork_receiver_worker e port (FR_Fork (Some (ae, Auth sender _))) s = process_fork e port ae sender s"
| "fork_receiver_worker e port (FR_Fork _) s = Inr s"
| "fork_receiver_worker e port (FR_Command (Some cmd)) s = fr_handle_command e port cmd s"
| "fork_receiver_worker e port (FR_Command None) s = (if fr_waits s then Inl Unwrap_None else Inr s)"

inductive fork_receiver_run :: "'k node_env \<Rightarrow> fork_receiver \<Rightarrow> bool" for e where
  run_new: "fork_receiver_run e (fork_receiver_new (env_ft e))"
| run_step: "fork_receiver_run e s \<Longrightarrow> fr_accepts s ev \<Longrightarrow> fork_receiver_worker e port ev s = Inr s'
    \<Longrightarrow> fork_receiver_run e s'"

section \<open>Parts\<close>

text \<open>
  The parts of a fork as they should be: a part starting in configuration \<open>c\<close> stays in \<open>c\<close>
  up to its last block, which may open the next configuration and is then unstable; only the
  last part may end without doing so.
\<close>

fun parts_ok :: "u64 \<Rightarrow> half_block list list \<Rightarrow> bool" where
  "parts_ok c [] \<longleftrightarrow> True"
| "parts_ok c (p # ps) \<longleftrightarrow>
     p \<noteq> [] \<and> (\<forall>b \<in> set (butlast p). hs_config_num b = c)
     \<and> (hs_config_num (last p) \<noteq> c \<longrightarrow> \<not> hs_view_is_stable (last p))
     \<and> (ps \<noteq> [] \<longrightarrow> hs_config_num (last p) \<noteq> c)
     \<and> parts_ok (hs_config_num (last p)) ps"

lemma split_parts_ok:
  "split_parts c cur bs = Some ps \<Longrightarrow> \<forall>b \<in> set cur. hs_config_num b = c \<Longrightarrow>
     concat ps = cur @ bs \<and> parts_ok c ps"
proof (induction c cur bs arbitrary: ps rule: split_parts.induct)
  case (1 c cur)
  then show ?case by (auto dest!: in_set_butlastD split: if_split_asm)
next
  case (2 c cur b bs)
  then show ?case
    by (auto split: if_split_asm)
qed

lemma parts_ok_nonempty: "parts_ok c ps \<Longrightarrow> p \<in> set ps \<Longrightarrow> p \<noteq> []"
  by (induction c ps rule: parts_ok.induct) auto

lemma scan_views_ge: "scan_views v bs = Some w \<Longrightarrow> v \<le> w \<and> (\<forall>b \<in> set bs. hs_view b \<le> w)"
  by (induction v bs rule: scan_views.induct) (auto split: if_split_asm intro: le_trans less_imp_le)

section \<open>The invariant of blocked parts\<close>

definition fr_inv :: "fork_receiver \<Rightarrow> bool" where
  "fr_inv s \<longleftrightarrow>
     (fr_blocked_on_multipart s \<longleftrightarrow> fr_multipart_buffer s \<noteq> [])
     \<and> (\<forall>(part, stats) \<in> set (fr_multipart_buffer s).
          part \<noteq> [] \<and> stats = snd (hd (fr_multipart_buffer s)))"

lemma forward_part_simps:
  assumes "forward_part e part k stats s = Inr s'"
  shows "fr_multipart_buffer s' = fr_multipart_buffer s"
    and "fr_blocked_on_multipart s' = fr_blocked_on_multipart s"
    and "fr_waiting_on_nack_reply s' = fr_waiting_on_nack_reply s"
    and "\<exists>blocks. mapsE (\<lambda>b. verify_block_ser (env_lib e) (env_ft e) (env_cc e) (env_keys e)
             (fr_byzantine_liveness_threshold (env_ft e) (env_cc e)) (hs_body b)) part = Inr blocks
           \<and> fr_out s' = fr_out s @ [FR_ToBroadcaster
               \<lparr>mf_fork_future = blocks, mf_remaining_parts = k, mf_ae_stats = stats\<rparr>]"
  using assms
  by (auto simp: forward_part_def prepare_fork_def fr_emit_def Let_def elim!: bindE_InrE
      split: if_split_asm)

lemma forward_part_frame:
  "forward_part e part k stats s = Inr s' \<Longrightarrow>
     fr_multipart_buffer s' = fr_multipart_buffer s
     \<and> fr_blocked_on_multipart s' = fr_blocked_on_multipart s"
  using forward_part_simps(1,2) by blast

lemma fr_send_nack_simps:
  assumes "fr_send_nack cfg port sender ae s = Inr s'"
  shows "fr_multipart_buffer s' = fr_multipart_buffer s"
    and "fr_blocked_on_multipart s' = fr_blocked_on_multipart s"
    and "\<exists>nack. fr_out s' = fr_out s @ [FR_SendNack sender nack]"
  using assms by (auto simp: fr_send_nack_def fr_emit_def Let_def elim!: bindE_InrE)

lemma ensure_common_prefix_simps:
  assumes "ensure_common_prefix port ae s = Inr (s', b)"
  shows "fr_multipart_buffer s' = fr_multipart_buffer s"
    and "fr_blocked_on_multipart s' = fr_blocked_on_multipart s"
    and "fr_out s' = fr_out s" and "fr_view s' = fr_view s" and "fr_config_num s' = fr_config_num s"
  using assms
  by (auto simp: ensure_common_prefix_def Let_def elim!: bindE_InrE
      split: list.split_asm prod.split_asm if_split_asm)

lemma forward_parts_inv:
  assumes step: "forward_parts e ae sender ps s = Inr s'" and inv: "fr_inv s" and ps: "parts_ok c ps"
  shows "fr_inv s'"
proof (cases ps)
  case Nil
  with step inv show ?thesis by (simp add: forward_parts_def)
next
  case (Cons p rest)
  with step obtain s1 where s1: "forward_part e p (length rest) (stats_of ae sender) s = Inr s1"
    and s': "if rest \<noteq> [] then s' = s1\<lparr>fr_multipart_buffer := map (\<lambda>part. (part, stats_of ae sender)) rest,
                  fr_blocked_on_multipart := True\<rparr> else s' = s1"
    by (auto simp: forward_parts_def elim!: bindE_InrE split: if_split_asm)
  have "[] \<notin> set rest" using ps Cons parts_ok_nonempty [OF ps] by auto
  with s' inv forward_part_simps(1,2) [OF s1] show ?thesis
    by (cases rest) (auto simp: fr_inv_def)
qed

lemma fr_inv_cong:
  "fr_multipart_buffer s' = fr_multipart_buffer s \<Longrightarrow>
     fr_blocked_on_multipart s' = fr_blocked_on_multipart s \<Longrightarrow> fr_inv s \<Longrightarrow> fr_inv s'"
  by (simp add: fr_inv_def)

lemma process_fork_cases:
  assumes "process_fork e port ae sender s = Inr s'"
  obtains (ignored) "fr_multipart_buffer s' = fr_multipart_buffer s"
      and "fr_blocked_on_multipart s' = fr_blocked_on_multipart s" and "fr_out s' = fr_out s"
  | (nacked) nack where "fr_multipart_buffer s' = fr_multipart_buffer s"
      and "fr_blocked_on_multipart s' = fr_blocked_on_multipart s"
      and "fr_out s' = fr_out s @ [FR_SendNack sender nack]"
  | (forwarded) s1 fork w parts where "fr_view s \<le> ae_view ae" and "fr_config_num s \<le> ae_config_num ae"
      and "ae_config_num ae = fr_config_num s \<Longrightarrow>
             get_leader_for_view (env_ft e) (env_cc e) (ae_view ae) = Inr sender"
      and "ensure_common_prefix port ae s = Inr (s1, True)" and "ae_fork ae = Some fork"
      and "scan_views (fr_view s) fork = Some w" and "ae_view ae \<le> w"
      and "split_parts (fr_config_num s) [] fork = Some parts"
      and "forward_parts e ae sender parts (s1\<lparr>fr_waiting_on_nack_reply := False\<rparr>) = Inr s'"
proof (cases "ae_view ae < fr_view s \<or> ae_config_num ae < fr_config_num s")
  case True
  with assms show ?thesis by (auto simp: process_fork_def intro: ignored)
next
  case old: False
  with assms obtain may_send where may: "(if ae_config_num ae = fr_config_num s
      then bindE (get_leader_for_view (env_ft e) (env_cc e) (ae_view ae)) (\<lambda>leader. Inr (leader = sender))
      else Inr True) = Inr may_send"
    by (auto simp: process_fork_def elim!: bindE_InrE)
  show ?thesis
  proof (cases may_send)
    case False
    with assms old may show ?thesis by (auto simp: process_fork_def intro: ignored)
  next
    case True
    with assms old may obtain s1 common where pre: "ensure_common_prefix port ae s = Inr (s1, common)"
      and rest: "(if \<not> common then fr_send_nack (env_cfg e) port sender ae s1
          else case ae_fork ae of
                 None \<Rightarrow> Inr s1
               | Some fork \<Rightarrow>
                   (case scan_views (fr_view s1) fork of
                      None \<Rightarrow> fr_send_nack (env_cfg e) port sender ae s1
                    | Some test_view \<Rightarrow>
                        if test_view < ae_view ae then fr_send_nack (env_cfg e) port sender ae s1
                        else let s2 = s1\<lparr>fr_waiting_on_nack_reply := False\<rparr>
                             in case split_parts (fr_config_num s2) [] fork of
                                  None \<Rightarrow> Inr s2
                                | Some parts \<Rightarrow> forward_parts e ae sender parts s2)) = Inr s'"
      by (auto simp: process_fork_def elim!: bindE_InrE)
    note keep = ensure_common_prefix_simps [OF pre]
    have nack: thesis if "fr_send_nack (env_cfg e) port sender ae s1 = Inr s'"
      using fr_send_nack_simps [OF that] keep by (auto intro: nacked)
    have leader: "get_leader_for_view (env_ft e) (env_cc e) (ae_view ae) = Inr sender"
      if "ae_config_num ae = fr_config_num s"
      using may True that by (auto elim!: bindE_InrE)
    show ?thesis
      using rest keep old pre leader
      by (auto simp: Let_def not_less intro: nack ignored forwarded split: if_split_asm option.split_asm)
  qed
qed

lemma process_fork_inv:
  assumes step: "process_fork e port ae sender s = Inr s'" and inv: "fr_inv s"
  shows "fr_inv s'"
  using step
proof (cases rule: process_fork_cases)
  case (forwarded s1 fork w parts)
  have "fr_inv (s1\<lparr>fr_waiting_on_nack_reply := False\<rparr>)"
    using inv ensure_common_prefix_simps [OF forwarded(4)] by (simp add: fr_inv_def)
  moreover have "parts_ok (fr_config_num s) parts" using split_parts_ok [OF forwarded(8)] by simp
  ultimately show ?thesis by (rule forward_parts_inv [OF forwarded(9)])
qed (use inv fr_inv_cong in blast)+

lemma fr_update_view_inv:
  assumes step: "fr_update_view e v c s = Inr s'" and inv: "fr_inv s"
  shows "fr_inv s'"
proof (cases "fr_multipart_buffer s")
  case Nil
  with step inv show ?thesis
    by (auto simp: fr_update_view_def fr_inv_def Let_def elim!: bindE_InrE split: if_split_asm)
next
  case (Cons x rest)
  obtain part stats where x: "x = (part, stats)" by force
  have tail: "\<forall>(p, st) \<in> set rest. p \<noteq> [] \<and> st = snd (hd rest)"
    using inv Cons by (cases rest) (auto simp: fr_inv_def)
  have "fr_multipart_buffer s' = (if fr_config_num s < c then rest else x # rest)"
    "fr_blocked_on_multipart s' = (fr_blocked_on_multipart s \<and> fr_multipart_buffer s' \<noteq> [])"
    using step by (auto simp: fr_update_view_def Let_def Cons x elim!: bindE_InrE split: if_split_asm
        dest!: forward_part_frame)
  with inv tail Cons show ?thesis by (cases rest) (auto simp: fr_inv_def)
qed

lemma fr_multipart_nack_inv: "fr_multipart_nack n s = Inr s' \<Longrightarrow> fr_inv s \<Longrightarrow> fr_inv s'"
  by (auto simp: fr_multipart_nack_def fr_inv_def Let_def elim!: bindE_InrE)

lemma fork_receiver_worker_inv:
  assumes step: "fork_receiver_worker e port ev s = Inr s'" and inv: "fr_inv s"
  shows "fr_inv s'"
proof -
  have cmd: "fr_inv s'" if "fr_handle_command e port cmd s = Inr s'" for cmd
    using that inv by (cases cmd) (auto intro: process_fork_inv fr_update_view_inv fr_multipart_nack_inv)
  show ?thesis
    using step inv by (cases "(e, port, ev, s)" rule: fork_receiver_worker.cases)
      (auto intro: process_fork_inv cmd split: if_split_asm)
qed

lemma fork_receiver_run_inv: "fork_receiver_run e s \<Longrightarrow> fr_inv s"
proof (induction rule: fork_receiver_run.induct)
  case run_new
  show ?case by (simp add: fr_inv_def fork_receiver_new_def)
next
  case (run_step s ev port s')
  then show ?case by (blast intro: fork_receiver_worker_inv)
qed

section \<open>A concrete run\<close>

text \<open>
  A new receiver gets a fork whose first block opens configuration 1: it forwards that
  block and keeps the second one.
\<close>

definition gate_env :: "unit node_env" where
  "gate_env = \<lparr>env_lib = demo_lib (demo_block 1 1 []), env_ft = pirateship,
     env_cfg = demo_cfg ''node2'', env_keys = demo_ks\<rparr>"

definition plain_ser :: bytes where
  "plain_ser = replicate 128 0 @ [9]"

definition demo_half :: "u64 \<Rightarrow> bool \<Rightarrow> half_block" where
  "demo_half n st = \<lparr>hs_n = n, hs_view = 1, hs_view_is_stable = st, hs_config_num = 1, hs_body = plain_ser\<rparr>"

definition demo_fork_ae :: append_entries where
  "demo_fork_ae = \<lparr>ae_fork = Some [demo_half 1 False, demo_half 2 True], ae_commit_index = 0, ae_view = 1,
     ae_view_is_stable = True, ae_config_num = 1, ae_is_backfill_response = False\<rparr>"

abbreviation demo_port :: log_port where
  "demo_port \<equiv> log_port_of demo_fetch demo_ls"

lemma demo_plain_verifies:
  "\<exists>b. verify_block_ser (env_lib gate_env) pirateship demo_cc demo_ks m plain_ser = Inr (Inr b)"
  by (simp add: verify_block_ser_def plain_ser_def gate_env_def demo_lib_def demo_block_def
      deserialize_proto_block_def hash_proto_block_ser_def lengths Let_def list_all_iff)

lemma demo_gate:
  "\<exists>s' b. process_fork gate_env demo_port demo_fork_ae ''node1'' (fork_receiver_new pirateship) = Inr s'
     \<and> fr_out s' = [FR_ToBroadcaster \<lparr>mf_fork_future = [Inr b], mf_remaining_parts = 1,
           mf_ae_stats = stats_of demo_fork_ae ''node1''\<rparr>]
     \<and> fr_multipart_buffer s' = [([demo_half 2 True], stats_of demo_fork_ae ''node1'')]
     \<and> fr_blocked_on_multipart s'"
proof -
  have parent: "get_parent_hash_in_proto_block_ser plain_ser = Some (replicate 64 0)"
    by (simp add: get_parent_hash_in_proto_block_ser_def plain_ser_def lengths)
  have env: "env_ft gate_env = pirateship" "env_cc gate_env = demo_cc" "env_keys gate_env = demo_ks"
    by (simp_all add: gate_env_def demo_cfg_def)
  have fork: "ae_fork demo_fork_ae = Some [demo_half 1 False, demo_half 2 True]" "ae_view demo_fork_ae = 1"
    "ae_config_num demo_fork_ae = 1" by (simp_all add: demo_fork_ae_def)
  have new: "fr_view (fork_receiver_new pirateship) = 0" "fr_config_num (fork_receiver_new pirateship) = 0"
    "fr_last_ae_block_hash (fork_receiver_new pirateship) = FH_None" "fr_out (fork_receiver_new pirateship) = []"
    "fr_multipart_buffer (fork_receiver_new pirateship) = []"
    by (simp_all add: fork_receiver_new_def pirateship_def)
  obtain b where b: "verify_block_ser (env_lib gate_env) pirateship demo_cc demo_ks
      (fr_byzantine_liveness_threshold pirateship demo_cc) plain_ser = Inr (Inr b)"
    using demo_plain_verifies by blast
  show ?thesis
    by (simp add: process_fork_def ensure_common_prefix_def last_hash_def Let_def demo_half_def
        forward_parts_def forward_part_def prepare_fork_def fr_emit_def check_hash_0 parent env fork new b)
qed

section \<open>Properties\<close>





end
