(* ===== verification/Replication.thy ===== *)
theory Replication
  imports Broadcaster ForkReceiver
begin

text \<open>
  The path of a block from the leader's broadcaster over the network to the staging of a
  follower: the leader's \<open>process_my_block\<close>, the follower's \<open>process_fork\<close> and the
  follower's \<open>process_other_block\<close>, with the crypto service in between. Both stagings get
  the same blocks in the same order.
\<close>

section \<open>Deliveries to staging\<close>

fun deliveries :: "broadcaster_out list \<Rightarrow> (cached_block \<times> ae_stats \<times> bool) list" where
  "deliveries [] = []"
| "deliveries (BB_ToStaging b _ st fin # os) = (b, st, fin) # deliveries os"
| "deliveries (_ # os) = deliveries os"

lemma deliveries_append: "deliveries (xs @ ys) = deliveries xs @ deliveries ys"
  by (induction xs rule: deliveries.induct) auto

text \<open>The blocks of one fork, with the mark on the last one.\<close>

definition marked :: "(cached_block \<Rightarrow> ae_stats) \<Rightarrow> nat \<Rightarrow> nat \<Rightarrow> cached_block list \<Rightarrow> (cached_block \<times> ae_stats \<times> bool) list" where
  "marked st k cnt bs = map (\<lambda>i. (bs ! i, st (bs ! i), cnt + Suc i = k)) [0..<length bs]"

lemma marked_Cons: "marked st k cnt (b # bs) = (b, st b, Suc cnt = k) # marked st k (Suc cnt) bs"
  by (simp add: marked_def map_upt_Suc del: upt_Suc)

lemma marked_Nil [simp]: "marked st k cnt [] = []"
  by (simp add: marked_def)

lemma store_and_forward_delivers:
  "\<exists>s'. store_and_forward_internally ft rl b st fin s = Inr s'
     \<and> deliveries (bb_out s') = deliveries (bb_out s) @ [(b, st, fin)] \<and> bb_ci s' = bb_ci s
     \<and> bb_fork_prefix_buffer s' = bb_fork_prefix_buffer s"
  by (auto simp: store_and_forward_internally_def storage_put_block_def bb_emit_def deliveries_append
      split: prod.split)

lemma forward_other_delivers:
  "\<exists>s'. forward_other ft rl st k cnt bs s = Inr s'
     \<and> deliveries (bb_out s') = deliveries (bb_out s) @ marked (\<lambda>_. st) k cnt bs"
proof (induction bs arbitrary: cnt s)
  case (Cons b bs)
  from store_and_forward_delivers [of ft rl b st "Suc cnt = k" s] obtain s1 where
    s1: "store_and_forward_internally ft rl b st (Suc cnt = k) s = Inr s1"
      "deliveries (bb_out s1) = deliveries (bb_out s) @ [(b, st, Suc cnt = k)]" by blast
  let ?s2 = "bb_emit (BB_ToApp (new_request_batch (st_view st) (st_view_is_stable st) False b)) s1"
  from Cons.IH [of "Suc cnt" ?s2] obtain s3 where
    "forward_other ft rl st k (Suc cnt) bs ?s2 = Inr s3"
    "deliveries (bb_out s3) = deliveries (bb_out ?s2) @ marked (\<lambda>_. st) k (Suc cnt) bs" by blast
  moreover have "deliveries (bb_out ?s2) = deliveries (bb_out s1)"
    by (simp add: bb_emit_def deliveries_append)
  ultimately show ?case using s1 by (simp add: marked_Cons)
qed simp

definition my_stats :: "string \<Rightarrow> u64 \<Rightarrow> u64 \<Rightarrow> u64 \<Rightarrow> cached_block \<Rightarrow> ae_stats" where
  "my_stats me view config_num ci b =
     \<lparr>st_view = view, st_view_is_stable = blk_view_is_stable (cb_block b),
      st_config_num = config_num, st_sender = me, st_ci = ci\<rparr>"

lemma forward_mine_delivers:
  "\<exists>s'. forward_mine ft rl me v c k cnt bs s = Inr s' \<and> bb_ci s' = bb_ci s
     \<and> deliveries (bb_out s') = deliveries (bb_out s) @ marked (my_stats me v c (bb_ci s)) k cnt bs"
proof (induction bs arbitrary: cnt s)
  case (Cons b bs)
  from store_and_forward_delivers [of ft rl b "my_stats me v c (bb_ci s) b" "Suc cnt = k" s] obtain s1 where
    s1: "store_and_forward_internally ft rl b (my_stats me v c (bb_ci s) b) (Suc cnt = k) s = Inr s1"
      "deliveries (bb_out s1) = deliveries (bb_out s) @ [(b, my_stats me v c (bb_ci s) b, Suc cnt = k)]"
      "bb_ci s1 = bb_ci s" by blast
  from Cons.IH [of "Suc cnt" s1] obtain s2 where
    "forward_mine ft rl me v c k (Suc cnt) bs s1 = Inr s2" "bb_ci s2 = bb_ci s1"
    "deliveries (bb_out s2) = deliveries (bb_out s1) @ marked (my_stats me v c (bb_ci s1)) k (Suc cnt) bs"
    by blast
  with s1 show ?case by (simp add: marked_Cons flip: my_stats_def)
qed simp

section \<open>The leader\<close>

text \<open>The message that carries a fork.\<close>

definition fork_message :: "cached_block list \<Rightarrow> cached_block \<Rightarrow> u64 \<Rightarrow> append_entries" where
  "fork_message bs b ci =
     \<lparr>ae_fork = Some (map half_serialize bs), ae_commit_index = ci, ae_view = blk_view (cb_block b),
      ae_view_is_stable = blk_view_is_stable (cb_block b), ae_config_num = blk_config_num (cb_block b),
      ae_is_backfill_response = False\<rparr>"

lemma fork_message_simps [simp]:
  "ae_fork (fork_message bs b ci) = Some (map half_serialize bs)"
  "ae_view (fork_message bs b ci) = blk_view (cb_block b)"
  "ae_config_num (fork_message bs b ci) = blk_config_num (cb_block b)"
  by (simp_all add: fork_message_def)

lemma process_my_block_delivers:
  assumes "\<not> ft_evil (env_ft e)"
  shows "\<exists>s' k. process_my_block e rl b s = Inr s'
    \<and> last (bb_out s') = BB_Broadcast (bb_get_everyone_except_me (env_cfg e))
         (fork_message (bb_fork_prefix_buffer s @ [b]) b (bb_ci s)) k
    \<and> deliveries (bb_out s') = deliveries (bb_out s)
        @ marked (my_stats (net_name (env_cfg e)) (blk_view (cb_block b)) (blk_config_num (cb_block b)) (bb_ci s))
            (length (bb_fork_prefix_buffer s) + 1) 0 (bb_fork_prefix_buffer s @ [b])"
proof -
  let ?bs = "bb_fork_prefix_buffer s @ [b]" and ?s0 = "s\<lparr>bb_fork_prefix_buffer := []\<rparr>"
  from forward_mine_delivers [of "env_ft e" rl "net_name (env_cfg e)" "blk_view (cb_block b)"
      "blk_config_num (cb_block b)" "length ?bs" 0 ?bs ?s0]
  obtain s1 where s1: "forward_mine (env_ft e) rl (net_name (env_cfg e)) (blk_view (cb_block b))
      (blk_config_num (cb_block b)) (length ?bs) 0 ?bs ?s0 = Inr s1"
    "bb_ci s1 = bb_ci s" "deliveries (bb_out s1) = deliveries (bb_out s)
      @ marked (my_stats (net_name (env_cfg e)) (blk_view (cb_block b)) (blk_config_num (cb_block b)) (bb_ci s))
          (length ?bs) 0 ?bs"
    by auto
  then show ?thesis
    using assms by (auto simp: process_my_block_def Let_def broadcast_ae_fork_def bb_emit_def
        deliveries_append fork_message_def)
qed

section \<open>The follower\<close>

text \<open>
  What arrives: the block with its signature in wire form. \<open>prepared\<close> says that a node made
  the block with \<open>PrepareBlock\<close> from contents that its codec can decode, with certificates
  only on signed blocks and only valid ones.
\<close>

definition on_wire :: "cached_block \<Rightarrow> cached_block" where
  "on_wire b = b\<lparr>cb_block := wire_block (cb_block b)\<rparr>"

definition prepared :: "'k node_env \<Rightarrow> cached_block \<Rightarrow> bool" where
  "prepared e b \<longleftrightarrow>
     (\<exists>blk must_sign f leader k.
        prepare_block (env_lib e) blk must_sign f = Inr b
        \<and> pb_decode (env_lib e) (pb_encode (env_lib e) (blk\<lparr>blk_parent := [], blk_sig := None\<rparr>))
            = Some (blk\<lparr>blk_parent := [], blk_sig := None\<rparr>)
        \<and> get_leader_for_view (env_ft e) (env_cc e) (blk_view blk) = Inr leader
        \<and> env_keys e leader = Some k \<and> (\<forall>d. lib_verify (env_lib e) k d (lib_sign (env_lib e) d))
        \<and> (if must_sign
           then list_all (\<lambda>qc. verify_qc (env_lib e) (env_keys e) qc
                  (fr_byzantine_liveness_threshold (env_ft e) (env_cc e))) (blk_qc blk)
           else blk_qc blk = []))"

definition signs_64 :: "'k crypto_lib \<Rightarrow> bool" where
  "signs_64 lib \<longleftrightarrow>
     (\<forall>d. length (lib_sign lib d) = SIGNATURE_LENGTH \<and> lib_sign lib d \<noteq> replicate SIGNATURE_LENGTH 0)"

lemma prepared_on_wire:
  assumes "prepared e b" and "signs_64 (env_lib e)"
  shows "verify_block_ser (env_lib e) (env_ft e) (env_cc e) (env_keys e)
    (fr_byzantine_liveness_threshold (env_ft e) (env_cc e)) (cb_ser b) = Inr (Inr (on_wire b))"
  using assms unfolding prepared_def signs_64_def on_wire_def
  by (elim exE conjE) (rule prepared_verifies, auto)

lemma prepared_parent:
  assumes "prepared e b"
  shows "get_parent_hash_in_proto_block_ser (cb_ser b) = Some (cb_parent b)"
proof -
  from assms obtain blk must_sign f where cb: "prepare_block (env_lib e) blk must_sign f = Inr b"
    by (auto simp: prepared_def)
  show ?thesis
    by (rule prepare_block_cases [OF cb]) (metis get_parent_hash_prefilled)
qed

lemma split_one_config:
  "\<forall>b \<in> set bs. hs_config_num b = c \<Longrightarrow> cur @ bs \<noteq> [] \<Longrightarrow> split_parts c cur bs = Some [cur @ bs]"
  by (induction bs arbitrary: cur) auto

text \<open>
  When a follower takes a fork: same configuration, views that the gate lets through, and a
  first block that hangs off the last forwarded block or off one the log server knows.
\<close>

definition fork_fits :: "log_port \<Rightarrow> fork_receiver \<Rightarrow> cached_block list \<Rightarrow> cached_block \<Rightarrow> bool" where
  "fork_fits port r bs b \<longleftrightarrow>
     fr_view r \<le> blk_view (cb_block b) \<and> fr_config_num r = blk_config_num (cb_block b)
     \<and> (\<forall>x \<in> set bs. blk_config_num (cb_block x) = blk_config_num (cb_block b))
     \<and> scan_views (fr_view r) (map half_serialize bs) = Some (blk_view (cb_block b))
     \<and> (snd (last_hash (fr_last_ae_block_hash r)) = Some (cb_parent (hd bs))
        \<or> port_check_hash port (u64_sub (cb_n (hd bs)) 1) (cb_parent (hd bs)) = Inr True)"

lemma ensure_common_prefix_fits:
  assumes "bs \<noteq> []" and "\<forall>x \<in> set bs. prepared e x" and "fork_fits port r bs b"
  shows "\<exists>r1. ensure_common_prefix port (fork_message bs b ci) r = Inr (r1, True)"
proof -
  obtain x rest where bs: "bs = x # rest" using assms(1) by (cases bs) auto
  have "get_parent_hash_in_proto_block_ser (cb_ser x) = Some (cb_parent x)"
    using assms(2) bs by (intro prepared_parent [of e]) simp
  with assms(3) bs show ?thesis
    by (auto simp: ensure_common_prefix_def fork_fits_def Let_def split: prod.split)
qed

lemma process_fork_takes:
  assumes bs: "bs \<noteq> []" "\<forall>x \<in> set bs. prepared e x" and fits: "fork_fits port r bs b"
    and lib: "signs_64 (env_lib e)"
    and leader: "get_leader_for_view (env_ft e) (env_cc e) (blk_view (cb_block b)) = Inr sender"
  shows "\<exists>r'. process_fork e port (fork_message bs b ci) sender r = Inr r'
    \<and> fr_out r' = fr_out r @ [FR_ToBroadcaster
        \<lparr>mf_fork_future = map (Inr \<circ> on_wire) bs, mf_remaining_parts = 0,
         mf_ae_stats = stats_of (fork_message bs b ci) sender\<rparr>]"
proof -
  obtain r1 where r1: "ensure_common_prefix port (fork_message bs b ci) r = Inr (r1, True)"
    using ensure_common_prefix_fits [OF bs fits] by blast
  note keep = ensure_common_prefix_simps [OF r1]
  have verify: "mapsE (\<lambda>h. verify_block_ser (env_lib e) (env_ft e) (env_cc e) (env_keys e)
      (fr_byzantine_liveness_threshold (env_ft e) (env_cc e)) (hs_body h)) (map half_serialize bs)
      = Inr (map (Inr \<circ> on_wire) bs)"
  proof -
    have "mapsE (f \<circ> g) xs = mapsE f (map g xs)" for f :: "half_block \<Rightarrow> (io_error + cached_block) result" and g and xs :: "cached_block list"
      by (induction xs) simp_all
    then show ?thesis
      using mapsE_total [of bs "(\<lambda>h. verify_block_ser (env_lib e) (env_ft e) (env_cc e) (env_keys e)
          (fr_byzantine_liveness_threshold (env_ft e) (env_cc e)) (hs_body h)) \<circ> half_serialize" "Inr \<circ> on_wire"]
        prepared_on_wire [OF _ lib] bs(2) by simp
  qed
  have split: "split_parts (blk_config_num (cb_block b)) [] (map half_serialize bs) = Some [map half_serialize bs]"
    using fits bs(1) split_one_config [of "map half_serialize bs" "blk_config_num (cb_block b)" "[]"]
    by (simp add: fork_fits_def)
  show ?thesis
    using fits bs(1)
    by (simp add: process_fork_def fork_fits_def r1 keep leader split forward_parts_def forward_part_def
        prepare_fork_def verify fr_emit_def Let_def)
qed

lemma process_other_block_delivers:
  "\<exists>t'. process_other_block ft rl \<lparr>mf_fork_future = map (Inr \<circ> f) bs, mf_remaining_parts = k,
       mf_ae_stats = st\<rparr> t = Inr t'
     \<and> deliveries (bb_out t') = deliveries (bb_out t) @ marked (\<lambda>_. st) (length bs) 0 (map f bs)"
proof -
  let ?g = "Inr \<circ> f :: 'b \<Rightarrow> io_error + cached_block"
  have "list_ex (case_sum (\<lambda>_. True) (\<lambda>_. False)) (map ?g bs) = False"
    by (induction bs) auto
  moreover have "projr \<circ> ?g = f" by auto
  ultimately have "process_other_block ft rl \<lparr>mf_fork_future = map (Inr \<circ> f) bs, mf_remaining_parts = k,
      mf_ae_stats = st\<rparr> t = forward_other ft rl st (length bs) 0 (map f bs) t"
    by (simp add: process_other_block_def Let_def)
  with forward_other_delivers [of ft rl st "length bs" 0 "map f bs" t] show ?thesis by simp
qed

lemma map_fst_marked: "map fst (marked st k cnt bs) = bs"
  by (simp add: marked_def comp_def map_nth)

section \<open>Properties\<close>

text \<open>
  C6: replication of the log. A leader processes its own block: its staging gets the pending
  fork prefix and the block, and one message goes to all other nodes. A follower in the
  same configuration, whose gate lets the fork through (\<open>fork_fits\<close>), verifies the message
  and hands its own broadcaster one part; the broadcaster stores the blocks and delivers to
  its staging exactly the blocks that the leader's staging got, in the same order, with the
  same bytes and hashes, the last one marked as the final block of the message; nothing on
  the way fails. The blocks were made by \<open>PrepareBlock\<close>; assumed of the signature library is
  that signatures are 64 bytes and not all zero.
\<close>
theorem fork_replicated:
  assumes "\<not> ft_evil (env_ft el)" and "bs = bb_fork_prefix_buffer s @ [b]"
    and "\<forall>x \<in> set bs. prepared ef x" and "signs_64 (env_lib ef)"
    and "get_leader_for_view (env_ft ef) (env_cc ef) (blk_view (cb_block b)) = Inr (net_name (env_cfg el))"
    and "fork_fits port r bs b"
  shows "\<exists>s' ae k r' mf t'.
      process_my_block el rl b s = Inr s'
      \<and> last (bb_out s') = BB_Broadcast (bb_get_everyone_except_me (env_cfg el)) ae k
      \<and> process_fork ef port ae (net_name (env_cfg el)) r = Inr r'
      \<and> fr_out r' = fr_out r @ [FR_ToBroadcaster mf]
      \<and> process_other_block (env_ft ef) rl' mf t = Inr t'
      \<and> map fst (deliveries (bb_out s')) = map fst (deliveries (bb_out s)) @ bs
      \<and> deliveries (bb_out t') = deliveries (bb_out t)
          @ marked (\<lambda>_. stats_of ae (net_name (env_cfg el))) (length bs) 0 (map on_wire bs)"
proof -
  obtain s' k where s': "process_my_block el rl b s = Inr s'"
    "last (bb_out s') = BB_Broadcast (bb_get_everyone_except_me (env_cfg el)) (fork_message bs b (bb_ci s)) k"
    "map fst (deliveries (bb_out s')) = map fst (deliveries (bb_out s)) @ bs"
    using process_my_block_delivers [OF assms(1), of rl b s] assms(2) by (auto simp: map_fst_marked)
  let ?ae = "fork_message bs b (bb_ci s)"
  obtain r' where r': "process_fork ef port ?ae (net_name (env_cfg el)) r = Inr r'"
    "fr_out r' = fr_out r @ [FR_ToBroadcaster \<lparr>mf_fork_future = map (Inr \<circ> on_wire) bs,
       mf_remaining_parts = 0, mf_ae_stats = stats_of ?ae (net_name (env_cfg el))\<rparr>]"
    using process_fork_takes [of bs ef port r b "net_name (env_cfg el)" "bb_ci s"] assms(2-6) by auto
  show ?thesis
    using s' r' process_other_block_delivers [of "env_ft ef" rl' on_wire bs 0 "stats_of ?ae (net_name (env_cfg el))" t]
    by blast
qed

definition leader_env :: "unit node_env" where
  "leader_env = gate_env\<lparr>env_cfg := demo_cfg ''node1''\<rparr>"

definition follower_state :: fork_receiver where
  "follower_state = (fork_receiver_new pirateship)\<lparr>fr_view := 1, fr_config_num := 1\<rparr>"

lemma demo_prepared:
  "\<exists>b. prepared gate_env b \<and> cb_n b = 1 \<and> blk_view (cb_block b) = 1 \<and> blk_config_num (cb_block b) = 1"
proof -
  obtain b where b: "prepare_block (env_lib gate_env) (demo_block 1 1 []) False FH_None = Inr b"
    using prepare_block_total [of FH_None default_hash False "env_lib gate_env" "demo_block 1 1 []"]
    by (auto simp: await_future_hash_def default_hash_def lengths)
  have "cb_n b = 1" "blk_view (cb_block b) = 1" "blk_config_num (cb_block b) = 1"
    by (rule prepare_block_cases [OF b], simp add: demo_block_def)+
  moreover have "prepared gate_env b"
    unfolding prepared_def
    by (rule exI [of _ "demo_block 1 1 []"], rule exI [of _ False], rule exI [of _ FH_None],
        rule exI [of _ "''node1''"], rule exI [of _ "()"], rule conjI [OF b])
      (simp add: gate_env_def demo_lib_def demo_block_def demo_ks_def demo_cfg_def demo_cc_def
        pirateship_def get_leader_for_view_def Let_def)
  ultimately show ?thesis by blast
qed

definition demo_bb :: "(bytes \<rightharpoonup> bytes) broadcaster" where
  "demo_bb = broadcaster_new Map.empty"

theorem fork_replicated_witness:
  "\<exists>b s' ae k r' mf t'. prepared gate_env b
      \<and> process_my_block leader_env demo_rocks b demo_bb = Inr s'
      \<and> last (bb_out s') = BB_Broadcast (bb_get_everyone_except_me (env_cfg leader_env)) ae k
      \<and> process_fork gate_env demo_port ae ''node1'' follower_state = Inr r'
      \<and> fr_out r' = fr_out follower_state @ [FR_ToBroadcaster mf]
      \<and> process_other_block pirateship demo_rocks mf demo_bb = Inr t'
      \<and> map fst (deliveries (bb_out t')) = [on_wire b]"
proof -
  obtain b where b: "prepared gate_env b" "cb_n b = 1" "blk_view (cb_block b) = 1" "blk_config_num (cb_block b) = 1"
    using demo_prepared by blast
  have env: "env_ft gate_env = pirateship" "env_cc gate_env = demo_cc" "env_cfg leader_env = demo_cfg ''node1''"
    "env_ft leader_env = pirateship"
    by (simp_all add: gate_env_def leader_env_def demo_cfg_def)
  have fits: "fork_fits demo_port follower_state [b] b"
    using b by (simp add: fork_fits_def follower_state_def fork_receiver_new_def last_hash_def check_hash_0)
  have sig: "signs_64 (env_lib gate_env)"
    by (simp add: signs_64_def gate_env_def demo_lib_def lengths)
  have leader: "get_leader_for_view (env_ft gate_env) (env_cc gate_env) (blk_view (cb_block b))
      = Inr (net_name (env_cfg leader_env))"
    by (simp add: env b get_leader_for_view_def pirateship_def demo_cc_def demo_cfg_def)
  have "\<exists>s' ae k r' mf t'.
      process_my_block leader_env demo_rocks b demo_bb = Inr s'
      \<and> last (bb_out s') = BB_Broadcast (bb_get_everyone_except_me (env_cfg leader_env)) ae k
      \<and> process_fork gate_env demo_port ae (net_name (env_cfg leader_env)) follower_state = Inr r'
      \<and> fr_out r' = fr_out follower_state @ [FR_ToBroadcaster mf]
      \<and> process_other_block (env_ft gate_env) demo_rocks mf demo_bb = Inr t'
      \<and> map fst (deliveries (bb_out s')) = map fst (deliveries (bb_out demo_bb)) @ [b]
      \<and> deliveries (bb_out t') = deliveries (bb_out demo_bb)
          @ marked (\<lambda>_. stats_of ae (net_name (env_cfg leader_env))) (length [b]) 0 (map on_wire [b])"
    by (rule fork_replicated) (use b fits sig leader env in \<open>simp_all add: pirateship_def demo_bb_def broadcaster_new_def\<close>)
  then show ?thesis
    using b(1) by (force simp: env demo_cfg_def demo_bb_def broadcaster_new_def map_fst_marked)
qed

text \<open>
a late rejection stops the fork receiver. The broadcaster answers a part with a bad
  block by \<open>MultipartNack\<close> with the number of parts that remained when the part was sent,
  and the fork receiver asserts that exactly so many parts are waiting. The receiver goes on
  in the meantime: if by then another number of parts is waiting, because a later fork with
  several parts was taken or because a part was released, the assertion fails and the node
  aborts.
\<close>
theorem late_multipart_nack_panics:
  assumes "fork_receiver_run e r" and "FR_ToBroadcaster mf \<in> set (fr_out r)"
    and "Inl err \<in> set (mf_fork_future mf)"
    and "length (fr_multipart_buffer r) \<noteq> mf_remaining_parts mf"
  shows "\<exists>t' cmd. process_other_block (env_ft e) rl mf t = Inr t'
      \<and> bb_out t' = bb_out t @ [BB_ToForkReceiver cmd]
      \<and> fork_receiver_worker e port (FR_Command (Some cmd)) r = Inl Assertion"
proof -
  have "list_ex (\<lambda>r. case r of Inl _ \<Rightarrow> True | Inr _ \<Rightarrow> False) (mf_fork_future mf)"
    using assms(3) by (force simp: list_ex_iff)
  then have "process_other_block (env_ft e) rl mf t
      = Inr (bb_emit (BB_ToForkReceiver (MultipartNack (mf_remaining_parts mf))) t)"
    by (simp add: process_other_block_def)
  then show ?thesis
    using assms(4) by (auto simp: bb_emit_def fr_multipart_nack_def)
qed

definition bad_ae :: append_entries where
  "bad_ae = \<lparr>ae_fork = Some [(demo_half 1 False)\<lparr>hs_body := replicate 64 2 @ replicate 64 0 @ [9]\<rparr>],
     ae_commit_index = 0, ae_view = 1, ae_view_is_stable = False, ae_config_num = 1,
     ae_is_backfill_response = False\<rparr>"

lemma demo_bad_fork:
  "\<exists>r err. process_fork gate_env demo_port bad_ae ''node1'' (fork_receiver_new pirateship) = Inr r
     \<and> fr_out r = [FR_ToBroadcaster \<lparr>mf_fork_future = [Inl err], mf_remaining_parts = 0,
           mf_ae_stats = stats_of bad_ae ''node1''\<rparr>]
     \<and> r = (fork_receiver_new pirateship)\<lparr>fr_last_ae_block_hash := FH_FutureResult (Inl err), fr_out := fr_out r\<rparr>"
proof -
  let ?body = "replicate 64 2 @ replicate 64 0 @ [9] :: bytes"
  have parent: "get_parent_hash_in_proto_block_ser ?body = Some (replicate 64 0)"
    by (simp add: get_parent_hash_in_proto_block_ser_def lengths)
  have env: "env_ft gate_env = pirateship" "env_cc gate_env = demo_cc" "env_keys gate_env = demo_ks"
    by (simp_all add: gate_env_def demo_cfg_def)
  have bad: "verify_block_ser (env_lib gate_env) pirateship demo_cc demo_ks m ?body = Inr (Inl Invalid_Signature)" for m
    by (simp add: verify_block_ser_def gate_env_def demo_lib_def demo_block_def demo_ks_def demo_cc_def
        deserialize_proto_block_def hash_proto_block_ser_def lengths Let_def list_all_iff
        get_leader_for_view_def pirateship_def keystore_verify_def)
  show ?thesis
    by (simp add: process_fork_def ensure_common_prefix_def last_hash_def Let_def demo_half_def bad_ae_def
        forward_parts_def forward_part_def prepare_fork_def fr_emit_def check_hash_0 parent env bad
        fork_receiver_new_def, simp add: pirateship_def)
qed

lemma demo_second_fork:
  assumes "r = (fork_receiver_new pirateship)\<lparr>fr_last_ae_block_hash := FH_FutureResult (Inl err), fr_out := os\<rparr>"
  shows "\<exists>r' m. process_fork gate_env demo_port demo_fork_ae ''node1'' r = Inr r'
     \<and> fr_out r' = os @ [m] \<and> length (fr_multipart_buffer r') = 1"
proof -
  have parent: "get_parent_hash_in_proto_block_ser plain_ser = Some (replicate 64 0)"
    by (simp add: get_parent_hash_in_proto_block_ser_def plain_ser_def lengths)
  have env: "env_ft gate_env = pirateship" "env_cc gate_env = demo_cc" "env_keys gate_env = demo_ks"
    by (simp_all add: gate_env_def demo_cfg_def)
  have fork: "ae_fork demo_fork_ae = Some [demo_half 1 False, demo_half 2 True]" "ae_view demo_fork_ae = 1"
    "ae_config_num demo_fork_ae = 1" by (simp_all add: demo_fork_ae_def)
  have new: "fr_view r = 0" "fr_config_num r = 0" "fr_last_ae_block_hash r = FH_FutureResult (Inl err)"
    "fr_out r = os" "fr_multipart_buffer r = []"
    by (simp_all add: assms fork_receiver_new_def pirateship_def)
  obtain b where b: "verify_block_ser (env_lib gate_env) pirateship demo_cc demo_ks
      (fr_byzantine_liveness_threshold pirateship demo_cc) plain_ser = Inr (Inr b)"
    using demo_plain_verifies by blast
  show ?thesis
    by (simp add: process_fork_def ensure_common_prefix_def last_hash_def Let_def demo_half_def
        forward_parts_def forward_part_def prepare_fork_def fr_emit_def check_hash_0 parent env fork new b)
qed

theorem late_multipart_nack_panics_witness:
  "\<exists>r mf t' cmd. fork_receiver_run gate_env r \<and> FR_ToBroadcaster mf \<in> set (fr_out r)
     \<and> process_other_block pirateship demo_rocks mf demo_bb = Inr t'
     \<and> bb_out t' = [BB_ToForkReceiver cmd]
     \<and> fork_receiver_worker gate_env demo_port (FR_Command (Some cmd)) r = Inl Assertion"
proof -
  define mf where "mf err = \<lparr>mf_fork_future = [Inl err], mf_remaining_parts = 0,
      mf_ae_stats = stats_of bad_ae ''node1''\<rparr>" for err
  obtain r1 err where r1: "process_fork gate_env demo_port bad_ae ''node1'' (fork_receiver_new pirateship) = Inr r1"
    "fr_out r1 = [FR_ToBroadcaster (mf err)]"
    "r1 = (fork_receiver_new pirateship)\<lparr>fr_last_ae_block_hash := FH_FutureResult (Inl err), fr_out := fr_out r1\<rparr>"
    using demo_bad_fork mf_def by metis
  from demo_second_fork [OF r1(3)] obtain r m where
    r: "process_fork gate_env demo_port demo_fork_ae ''node1'' r1 = Inr r" "fr_out r = fr_out r1 @ [m]"
      "length (fr_multipart_buffer r) = 1" by blast
  have env: "env_ft gate_env = pirateship" by (simp add: gate_env_def)
  have "fork_receiver_run gate_env r1"
    by (rule run_step [OF run_new, of _ "FR_Fork (Some (bad_ae, Auth ''node1'' 0))" demo_port])
      (use r1(1) in \<open>simp_all add: fork_receiver_new_def fr_waits_def env\<close>)
  then have run: "fork_receiver_run gate_env r"
  proof (rule run_step [of _ _ "FR_Fork (Some (demo_fork_ae, Auth ''node1'' 0))" demo_port])
    show "fr_accepts r1 (FR_Fork (Some (demo_fork_ae, Auth ''node1'' 0)))"
      by (subst r1(3)) (simp add: fork_receiver_new_def fr_waits_def)
  qed (use r(1) in simp)
  have "\<exists>t' cmd. process_other_block (env_ft gate_env) demo_rocks (mf err) demo_bb = Inr t'
      \<and> bb_out t' = bb_out demo_bb @ [BB_ToForkReceiver cmd]
      \<and> fork_receiver_worker gate_env demo_port (FR_Command (Some cmd)) r = Inl Assertion"
    by (rule late_multipart_nack_panics [OF run, where err = err]) (simp_all add: mf_def r r1(2))
  moreover have "FR_ToBroadcaster (mf err) \<in> set (fr_out r)" "bb_out demo_bb = []"
    by (simp_all add: r(2) r1(2) demo_bb_def broadcaster_new_def)
  ultimately show ?thesis using run unfolding env by (metis append_Nil)
qed

end
