(* ===== verification/BatchProposer.thy ===== *)
theory BatchProposer
  imports Types
begin

text \<open>
  The batch proposer (\<open>src/consensus/batch_proposal.rs\<close>) and the timer that drives it
  (\<open>src/utils/timer.rs\<close>): client transactions are collected into batches for the block
  sequencer; requests that need no consensus go to the application, probes to the reply
  handler, and a node that does not lead names the leader. The lemmas show that batches keep
  the order of the requests, pair every transaction with its client and respect the size
  limit.
\<close>

section \<open>The resettable timer\<close>

text \<open>
  The timer task sends a signal on a channel of capacity one after each period, unless the
  timer was reset during the period; a full channel blocks the task. Durations are left to
  the runtime; \<open>RandomResettableTimer\<close> differs only in them.
\<close>

record timer =
  tm_is_cancelled :: bool
  tm_signals :: nat
  tm_sending :: bool

definition timer_new :: timer where
  "timer_new = \<lparr>tm_is_cancelled = False, tm_signals = 0, tm_sending = False\<rparr>"

definition timer_fire_now :: "timer \<Rightarrow> timer" where
  "timer_fire_now t = (if tm_signals t < 1 then t\<lparr>tm_signals := tm_signals t + 1\<rparr> else t)"

text \<open>The end of a period; it does not come while the task is blocked in \<open>send\<close>.\<close>

definition timer_period :: "timer \<Rightarrow> timer" where
  "timer_period t =
     (if tm_sending t then t
      else if tm_is_cancelled t then t\<lparr>tm_is_cancelled := False\<rparr>
      else if tm_signals t < 1 then t\<lparr>tm_signals := tm_signals t + 1\<rparr>
      else t\<lparr>tm_sending := True\<rparr>)"

text \<open>\<open>wait\<close> returns when a signal is there; \<open>None\<close> while it blocks.\<close>

definition timer_wait :: "timer \<Rightarrow> timer option" where
  "timer_wait t =
     (if tm_signals t = 0 then None
      else if tm_sending t then Some (t\<lparr>tm_sending := False\<rparr>)
      else Some (t\<lparr>tm_signals := tm_signals t - 1\<rparr>))"

definition timer_reset :: "timer \<Rightarrow> timer" where
  "timer_reset t = t\<lparr>tm_is_cancelled := True\<rparr>"

section \<open>The proposer\<close>

type_synonym tx_with_ack_chan_tag = "transaction option \<times> msg_ack_chan"

datatype batch_proposer_out =
    BP_ToBlockMaker "transaction list" "msg_ack_chan list"
  | BP_ToUnlogged transaction nat
  | BP_ToReplyHandler client_reply_command
  | BP_Reply msg_ack_chan client_reply_msg

text \<open>
  \<open>bp_next_chan\<close> numbers the one-shot channels; the clock values are milliseconds.
\<close>

record batch_proposer =
  bp_current_raw_batch :: "transaction list option"
  bp_current_reply_vec :: "msg_ack_chan list"
  bp_batch_timer :: timer
  bp_make_new_batches :: bool
  bp_current_leader :: string
  bp_last_batch_proposed :: u64
  bp_next_chan :: nat
  bp_out :: "batch_proposer_out list"

definition batch_proposer_new :: "features \<Rightarrow> config \<Rightarrow> u64 \<Rightarrow> batch_proposer result" where
  "batch_proposer_new ft cfg now =
     (let ret = \<lparr>bp_current_raw_batch = Some [], bp_current_reply_vec = [], bp_batch_timer = timer_new,
           bp_make_new_batches = False, bp_current_leader = '''', bp_last_batch_proposed = now,
           bp_next_chan = 0, bp_out = []\<rparr>
      in if ft_view_change ft then Inr ret
         else bindE (get_leader_for_view ft (consensus cfg) 1) (\<lambda>leader.
                Inr (ret\<lparr>bp_make_new_batches := (leader = net_name cfg), bp_current_leader := leader\<rparr>)))"

definition bp_emit :: "batch_proposer_out \<Rightarrow> batch_proposer \<Rightarrow> batch_proposer" where
  "bp_emit m s = s\<lparr>bp_out := bp_out s @ [m]\<rparr>"

definition bp_i_am_leader :: "config \<Rightarrow> batch_proposer \<Rightarrow> bool" where
  "bp_i_am_leader cfg s \<longleftrightarrow> net_name cfg = bp_current_leader s"

definition is_probe_tx :: "transaction \<Rightarrow> bool \<times> u64" where
  "is_probe_tx tx =
     (case on_receive tx of
        None \<Rightarrow> (False, 0)
      | Some ph \<Rightarrow>
          (case ops ph of
             [op] \<Rightarrow>
               if op_type op \<noteq> op_type_number PROBE then (False, 0)
               else (case operands op of
                       [block_n] \<Rightarrow> if length block_n = 8 then (True, from_be block_n) else (False, 0)
                     | _ \<Rightarrow> (False, 0))
           | _ \<Rightarrow> (False, 0)))"

text \<open>\<open>None\<close> means that the request is not processed further.\<close>

definition filter_unlogged_request ::
  "tx_with_ack_chan_tag \<Rightarrow> batch_proposer \<Rightarrow> (batch_proposer \<times> tx_with_ack_chan_tag option) result" where
  "filter_unlogged_request req s =
     (case req of
        (tx0, ack_chan) \<Rightarrow>
          bindE (unwrap tx0) (\<lambda>tx.
            if on_receive tx \<noteq> None then
              (case is_probe_tx tx of
                 (is_probe, block_n) \<Rightarrow>
                   (let c = bp_next_chan s; s1 = s\<lparr>bp_next_chan := c + 1\<rparr>
                    in if \<not> is_probe
                       then Inr (bp_emit (BP_ToReplyHandler (UnloggedRequestAck c ack_chan))
                                   (bp_emit (BP_ToUnlogged tx c) s1), None)
                       else Inr (bp_emit (BP_ToReplyHandler (ProbeRequestAck block_n ack_chan)) s1, None)))
            else Inr (s, Some (Some tx, ack_chan))))"

definition reply_leader :: "config \<Rightarrow> tx_with_ack_chan_tag \<Rightarrow> batch_proposer \<Rightarrow> batch_proposer" where
  "reply_leader cfg req s =
     (case snd req of
        (chan, client_tag, client) \<Rightarrow>
          bp_emit (BP_Reply (chan, client_tag, client)
            \<lparr>rp_reply = Some (Reply_Leader (bp_current_leader s) (node_infos cfg)),
             rp_client_tag = client_tag\<rparr>) s)"

definition propose_new_batch :: "u64 \<Rightarrow> batch_proposer \<Rightarrow> batch_proposer result" where
  "propose_new_batch now s =
     bindE (unwrap (bp_current_raw_batch s)) (\<lambda>batch.
       Inr ((bp_emit (BP_ToBlockMaker batch (bp_current_reply_vec s)) s)
              \<lparr>bp_last_batch_proposed := now, bp_current_raw_batch := Some [],
               bp_current_reply_vec := [], bp_batch_timer := timer_reset (bp_batch_timer s)\<rparr>))"

definition maybe_propose :: "config \<Rightarrow> u64 \<Rightarrow> bool \<Rightarrow> batch_proposer \<Rightarrow> batch_proposer result" where
  "maybe_propose cfg now batch_timer_tick s =
     bindE (unwrap (bp_current_raw_batch s)) (\<lambda>batch.
       if length batch \<ge> max_backlog_batch_size (consensus cfg)
          \<or> bp_make_new_batches s \<and> batch_timer_tick
       then propose_new_batch now s else Inr s)"

text \<open>
  The rest of \<open>worker\<close> after a transaction arrived: \<open>register_reply_malformed\<close> does nothing.
\<close>

definition handle_new_tx :: "config \<Rightarrow> u64 \<Rightarrow> tx_with_ack_chan_tag \<Rightarrow> batch_proposer \<Rightarrow> batch_proposer result" where
  "handle_new_tx cfg now req s =
     (let batch_timer_tick = (now - bp_last_batch_proposed s \<ge> batch_max_delay_ms (consensus cfg))
      in bindE (filter_unlogged_request req s) (\<lambda>(s1, new_tx).
           case new_tx of
             None \<Rightarrow> maybe_propose cfg now batch_timer_tick s1
           | Some (tx, ack_chan) \<Rightarrow>
               if \<not> bp_i_am_leader cfg s1 then Inr (reply_leader cfg (tx, ack_chan) s1)
               else (case tx of
                       None \<Rightarrow> Inr s1
                     | Some t \<Rightarrow>
                         bindE (unwrap (bp_current_raw_batch s1)) (\<lambda>batch.
                           maybe_propose cfg now batch_timer_tick
                             (s1\<lparr>bp_current_raw_batch := Some (batch @ [t]),
                                 bp_current_reply_vec := bp_current_reply_vec s1 @ [ack_chan]\<rparr>)))))"

datatype batch_proposer_event =
    BP_NewTx "tx_with_ack_chan_tag option"
  | BP_Command "(bool \<times> string) option"
  | BP_Tick

text \<open>A tick is only received when the timer has a signal.\<close>

fun batch_proposer_worker ::
  "config \<Rightarrow> u64 \<Rightarrow> batch_proposer_event \<Rightarrow> batch_proposer \<Rightarrow> batch_proposer result" where
  "batch_proposer_worker cfg now (BP_NewTx None) s = Inl Err_Unit"
| "batch_proposer_worker cfg now (BP_NewTx (Some req)) s = handle_new_tx cfg now req s"
| "batch_proposer_worker cfg now (BP_Command None) s = Inl Unwrap_None"
| "batch_proposer_worker cfg now (BP_Command (Some (make_new_batches, current_leader))) s =
     Inr (s\<lparr>bp_make_new_batches := make_new_batches, bp_current_leader := current_leader\<rparr>)"
| "batch_proposer_worker cfg now BP_Tick s =
     (case timer_wait (bp_batch_timer s) of
        None \<Rightarrow> Inr s
      | Some t \<Rightarrow> maybe_propose cfg now True (s\<lparr>bp_batch_timer := t\<rparr>))"

definition batch_proposer_run ::
  "config \<Rightarrow> (u64 \<times> batch_proposer_event) list \<Rightarrow> batch_proposer \<Rightarrow> batch_proposer result" where
  "batch_proposer_run cfg evs s = foldE (\<lambda>(now, ev). batch_proposer_worker cfg now ev) evs s"

section \<open>Batches keep the requests\<close>

fun batches :: "batch_proposer_out list \<Rightarrow> (transaction list \<times> msg_ack_chan list) list" where
  "batches [] = []"
| "batches (BP_ToBlockMaker txs chans # os) = (txs, chans) # batches os"
| "batches (_ # os) = batches os"

lemma batches_append: "batches (xs @ ys) = batches xs @ batches ys"
  by (induction xs rule: batches.induct) auto

text \<open>The requests that an event adds to the current batch, and those of a whole run.\<close>

definition accepts :: "config \<Rightarrow> batch_proposer \<Rightarrow> batch_proposer_event \<Rightarrow> (transaction \<times> msg_ack_chan) list" where
  "accepts cfg s ev =
     (case ev of
        BP_NewTx (Some (Some t, chan)) \<Rightarrow>
          if on_receive t = None \<and> bp_i_am_leader cfg s then [(t, chan)] else []
      | _ \<Rightarrow> [])"

fun accepted_run ::
  "config \<Rightarrow> (u64 \<times> batch_proposer_event) list \<Rightarrow> batch_proposer \<Rightarrow> (transaction \<times> msg_ack_chan) list" where
  "accepted_run cfg [] s = []"
| "accepted_run cfg ((now, ev) # evs) s =
     accepts cfg s ev @ (case batch_proposer_worker cfg now ev s of
                           Inr s' \<Rightarrow> accepted_run cfg evs s' | Inl _ \<Rightarrow> [])"

definition bp_log :: "batch_proposer \<Rightarrow> transaction list \<times> msg_ack_chan list" where
  "bp_log s =
     (concat (map fst (batches (bp_out s))) @ (case bp_current_raw_batch s of Some b \<Rightarrow> b | None \<Rightarrow> []),
      concat (map snd (batches (bp_out s))) @ bp_current_reply_vec s)"

definition batch_limit :: "config \<Rightarrow> nat" where
  "batch_limit cfg = max 1 (max_backlog_batch_size (consensus cfg))"

definition bp_inv :: "config \<Rightarrow> batch_proposer \<Rightarrow> bool" where
  "bp_inv cfg s \<longleftrightarrow>
     (\<exists>b. bp_current_raw_batch s = Some b \<and> length b = length (bp_current_reply_vec s)
        \<and> length b < batch_limit cfg)
     \<and> (\<forall>(txs, chans) \<in> set (batches (bp_out s)). length txs = length chans \<and> length txs \<le> batch_limit cfg)"

text \<open>Before \<open>maybe_propose\<close> the batch may have reached its limit.\<close>

definition bp_pre :: "config \<Rightarrow> batch_proposer \<Rightarrow> bool" where
  "bp_pre cfg s \<longleftrightarrow>
     (\<exists>b. bp_current_raw_batch s = Some b \<and> length b = length (bp_current_reply_vec s)
        \<and> length b \<le> batch_limit cfg)
     \<and> (\<forall>(txs, chans) \<in> set (batches (bp_out s)). length txs = length chans \<and> length txs \<le> batch_limit cfg)"

lemma bp_inv_pre: "bp_inv cfg s \<Longrightarrow> bp_pre cfg s"
  by (auto simp: bp_inv_def bp_pre_def)

lemma maybe_propose_ok:
  assumes "bp_pre cfg s"
  shows "\<exists>s'. maybe_propose cfg now tick s = Inr s' \<and> bp_inv cfg s' \<and> bp_log s' = bp_log s"
proof -
  from assms obtain b where b: "bp_current_raw_batch s = Some b" "length b = length (bp_current_reply_vec s)"
    "length b \<le> batch_limit cfg"
    and old: "\<forall>(txs, chans) \<in> set (batches (bp_out s)). length txs = length chans \<and> length txs \<le> batch_limit cfg"
    by (auto simp: bp_pre_def)
  show ?thesis
    using b old
    by (auto simp: maybe_propose_def propose_new_batch_def bp_inv_def bp_log_def bp_emit_def
        batches_append batch_limit_def)
qed

text \<open>The events that a running node can see: channels open and a transaction in every request.\<close>

fun bp_event_ok :: "batch_proposer_event \<Rightarrow> bool" where
  "bp_event_ok (BP_NewTx None) \<longleftrightarrow> False"
| "bp_event_ok (BP_NewTx (Some (tx, _))) \<longleftrightarrow> tx \<noteq> None"
| "bp_event_ok (BP_Command c) \<longleftrightarrow> c \<noteq> None"
| "bp_event_ok BP_Tick \<longleftrightarrow> True"

lemma filter_unlogged_cases:
  "\<exists>s1. filter_unlogged_request (Some t, chan) s
      = Inr (s1, if on_receive t = None then Some (Some t, chan) else None)
    \<and> (on_receive t = None \<longrightarrow> s1 = s)
    \<and> bp_current_raw_batch s1 = bp_current_raw_batch s \<and> bp_current_reply_vec s1 = bp_current_reply_vec s
    \<and> batches (bp_out s1) = batches (bp_out s)"
  by (auto simp: filter_unlogged_request_def bp_emit_def batches_append Let_def split: prod.split)

lemma bp_frame:
  assumes "bp_current_raw_batch s1 = bp_current_raw_batch s"
    and "bp_current_reply_vec s1 = bp_current_reply_vec s" and "batches (bp_out s1) = batches (bp_out s)"
  shows "bp_inv cfg s1 = bp_inv cfg s" and "bp_log s1 = bp_log s"
  using assms by (simp_all add: bp_inv_def bp_log_def)

lemma handle_new_tx_ok:
  assumes inv: "bp_inv cfg s"
  shows "\<exists>s'. handle_new_tx cfg now (Some t, chan) s = Inr s' \<and> bp_inv cfg s'
    \<and> bp_log s' = (fst (bp_log s) @ map fst (accepts cfg s (BP_NewTx (Some (Some t, chan)))),
                   snd (bp_log s) @ map snd (accepts cfg s (BP_NewTx (Some (Some t, chan)))))"
proof (cases "on_receive t = None")
  case False
  from filter_unlogged_cases [of t chan s] False obtain s1 where
    s1: "filter_unlogged_request (Some t, chan) s = Inr (s1, None)"
      "bp_current_raw_batch s1 = bp_current_raw_batch s" "bp_current_reply_vec s1 = bp_current_reply_vec s"
      "batches (bp_out s1) = batches (bp_out s)" by auto
  have "bp_pre cfg s1" using inv by (intro bp_inv_pre) (simp add: bp_frame [OF s1(2-4)])
  from maybe_propose_ok [OF this] bp_frame(2) [OF s1(2-4)] False show ?thesis
    by (auto simp: handle_new_tx_def Let_def s1(1) accepts_def)
next
  case True
  then have filt: "filter_unlogged_request (Some t, chan) s = Inr (s, Some (Some t, chan))"
    using filter_unlogged_cases [of t chan s] by auto
  show ?thesis
  proof (cases "bp_i_am_leader cfg s")
    case False
    have "bp_inv cfg (reply_leader cfg (Some t, chan) s)" "bp_log (reply_leader cfg (Some t, chan) s) = bp_log s"
      using inv by (auto simp: reply_leader_def bp_emit_def batches_append bp_inv_def bp_log_def split: prod.split)
    with False filt show ?thesis by (simp add: handle_new_tx_def Let_def accepts_def)
  next
    case leader: True
    from inv obtain b where b: "bp_current_raw_batch s = Some b" "length b = length (bp_current_reply_vec s)"
      "length b < batch_limit cfg"
      and old: "\<forall>(txs, chans) \<in> set (batches (bp_out s)). length txs = length chans \<and> length txs \<le> batch_limit cfg"
      by (auto simp: bp_inv_def)
    let ?s = "s\<lparr>bp_current_raw_batch := Some (b @ [t]), bp_current_reply_vec := bp_current_reply_vec s @ [chan]\<rparr>"
    have "bp_pre cfg ?s" using b old by (simp add: bp_pre_def)
    from maybe_propose_ok [OF this] True leader filt b show ?thesis
      by (simp add: handle_new_tx_def Let_def accepts_def bp_log_def)
  qed
qed

lemma batch_proposer_worker_ok:
  assumes inv: "bp_inv cfg s" and ok: "bp_event_ok ev"
  shows "\<exists>s'. batch_proposer_worker cfg now ev s = Inr s' \<and> bp_inv cfg s'
    \<and> bp_log s' = (fst (bp_log s) @ map fst (accepts cfg s ev), snd (bp_log s) @ map snd (accepts cfg s ev))"
proof (cases ev)
  case (BP_NewTx r)
  with ok obtain t chan where "ev = BP_NewTx (Some (Some t, chan))"
    by (cases "(ev)" rule: bp_event_ok.cases) auto
  with handle_new_tx_ok [OF inv] show ?thesis by simp
next
  case (BP_Command c)
  with ok inv show ?thesis by (auto simp: accepts_def bp_inv_def bp_log_def)
next
  case BP_Tick
  show ?thesis
  proof (cases "timer_wait (bp_batch_timer s)")
    case (Some t)
    have "bp_pre cfg (s\<lparr>bp_batch_timer := t\<rparr>)" using inv by (intro bp_inv_pre) (simp add: bp_inv_def)
    from maybe_propose_ok [OF this, of now True] Some BP_Tick show ?thesis
      by (auto simp: accepts_def bp_log_def)
  qed (use BP_Tick inv in \<open>simp add: accepts_def\<close>)
qed

lemma batch_proposer_run_ok:
  assumes "bp_inv cfg s" and "\<forall>(now, ev) \<in> set evs. bp_event_ok ev"
  shows "\<exists>s'. batch_proposer_run cfg evs s = Inr s' \<and> bp_inv cfg s'
    \<and> bp_log s' = (fst (bp_log s) @ map fst (accepted_run cfg evs s),
                   snd (bp_log s) @ map snd (accepted_run cfg evs s))"
  using assms
proof (induction evs arbitrary: s)
  case Nil
  then show ?case by (simp add: batch_proposer_run_def)
next
  case (Cons e evs)
  obtain now ev where e: "e = (now, ev)" by force
  with Cons.prems obtain s1 where s1: "batch_proposer_worker cfg now ev s = Inr s1" "bp_inv cfg s1"
    "bp_log s1 = (fst (bp_log s) @ map fst (accepts cfg s ev), snd (bp_log s) @ map snd (accepts cfg s ev))"
    using batch_proposer_worker_ok [of cfg s ev now] by auto
  from Cons.IH [OF s1(2)] Cons.prems(2) s1 show ?case by (auto simp: e batch_proposer_run_def)
qed

section \<open>Properties\<close>

text \<open>
  C29: batching keeps requests, order and clients. Start the proposer and let any sequence of
  events happen: requests that carry a transaction, changes of the leader, timer signals. No
  event fails. The transactions of all batches sent to the sequencer followed by those of the
  current batch are exactly the accepted requests in their order of arrival, and the reply
  channels are in the same order, so that the \<open>i\<close>-th channel of a batch belongs to its \<open>i\<close>-th
  transaction. No batch exceeds the configured size.
\<close>
theorem batches_keep_requests:
  assumes "batch_proposer_new ft cfg t0 = Inr s0" and "\<forall>(now, ev) \<in> set evs. bp_event_ok ev"
  shows "\<exists>s batch. batch_proposer_run cfg evs s0 = Inr s
    \<and> bp_current_raw_batch s = Some batch
    \<and> map fst (accepted_run cfg evs s0) = concat (map fst (batches (bp_out s))) @ batch
    \<and> map snd (accepted_run cfg evs s0) = concat (map snd (batches (bp_out s))) @ bp_current_reply_vec s
    \<and> (\<forall>(txs, chans) \<in> set (batches (bp_out s)). length txs = length chans
         \<and> length txs \<le> max 1 (max_backlog_batch_size (consensus cfg)))"
proof -
  have s0: "bp_inv cfg s0" "bp_log s0 = ([], [])"
    using assms(1) by (auto simp: batch_proposer_new_def bp_inv_def bp_log_def batch_limit_def Let_def
        elim!: bindE_InrE split: if_split_asm)
  from batch_proposer_run_ok [OF s0(1) assms(2)] obtain s where
    "batch_proposer_run cfg evs s0 = Inr s" "bp_inv cfg s"
    "bp_log s = (map fst (accepted_run cfg evs s0), map snd (accepted_run cfg evs s0))"
    by (auto simp: s0(2))
  then show ?thesis by (auto simp: bp_inv_def bp_log_def batch_limit_def)
qed

definition plain_tx :: "bool \<Rightarrow> transaction" where
  "plain_tx r = \<lparr>on_receive = None, on_crash_commit = Some \<lparr>ops = []\<rparr>, on_byzantine_commit = None,
     is_reconfiguration = r, is_2pc = False\<rparr>"

definition batch_cfg :: config where
  "batch_cfg = \<lparr>net_name = ''node1'', node_infos = ''infos'',
     consensus = \<lparr>node_list = [''node1''], learner_list = [], max_backlog_batch_size = 2,
       batch_max_delay_ms = 5, signature_max_delay_blocks = 10, liveness_u = 0,
       commit_index_gap_soft = 500, commit_index_gap_hard = 1000\<rparr>,
     simulate_byzantine_behavior = False, byzantine_start_block = 0\<rparr>"

definition demo_bp_events :: "(u64 \<times> batch_proposer_event) list" where
  "demo_bp_events =
     [(0, BP_Command (Some (True, ''node1''))),
      (1, BP_NewTx (Some (Some (plain_tx False), (0, 7, Anon)))),
      (2, BP_NewTx (Some (Some (plain_tx True), (1, 8, Anon)))),
      (3, BP_NewTx (Some (Some (plain_tx False), (2, 9, Anon))))]"

theorem batches_keep_requests_witness:
  "\<exists>s0 s batch. batch_proposer_new pirateship batch_cfg 0 = Inr s0
    \<and> batch_proposer_run batch_cfg demo_bp_events s0 = Inr s
    \<and> bp_current_raw_batch s = Some batch
    \<and> map fst (accepted_run batch_cfg demo_bp_events s0) = concat (map fst (batches (bp_out s))) @ batch"
proof -
  obtain s0 where s0: "batch_proposer_new pirateship batch_cfg 0 = Inr s0"
    by (simp add: batch_proposer_new_def pirateship_def Let_def)
  have "\<forall>(now, ev) \<in> set demo_bp_events. bp_event_ok ev" by (simp add: demo_bp_events_def)
  from batches_keep_requests [OF s0 this] s0 show ?thesis by blast
qed

text \<open>
  A client request without a transaction, which the message format allows, makes the proposer
  panic: \<open>filter_unlogged_request\<close> unwraps it before the check for malformed requests.
\<close>
lemma request_without_tx_panics:
  "batch_proposer_worker cfg now (BP_NewTx (Some (None, chan))) s = Inl Unwrap_None"
  by (simp add: handle_new_tx_def filter_unlogged_request_def Let_def)

text \<open>A reset suppresses the signal of the running period and only that one.\<close>

lemma timer_reset_skips_one_period:
  assumes "tm_signals t = 0" and "\<not> tm_sending t"
  shows "timer_wait (timer_period (timer_reset t)) = None
    \<and> timer_wait (timer_period (timer_period (timer_reset t))) \<noteq> None"
  using assms by (simp add: timer_wait_def timer_period_def timer_reset_def)

end
