(* ===== verification/Sequencer.thy ===== *)
theory Sequencer
  imports Crypto
begin

text \<open>
  The block sequencer (\<open>src/consensus/block_sequencer.rs\<close>): it turns batches into numbered
  blocks, links each to the hash of the one before, decides which blocks are signed and
  attaches quorum certificates to signed blocks only. The hashing and signing that the
  crypto service does in parallel is called in place, so a future parent hash is already
  its value.
\<close>

section \<open>Definitions\<close>

record sequencer =
  sq_current_qc_list :: "quorum_certificate list"
  sq_parent_hash_rx :: future_hash
  sq_seq_num :: u64
  sq_view :: u64
  sq_config_num :: u64
  sq_view_is_stable :: bool
  sq_force_sign_next_batch :: bool
  sq_last_signed_seq_num :: u64
  sq_last_qc_n_seen :: u64
  sq_blocks_proposed_in_this_view :: u64
  sq_client_reply :: "(bytes \<times> msg_ack_chan list) list"
  sq_block_broadcaster :: "(u64 \<times> cached_block) list"

definition sequencer_new :: "features \<Rightarrow> sequencer" where
  "sequencer_new ft =
     \<lparr>sq_current_qc_list = [], sq_parent_hash_rx = FH_None, sq_seq_num = 0,
      sq_view = (if ft_view_change ft then 0 else 1),
      sq_config_num = (if ft_view_change ft then 0 else 1),
      sq_view_is_stable = (\<not> ft_view_change ft),
      sq_force_sign_next_batch = False, sq_last_signed_seq_num = 0, sq_last_qc_n_seen = 0,
      sq_blocks_proposed_in_this_view = 0, sq_client_reply = [], sq_block_broadcaster = []\<rparr>"

definition seq_must_sign :: "features \<Rightarrow> config \<Rightarrow> u64 \<Rightarrow> sequencer \<Rightarrow> bool result" where
  "seq_must_sign ft cfg n s =
     (case ft_sign ft of
        Dynamic_Sign \<Rightarrow>
          (if sq_force_sign_next_batch s
              \<or> u64_sub n (sq_last_signed_seq_num s) \<ge> signature_max_delay_blocks (consensus cfg)
           then Inr True
           else mapE (\<lambda>l. l \<and> \<not> sq_view_is_stable s) (i_am_leader ft cfg (sq_view s)))
      | Never_Sign \<Rightarrow> Inr False
      | Always_Sign \<Rightarrow> Inr True)"

definition handle_new_batch ::
  "'k crypto_lib \<Rightarrow> features \<Rightarrow> config \<Rightarrow> transaction list \<Rightarrow> msg_ack_chan list \<Rightarrow> fork_validation list
     \<Rightarrow> sequencer \<Rightarrow> sequencer result" where
  "handle_new_batch lib ft cfg batch replies fvs s =
     (let n = sq_seq_num s + 1
      in bindE (seq_must_sign ft cfg n s) (\<lambda>must_sign.
         let qc_list = (if must_sign then sq_current_qc_list s else []);
             block = \<lparr>tx_list = batch, blk_n = n, blk_parent = [], blk_view = sq_view s,
               blk_qc = qc_list, blk_fork_validation = fvs,
               blk_view_is_stable = sq_view_is_stable s, blk_config_num = sq_config_num s,
               blk_sig = Some NoSig\<rparr>
         in bindE (prepare_block lib block must_sign (fst (future_hash_take (sq_parent_hash_rx s))))
              (\<lambda>cb. Inr (s\<lparr>
                 sq_seq_num := n,
                 sq_last_signed_seq_num := (if must_sign then n else sq_last_signed_seq_num s),
                 sq_force_sign_next_batch := (if must_sign then False else sq_force_sign_next_batch s),
                 sq_current_qc_list := (if must_sign then [] else sq_current_qc_list s),
                 sq_parent_hash_rx := FH_Future (cb_hash cb),
                 sq_client_reply := sq_client_reply s @ [(cb_hash cb, replies)],
                 sq_block_broadcaster := sq_block_broadcaster s @ [(n, cb)]\<rparr>))))"

fun add_qcs :: "quorum_certificate list \<Rightarrow> sequencer \<Rightarrow> sequencer" where
  "add_qcs [] s = s"
| "add_qcs (qc # qcs) s =
     add_qcs qcs
       (if qc_view qc \<noteq> sq_view s then s
        else s\<lparr>sq_last_qc_n_seen := (if qc_n qc > sq_last_qc_n_seen s then qc_n qc else sq_last_qc_n_seen s),
               sq_current_qc_list := sq_current_qc_list s @ [qc]\<rparr>)"

fun sq_handle_control_command ::
  "'k crypto_lib \<Rightarrow> features \<Rightarrow> config \<Rightarrow> sequencer_command option \<Rightarrow> sequencer \<Rightarrow> sequencer result" where
  "sq_handle_control_command lib ft cfg None s = Inr s"
| "sq_handle_control_command lib ft cfg (Some (NewUnstableView v c)) s =
     Inr (s\<lparr>sq_view := v, sq_config_num := c, sq_view_is_stable := False,
            sq_current_qc_list := filter (\<lambda>e. qc_view e \<ge> v) (sq_current_qc_list s),
            sq_blocks_proposed_in_this_view := 0, sq_last_qc_n_seen := sq_seq_num s\<rparr>)"
| "sq_handle_control_command lib ft cfg (Some (ViewStabilised v c)) s =
     Inr (s\<lparr>sq_view := v, sq_config_num := c, sq_view_is_stable := True,
            sq_current_qc_list := filter (\<lambda>e. qc_view e \<ge> v) (sq_current_qc_list s),
            sq_blocks_proposed_in_this_view := 0, sq_last_qc_n_seen := sq_seq_num s\<rparr>)"
| "sq_handle_control_command lib ft cfg (Some (NewViewMessage v c fvs new_parent_hash new_seq_num)) s =
     (let s1 = s\<lparr>sq_view := v, sq_config_num := c, sq_view_is_stable := False,
                 sq_current_qc_list := filter (\<lambda>e. qc_view e = v) (sq_current_qc_list s),
                 sq_last_qc_n_seen := new_seq_num, sq_blocks_proposed_in_this_view := 0\<rparr>
      in bindE (i_am_leader ft cfg v) (\<lambda>leader.
           if \<not> leader then Inr s1
           else handle_new_batch lib ft cfg [] [] fvs
                  (s1\<lparr>sq_seq_num := new_seq_num, sq_parent_hash_rx := FH_Immediate new_parent_hash\<rparr>)))"

datatype sequencer_event =
    SQ_Qcs "quorum_certificate list"
  | SQ_SignatureTick
  | SQ_Batch "(transaction list \<times> msg_ack_chan list) option"
  | SQ_Command "sequencer_command option"

text \<open>
  One turn of the worker: \<open>pending\<close> is what the certificate channel holds when the turn
  starts, the event is the arm that \<open>select!\<close> takes. A node that does not lead a stable
  view has no timer arm, and answers a batch with an empty hash.
\<close>

definition sequencer_worker ::
  "'k crypto_lib \<Rightarrow> features \<Rightarrow> config \<Rightarrow> quorum_certificate list \<Rightarrow> sequencer_event \<Rightarrow> sequencer
     \<Rightarrow> sequencer result" where
  "sequencer_worker lib ft cfg pending ev s0 =
     bindE (if sq_view_is_stable s0 then i_am_leader ft cfg (sq_view s0) else Inr False)
       (\<lambda>listen_for_new_batch.
       let s = (if \<not> ft_no_qc ft \<and> pending \<noteq> []
                   \<and> (ft_no_pipeline ft \<longrightarrow> sq_current_qc_list s0 = [])
                then add_qcs pending s0 else s0)
       in case ev of
            SQ_Qcs qcs \<Rightarrow> Inr (add_qcs qcs s)
          | SQ_Command cmd \<Rightarrow> sq_handle_control_command lib ft cfg cmd s
          | SQ_SignatureTick \<Rightarrow>
              Inr (if listen_for_new_batch then s\<lparr>sq_force_sign_next_batch := True\<rparr> else s)
          | SQ_Batch None \<Rightarrow> Inr s
          | SQ_Batch (Some (batch, client_reply)) \<Rightarrow>
              if listen_for_new_batch
              then handle_new_batch lib ft cfg batch client_reply []
                     (s\<lparr>sq_blocks_proposed_in_this_view := sq_blocks_proposed_in_this_view s + 1\<rparr>)
              else Inr (s\<lparr>sq_client_reply := sq_client_reply s @ [([], client_reply)]\<rparr>))"

section \<open>Frames and single steps\<close>

lemma add_qcs_frame [frame_simps]:
  "sq_seq_num (add_qcs qcs s) = sq_seq_num s"
  "sq_view (add_qcs qcs s) = sq_view s"
  "sq_view_is_stable (add_qcs qcs s) = sq_view_is_stable s"
  "sq_parent_hash_rx (add_qcs qcs s) = sq_parent_hash_rx s"
  "sq_last_signed_seq_num (add_qcs qcs s) = sq_last_signed_seq_num s"
  "sq_force_sign_next_batch (add_qcs qcs s) = sq_force_sign_next_batch s"
  "sq_block_broadcaster (add_qcs qcs s) = sq_block_broadcaster s"
  "sq_client_reply (add_qcs qcs s) = sq_client_reply s"
  "sq_config_num (add_qcs qcs s) = sq_config_num s"
  by (induction qcs arbitrary: s) simp_all

lemma add_qcs_list:
  "sq_current_qc_list (add_qcs qcs s) =
     sq_current_qc_list s @ filter (\<lambda>qc. qc_view qc = sq_view s) qcs"
  by (induction qcs arbitrary: s) simp_all

text \<open>What one proposed block looks like.\<close>

lemma handle_new_batch_block:
  assumes "handle_new_batch lib ft cfg batch replies fvs s = Inr s'"
  obtains must_sign cb parent where
    "seq_must_sign ft cfg (sq_seq_num s + 1) s = Inr must_sign"
    and "sq_block_broadcaster s' = sq_block_broadcaster s @ [(sq_seq_num s + 1, cb)]"
    and "sq_client_reply s' = sq_client_reply s @ [(cb_hash cb, replies)]"
    and "await_future_hash (sq_parent_hash_rx s) = Inr parent" and "cb_parent cb = parent"
    and "cb_n cb = sq_seq_num s + 1" and "blk_view (cb_block cb) = sq_view s"
    and "blk_view_is_stable (cb_block cb) = sq_view_is_stable s"
    and "blk_fork_validation (cb_block cb) = fvs" and "tx_list (cb_block cb) = batch"
    and "is_signed (cb_block cb) = must_sign"
    and "blk_qc (cb_block cb) = (if must_sign then sq_current_qc_list s else [])"
    and "s' = s\<lparr>sq_seq_num := sq_seq_num s + 1,
                 sq_last_signed_seq_num := (if must_sign then sq_seq_num s + 1 else sq_last_signed_seq_num s),
                 sq_force_sign_next_batch := (if must_sign then False else sq_force_sign_next_batch s),
                 sq_current_qc_list := (if must_sign then [] else sq_current_qc_list s),
                 sq_parent_hash_rx := FH_Future (cb_hash cb),
                 sq_client_reply := sq_client_reply s @ [(cb_hash cb, replies)],
                 sq_block_broadcaster := sq_block_broadcaster s @ [(sq_seq_num s + 1, cb)]\<rparr>"
proof -
  from assms obtain ms cb where ms: "seq_must_sign ft cfg (sq_seq_num s + 1) s = Inr ms"
    and p: "prepare_block lib \<lparr>tx_list = batch, blk_n = sq_seq_num s + 1, blk_parent = [],
               blk_view = sq_view s, blk_qc = (if ms then sq_current_qc_list s else []),
               blk_fork_validation = fvs, blk_view_is_stable = sq_view_is_stable s,
               blk_config_num = sq_config_num s, blk_sig = Some NoSig\<rparr> ms (sq_parent_hash_rx s) = Inr cb"
    and s': "s' = s\<lparr>sq_seq_num := sq_seq_num s + 1,
                 sq_last_signed_seq_num := (if ms then sq_seq_num s + 1 else sq_last_signed_seq_num s),
                 sq_force_sign_next_batch := (if ms then False else sq_force_sign_next_batch s),
                 sq_current_qc_list := (if ms then [] else sq_current_qc_list s),
                 sq_parent_hash_rx := FH_Future (cb_hash cb),
                 sq_client_reply := sq_client_reply s @ [(cb_hash cb, replies)],
                 sq_block_broadcaster := sq_block_broadcaster s @ [(sq_seq_num s + 1, cb)]\<rparr>"
    by (auto simp: handle_new_batch_def Let_def future_hash_take_def elim!: bindE_InrE)
  from p show thesis
  proof (rule prepare_block_cases)
    fix parent
    assume a: "await_future_hash (sq_parent_hash_rx s) = Inr parent" "cb_parent cb = parent"
      and b: "cb_block cb = \<lparr>tx_list = batch, blk_n = sq_seq_num s + 1, blk_parent = [],
               blk_view = sq_view s, blk_qc = (if ms then sq_current_qc_list s else []),
               blk_fork_validation = fvs, blk_view_is_stable = sq_view_is_stable s,
               blk_config_num = sq_config_num s, blk_sig = Some NoSig\<rparr>
               \<lparr>blk_parent := parent, blk_sig := blk_sig (cb_block cb)\<rparr>"
      and sg: "blk_sig (cb_block cb) = (if ms then Some (ProposerSig (lib_sign lib
               (sha512 lib (drop SIGNATURE_LENGTH (cb_ser cb))))) else None)"
    have "cb_n cb = sq_seq_num s + 1" "blk_view (cb_block cb) = sq_view s"
      "blk_view_is_stable (cb_block cb) = sq_view_is_stable s"
      "blk_fork_validation (cb_block cb) = fvs" "tx_list (cb_block cb) = batch"
      "blk_qc (cb_block cb) = (if ms then sq_current_qc_list s else [])"
      by (subst b, simp)+
    then show thesis
      using s' sg by (intro that [OF ms _ _ a]) (simp_all add: is_signed_def)
  qed
qed

section \<open>Runs\<close>

definition seq_run ::
  "'k crypto_lib \<Rightarrow> features \<Rightarrow> config \<Rightarrow> (quorum_certificate list \<times> sequencer_event) list \<Rightarrow> sequencer
     \<Rightarrow> sequencer result" where
  "seq_run lib ft cfg evs s = foldE (\<lambda>(pending, ev). sequencer_worker lib ft cfg pending ev) evs s"

lemma seq_run_Nil [simp]: "seq_run lib ft cfg [] s = Inr s"
  by (simp add: seq_run_def)

lemma seq_run_snoc:
  "seq_run lib ft cfg (evs @ [(p, ev)]) s =
     bindE (seq_run lib ft cfg evs s) (sequencer_worker lib ft cfg p ev)"
  by (simp add: seq_run_def foldE_snoc)

fun is_new_view :: "sequencer_event \<Rightarrow> bool" where
  "is_new_view (SQ_Command (Some (NewViewMessage _ _ _ _ _))) = True"
| "is_new_view _ = False"

text \<open>
  A step other than \<open>NewViewMessage\<close> either leaves the numbering and the output alone, or
  proposes one block as the leader of a stable view.
\<close>

lemma sequencer_worker_cases:
  assumes "sequencer_worker lib ft cfg pending ev s = Inr s'" and "\<not> is_new_view ev"
  obtains
    (quiet) "sq_block_broadcaster s' = sq_block_broadcaster s" "sq_seq_num s' = sq_seq_num s"
      "sq_parent_hash_rx s' = sq_parent_hash_rx s" "sq_last_signed_seq_num s' = sq_last_signed_seq_num s"
  | (proposes) batch replies s1 where "handle_new_batch lib ft cfg batch replies [] s1 = Inr s'"
      "sq_block_broadcaster s1 = sq_block_broadcaster s" "sq_seq_num s1 = sq_seq_num s"
      "sq_parent_hash_rx s1 = sq_parent_hash_rx s" "sq_last_signed_seq_num s1 = sq_last_signed_seq_num s"
      "sq_view_is_stable s1" "i_am_leader ft cfg (sq_view s1) = Inr True"
proof -
  obtain l where l: "(if sq_view_is_stable s then i_am_leader ft cfg (sq_view s) else Inr False) = Inr l"
    using assms(1) by (auto simp: sequencer_worker_def elim: bindE_InrE)
  define s0 where "s0 = (if \<not> ft_no_qc ft \<and> pending \<noteq> [] \<and> (ft_no_pipeline ft \<longrightarrow> sq_current_qc_list s = [])
      then add_qcs pending s else s)"
  have s0: "sq_block_broadcaster s0 = sq_block_broadcaster s" "sq_seq_num s0 = sq_seq_num s"
      "sq_parent_hash_rx s0 = sq_parent_hash_rx s" "sq_last_signed_seq_num s0 = sq_last_signed_seq_num s"
      "sq_view s0 = sq_view s" "sq_view_is_stable s0 = sq_view_is_stable s"
    by (simp_all add: s0_def frame_simps)
  show thesis
  proof (cases ev)
    case (SQ_Qcs qcs)
    with assms(1) l s0 show ?thesis
      by (intro quiet) (auto simp: sequencer_worker_def s0_def [symmetric] frame_simps)
  next
    case SQ_SignatureTick
    with assms(1) l s0 show ?thesis
      by (intro quiet) (auto simp: sequencer_worker_def s0_def [symmetric])
  next
    case (SQ_Command cmd)
    have "sq_handle_control_command lib ft cfg cmd s0 = Inr s'"
      using assms(1) l SQ_Command by (auto simp: sequencer_worker_def s0_def [symmetric])
    with assms(2) SQ_Command s0 show ?thesis
      by (intro quiet; cases "(lib, ft, cfg, cmd, s0)" rule: sq_handle_control_command.cases) auto
  next
    case (SQ_Batch b)
    show ?thesis
    proof (cases "l \<and> b \<noteq> None")
      case True
      then obtain batch replies where b: "b = Some (batch, replies)" by auto
      with True assms(1) l SQ_Batch have "handle_new_batch lib ft cfg batch replies []
          (s0\<lparr>sq_blocks_proposed_in_this_view := sq_blocks_proposed_in_this_view s0 + 1\<rparr>) = Inr s'"
        by (auto simp: sequencer_worker_def s0_def [symmetric])
      then show ?thesis
        by (rule proposes) (use True l s0 in \<open>auto split: if_split_asm\<close>)
    next
      case False
      with assms(1) l SQ_Batch s0 show ?thesis
        by (intro quiet) (auto simp: sequencer_worker_def s0_def [symmetric] split: option.split_asm)
    qed
  qed
qed

text \<open>
  \<open>seq_extends s s' bs\<close>: between the two states the blocks \<open>bs\<close> were proposed; they are a
  hash chain that continues the sequencer's number and parent hash.
\<close>

definition seq_extends :: "sequencer \<Rightarrow> sequencer \<Rightarrow> cached_block list \<Rightarrow> bool" where
  "seq_extends s s' bs \<longleftrightarrow>
     sq_block_broadcaster s' = sq_block_broadcaster s @ map (\<lambda>b. (cb_n b, b)) bs
     \<and> chain cb_n cb_hash cb_parent bs
     \<and> sq_seq_num s' = sq_seq_num s + length bs
     \<and> (if bs = [] then sq_parent_hash_rx s' = sq_parent_hash_rx s
        else cb_n (hd bs) = sq_seq_num s + 1
          \<and> await_future_hash (sq_parent_hash_rx s) = Inr (cb_parent (hd bs))
          \<and> cb_n (last bs) = sq_seq_num s'
          \<and> sq_parent_hash_rx s' = FH_Future (cb_hash (last bs)))"

lemma seq_extends_snoc:
  assumes "seq_extends s s1 bs" and "await_future_hash (sq_parent_hash_rx s1) = Inr (cb_parent b)"
    and "cb_n b = sq_seq_num s1 + 1"
    and "sq_block_broadcaster s' = sq_block_broadcaster s1 @ [(sq_seq_num s1 + 1, b)]"
    and "sq_seq_num s' = sq_seq_num s1 + 1" and "sq_parent_hash_rx s' = FH_Future (cb_hash b)"
  shows "seq_extends s s' (bs @ [b])"
  using assms
  by (auto simp: seq_extends_def chain_snoc await_future_hash_def split: if_split_asm)

lemma seq_run_extends:
  assumes "seq_run lib ft cfg evs s = Inr s'" and "\<forall>(p, ev) \<in> set evs. \<not> is_new_view ev"
  shows "\<exists>bs. seq_extends s s' bs"
  using assms
proof (induction evs arbitrary: s' rule: rev_induct)
  case Nil
  then have "seq_extends s s' []" by (simp add: seq_extends_def)
  then show ?case by blast
next
  case (snoc e evs)
  obtain p ev where e: "e = (p, ev)" by (cases e)
  from snoc.prems(1) obtain s1 where run: "seq_run lib ft cfg evs s = Inr s1"
    and step: "sequencer_worker lib ft cfg p ev s1 = Inr s'"
    by (auto simp: e seq_run_snoc elim: bindE_InrE)
  have quiet_evs: "\<forall>(p, ev) \<in> set evs. \<not> is_new_view ev" "\<not> is_new_view ev"
    using snoc.prems(2) e by auto
  from snoc.IH [OF run quiet_evs(1)] obtain bs where ext: "seq_extends s s1 bs" by blast
  from step show ?case
  proof (rule sequencer_worker_cases)
    show "\<not> is_new_view ev" by (rule quiet_evs(2))
  next
    assume "sq_block_broadcaster s' = sq_block_broadcaster s1" "sq_seq_num s' = sq_seq_num s1"
      "sq_parent_hash_rx s' = sq_parent_hash_rx s1"
    with ext have "seq_extends s s' bs" by (simp add: seq_extends_def)
    then show ?thesis by blast
  next
    fix batch replies s2
    assume h: "handle_new_batch lib ft cfg batch replies [] s2 = Inr s'"
      and s2: "sq_block_broadcaster s2 = sq_block_broadcaster s1" "sq_seq_num s2 = sq_seq_num s1"
        "sq_parent_hash_rx s2 = sq_parent_hash_rx s1"
    from h show ?thesis
    proof (rule handle_new_batch_block)
      fix ms cb parent
      assume bb: "sq_block_broadcaster s' = sq_block_broadcaster s2 @ [(sq_seq_num s2 + 1, cb)]"
        and par: "await_future_hash (sq_parent_hash_rx s2) = Inr parent" "cb_parent cb = parent"
        and n: "cb_n cb = sq_seq_num s2 + 1"
        and s': "s' = s2\<lparr>sq_seq_num := sq_seq_num s2 + 1,
                 sq_last_signed_seq_num := (if ms then sq_seq_num s2 + 1 else sq_last_signed_seq_num s2),
                 sq_force_sign_next_batch := (if ms then False else sq_force_sign_next_batch s2),
                 sq_current_qc_list := (if ms then [] else sq_current_qc_list s2),
                 sq_parent_hash_rx := FH_Future (cb_hash cb),
                 sq_client_reply := sq_client_reply s2 @ [(cb_hash cb, replies)],
                 sq_block_broadcaster := sq_block_broadcaster s2 @ [(sq_seq_num s2 + 1, cb)]\<rparr>"
      have "seq_extends s s' (bs @ [cb])"
        using s' s2 par n bb by (intro seq_extends_snoc [OF ext]) simp_all
      then show ?thesis by blast
    qed
  qed
qed

text \<open>How far the last signed block may lie back (feature \<open>dynamic_sign\<close>).\<close>

definition signed_windows :: "nat \<Rightarrow> cached_block list \<Rightarrow> bool" where
  "signed_windows d bs \<longleftrightarrow>
     (\<forall>i. i + d \<le> length bs \<longrightarrow> (\<exists>j. i \<le> j \<and> j < i + d \<and> is_signed (cb_block (bs ! j))))"

definition last_signed_in :: "sequencer \<Rightarrow> sequencer \<Rightarrow> cached_block list \<Rightarrow> bool" where
  "last_signed_in s s' bs \<longleftrightarrow>
     sq_last_signed_seq_num s' \<le> sq_seq_num s'
     \<and> (sq_seq_num s < sq_last_signed_seq_num s' \<longrightarrow>
          is_signed (cb_block (bs ! (sq_last_signed_seq_num s' - sq_seq_num s - 1))))"

lemma signed_windows_snoc:
  assumes "signed_windows d bs" and "0 < d"
    and "is_signed (cb_block b) \<or> (\<exists>j. length bs < j + d \<and> j < length bs \<and> is_signed (cb_block (bs ! j)))
      \<or> length bs + 1 < d"
  shows "signed_windows d (bs @ [b])"
  unfolding signed_windows_def
proof (intro allI impI)
  fix i assume i: "i + d \<le> length (bs @ [b])"
  show "\<exists>j. i \<le> j \<and> j < i + d \<and> is_signed (cb_block ((bs @ [b]) ! j))"
  proof (cases "i + d \<le> length bs")
    case True
    then obtain j where "i \<le> j" "j < i + d" "is_signed (cb_block (bs ! j))"
      using assms(1) by (auto simp: signed_windows_def)
    with True show ?thesis by (auto simp: nth_append intro!: exI [of _ j])
  next
    case False
    with i have eq: "i + d = length bs + 1" by simp
    from assms(3) show ?thesis
    proof (elim disjE exE conjE)
      assume "is_signed (cb_block b)"
      with eq assms(2) show ?thesis by (auto simp: nth_append intro!: exI [of _ "length bs"])
    next
      fix j assume "length bs < j + d" "j < length bs" "is_signed (cb_block (bs ! j))"
      with eq show ?thesis by (auto simp: nth_append intro!: exI [of _ j])
    qed (use eq in simp)
  qed
qed

lemma seq_run_signed:
  assumes "seq_run lib ft cfg evs s = Inr s'" and "\<forall>(p, ev) \<in> set evs. \<not> is_new_view ev"
    and "ft_sign ft = Dynamic_Sign" and "sq_last_signed_seq_num s \<le> sq_seq_num s"
    and "0 < signature_max_delay_blocks (consensus cfg)"
  shows "\<exists>bs. seq_extends s s' bs \<and> signed_windows (signature_max_delay_blocks (consensus cfg)) bs
     \<and> last_signed_in s s' bs"
  using assms(1,2)
proof (induction evs arbitrary: s' rule: rev_induct)
  case Nil
  with assms(4,5) have "seq_extends s s' []" "last_signed_in s s' []"
    by (simp_all add: seq_extends_def last_signed_in_def)
  moreover have "signed_windows (signature_max_delay_blocks (consensus cfg)) []"
    using assms(5) by (simp add: signed_windows_def)
  ultimately show ?case by blast
next
  case (snoc e evs)
  let ?d = "signature_max_delay_blocks (consensus cfg)"
  obtain p ev where e: "e = (p, ev)" by (cases e)
  from snoc.prems(1) obtain s1 where run: "seq_run lib ft cfg evs s = Inr s1"
    and step: "sequencer_worker lib ft cfg p ev s1 = Inr s'"
    by (auto simp: e seq_run_snoc elim: bindE_InrE)
  have quiet_evs: "\<forall>(p, ev) \<in> set evs. \<not> is_new_view ev" "\<not> is_new_view ev"
    using snoc.prems(2) e by auto
  from snoc.IH [OF run quiet_evs(1)] obtain bs where ext: "seq_extends s s1 bs"
    and win: "signed_windows ?d bs" and lst: "last_signed_in s s1 bs" by blast
  have len: "sq_seq_num s1 = sq_seq_num s + length bs" using ext by (simp add: seq_extends_def)
  from step show ?case
  proof (rule sequencer_worker_cases)
    show "\<not> is_new_view ev" by (rule quiet_evs(2))
  next
    assume "sq_block_broadcaster s' = sq_block_broadcaster s1" "sq_seq_num s' = sq_seq_num s1"
      "sq_parent_hash_rx s' = sq_parent_hash_rx s1" "sq_last_signed_seq_num s' = sq_last_signed_seq_num s1"
    with ext lst have "seq_extends s s' bs" "last_signed_in s s' bs"
      by (simp_all add: seq_extends_def last_signed_in_def)
    with win show ?thesis by blast
  next
    fix batch replies s2
    assume h: "handle_new_batch lib ft cfg batch replies [] s2 = Inr s'"
      and s2: "sq_block_broadcaster s2 = sq_block_broadcaster s1" "sq_seq_num s2 = sq_seq_num s1"
        "sq_parent_hash_rx s2 = sq_parent_hash_rx s1" "sq_last_signed_seq_num s2 = sq_last_signed_seq_num s1"
    from h show ?thesis
    proof (rule handle_new_batch_block)
      fix ms cb parent
      assume ms: "seq_must_sign ft cfg (sq_seq_num s2 + 1) s2 = Inr ms"
        and bb: "sq_block_broadcaster s' = sq_block_broadcaster s2 @ [(sq_seq_num s2 + 1, cb)]"
        and par: "await_future_hash (sq_parent_hash_rx s2) = Inr parent" "cb_parent cb = parent"
        and n: "cb_n cb = sq_seq_num s2 + 1" and sg: "is_signed (cb_block cb) = ms"
        and s': "s' = s2\<lparr>sq_seq_num := sq_seq_num s2 + 1,
                 sq_last_signed_seq_num := (if ms then sq_seq_num s2 + 1 else sq_last_signed_seq_num s2),
                 sq_force_sign_next_batch := (if ms then False else sq_force_sign_next_batch s2),
                 sq_current_qc_list := (if ms then [] else sq_current_qc_list s2),
                 sq_parent_hash_rx := FH_Future (cb_hash cb),
                 sq_client_reply := sq_client_reply s2 @ [(cb_hash cb, replies)],
                 sq_block_broadcaster := sq_block_broadcaster s2 @ [(sq_seq_num s2 + 1, cb)]\<rparr>"
      have ext': "seq_extends s s' (bs @ [cb])"
        using s' s2 par n bb by (intro seq_extends_snoc [OF ext]) simp_all
      have le: "sq_last_signed_seq_num s1 \<le> sq_seq_num s1" using lst by (simp add: last_signed_in_def)
      have gap: "\<not> ms \<Longrightarrow> sq_seq_num s1 + 1 - sq_last_signed_seq_num s1 < ?d"
        using ms le assms(3) s2 by (auto simp: seq_must_sign_def split: if_split_asm)
      let ?j = "sq_last_signed_seq_num s1 - sq_seq_num s - 1"
      have "ms \<or> (\<exists>j. length bs < j + ?d \<and> j < length bs \<and> is_signed (cb_block (bs ! j))) \<or> length bs + 1 < ?d"
      proof (cases "ms \<or> sq_last_signed_seq_num s1 \<le> sq_seq_num s")
        case True
        with gap len show ?thesis by auto
      next
        case False
        then have "length bs < ?j + ?d" "?j < length bs" using gap len le by auto
        moreover have "is_signed (cb_block (bs ! ?j))" using False lst by (simp add: last_signed_in_def)
        ultimately show ?thesis by blast
      qed
      then have win': "signed_windows ?d (bs @ [cb])"
        using signed_windows_snoc [OF win assms(5)] sg by blast
      have "last_signed_in s s' (bs @ [cb])"
        using lst sg s' s2 len le by (auto simp: last_signed_in_def nth_append)
      with ext' win' show ?thesis by blast
    qed
  qed
qed

section \<open>Certificates in blocks\<close>

text \<open>The view that an event switches the sequencer to.\<close>

fun event_view :: "sequencer_event \<Rightarrow> u64 option" where
  "event_view (SQ_Command (Some (NewUnstableView v _))) = Some v"
| "event_view (SQ_Command (Some (ViewStabilised v _))) = Some v"
| "event_view (SQ_Command (Some (NewViewMessage v _ _ _ _))) = Some v"
| "event_view _ = None"

fun views_grow :: "u64 \<Rightarrow> (quorum_certificate list \<times> sequencer_event) list \<Rightarrow> bool" where
  "views_grow v [] = True"
| "views_grow v ((p, ev) # evs) =
     (case event_view ev of None \<Rightarrow> views_grow v evs | Some w \<Rightarrow> v \<le> w \<and> views_grow w evs)"

definition qcs_of_view :: "sequencer \<Rightarrow> bool" where
  "qcs_of_view s \<longleftrightarrow> (\<forall>qc \<in> set (sq_current_qc_list s). qc_view qc = sq_view s)"

definition blocks_qc_ok :: "sequencer \<Rightarrow> bool" where
  "blocks_qc_ok s \<longleftrightarrow>
     (\<forall>(n, b) \<in> set (sq_block_broadcaster s). cb_n b = n
        \<and> (\<forall>qc \<in> set (blk_qc (cb_block b)). is_signed (cb_block b) \<and> qc_view qc = blk_view (cb_block b)))"

lemma blocks_qc_okI:
  "sq_block_broadcaster s' = sq_block_broadcaster s \<Longrightarrow> blocks_qc_ok s \<Longrightarrow> blocks_qc_ok s'"
  by (simp add: blocks_qc_ok_def)

lemma handle_new_batch_qcs:
  assumes "handle_new_batch lib ft cfg batch replies fvs s = Inr s'"
    and "qcs_of_view s" and "blocks_qc_ok s"
  shows "qcs_of_view s' \<and> blocks_qc_ok s' \<and> sq_view s' = sq_view s"
  using assms(1)
proof (rule handle_new_batch_block)
  fix ms cb parent
  assume bb: "sq_block_broadcaster s' = sq_block_broadcaster s @ [(sq_seq_num s + 1, cb)]"
    and b: "cb_n cb = sq_seq_num s + 1" "blk_view (cb_block cb) = sq_view s" "is_signed (cb_block cb) = ms"
      "blk_qc (cb_block cb) = (if ms then sq_current_qc_list s else [])"
    and s': "s' = s\<lparr>sq_seq_num := sq_seq_num s + 1,
                 sq_last_signed_seq_num := (if ms then sq_seq_num s + 1 else sq_last_signed_seq_num s),
                 sq_force_sign_next_batch := (if ms then False else sq_force_sign_next_batch s),
                 sq_current_qc_list := (if ms then [] else sq_current_qc_list s),
                 sq_parent_hash_rx := FH_Future (cb_hash cb),
                 sq_client_reply := sq_client_reply s @ [(cb_hash cb, replies)],
                 sq_block_broadcaster := sq_block_broadcaster s @ [(sq_seq_num s + 1, cb)]\<rparr>"
  from s' have "sq_view s' = sq_view s" and "sq_current_qc_list s' = (if ms then [] else sq_current_qc_list s)"
    by simp_all
  moreover have "blocks_qc_ok s'"
    using assms(2,3) b unfolding blocks_qc_ok_def bb qcs_of_view_def by simp
  ultimately show ?thesis using assms(2) by (simp add: qcs_of_view_def)
qed

lemma sequencer_worker_qcs:
  assumes w: "sequencer_worker lib ft cfg pending ev s = Inr s'"
    and "qcs_of_view s" and "blocks_qc_ok s" and "\<forall>v. event_view ev = Some v \<longrightarrow> sq_view s \<le> v"
  shows "qcs_of_view s' \<and> blocks_qc_ok s'
     \<and> sq_view s' = (case event_view ev of None \<Rightarrow> sq_view s | Some v \<Rightarrow> v)"
proof -
  obtain l where l: "(if sq_view_is_stable s then i_am_leader ft cfg (sq_view s) else Inr False) = Inr l"
    using w by (auto simp: sequencer_worker_def elim: bindE_InrE)
  define s0 where "s0 = (if \<not> ft_no_qc ft \<and> pending \<noteq> [] \<and> (ft_no_pipeline ft \<longrightarrow> sq_current_qc_list s = [])
      then add_qcs pending s else s)"
  have s0: "qcs_of_view s0" "blocks_qc_ok s0" "sq_view s0 = sq_view s"
    using assms(2) blocks_qc_okI [OF _ assms(3)]
    by (auto simp: s0_def qcs_of_view_def add_qcs_list frame_simps)
  note okI = blocks_qc_okI [OF _ s0(2)]
  show ?thesis
  proof (cases ev)
    case (SQ_Qcs qcs)
    with w l s0(1,3) show ?thesis
      by (auto simp: sequencer_worker_def s0_def [symmetric] qcs_of_view_def add_qcs_list frame_simps
          intro!: okI)
  next
    case SQ_SignatureTick
    with w l s0(1,3) show ?thesis
      by (cases l) (auto simp: sequencer_worker_def s0_def [symmetric] qcs_of_view_def intro!: okI)
  next
    case (SQ_Batch b)
    let ?s1 = "s0\<lparr>sq_blocks_proposed_in_this_view := sq_blocks_proposed_in_this_view s0 + 1\<rparr>"
    have "qcs_of_view ?s1" "blocks_qc_ok ?s1" using s0(1) okI by (simp_all add: qcs_of_view_def)
    note hb = handle_new_batch_qcs [OF _ this]
    consider "b = None" | batch replies where "b = Some (batch, replies)" by (cases b) auto
    then show ?thesis
    proof cases
      case 1
      with w l s0 SQ_Batch show ?thesis by (simp add: sequencer_worker_def s0_def [symmetric])
    next
      case 2
      show ?thesis
      proof (cases l)
        case True
        with 2 w l SQ_Batch have "handle_new_batch lib ft cfg batch replies [] ?s1 = Inr s'"
          by (simp add: sequencer_worker_def s0_def [symmetric])
        from hb [OF this] s0(3) SQ_Batch show ?thesis by simp
      next
        case False
        with 2 w l SQ_Batch have "s' = s0\<lparr>sq_client_reply := sq_client_reply s0 @ [([], replies)]\<rparr>"
          by (simp add: sequencer_worker_def s0_def [symmetric])
        with s0(1,3) SQ_Batch show ?thesis by (auto simp: qcs_of_view_def intro!: okI)
      qed
    qed
  next
    case (SQ_Command c)
    then have c: "sq_handle_control_command lib ft cfg c s0 = Inr s'"
      using w l by (simp add: sequencer_worker_def s0_def [symmetric])
    show ?thesis
    proof (cases c)
      case None
      with c s0 SQ_Command show ?thesis by simp
    next
      case (Some cmd)
      then show ?thesis
      proof (cases cmd)
        case (NewViewMessage v cn fvs h n)
        let ?s1 = "s0\<lparr>sq_view := v, sq_config_num := cn, sq_view_is_stable := False,
            sq_current_qc_list := filter (\<lambda>e. qc_view e = v) (sq_current_qc_list s0),
            sq_last_qc_n_seen := n, sq_blocks_proposed_in_this_view := 0\<rparr>"
        let ?s2 = "?s1\<lparr>sq_seq_num := n, sq_parent_hash_rx := FH_Immediate h\<rparr>"
        have s1: "qcs_of_view ?s1" "blocks_qc_ok ?s1" and s2: "qcs_of_view ?s2" "blocks_qc_ok ?s2"
          using okI by (simp_all add: qcs_of_view_def)
        from c Some NewViewMessage have
          "handle_new_batch lib ft cfg [] [] fvs ?s2 = Inr s' \<or> s' = ?s1"
          by (auto elim!: bindE_InrE simp: Let_def split: if_split_asm)
        then show ?thesis
        proof
          assume "handle_new_batch lib ft cfg [] [] fvs ?s2 = Inr s'"
          from handle_new_batch_qcs [OF this s2] Some NewViewMessage SQ_Command show ?thesis by simp
        next
          assume "s' = ?s1"
          with s1 Some NewViewMessage SQ_Command show ?thesis by simp
        qed
      qed (use c s0(1,3) assms(4) SQ_Command in \<open>force simp: qcs_of_view_def intro!: okI\<close>)+
    qed
  qed
qed

lemma seq_run_qcs:
  "seq_run lib ft cfg evs s = Inr s' \<Longrightarrow> qcs_of_view s \<Longrightarrow> blocks_qc_ok s \<Longrightarrow>
     views_grow (sq_view s) evs \<Longrightarrow> blocks_qc_ok s'"
proof (induction evs arbitrary: s)
  case (Cons e evs)
  obtain p ev where e: "e = (p, ev)" by (cases e)
  from Cons.prems(1) obtain s1 where step: "sequencer_worker lib ft cfg p ev s = Inr s1"
    and run: "seq_run lib ft cfg evs s1 = Inr s'"
    by (auto simp: seq_run_def e elim!: bindE_InrE)
  have "\<forall>v. event_view ev = Some v \<longrightarrow> sq_view s \<le> v" using Cons.prems(4) e by auto
  from sequencer_worker_qcs [OF step Cons.prems(2,3) this] Cons.prems(4) e
  show ?case by (intro Cons.IH [OF run]) (auto split: option.split_asm)
qed (simp add: seq_run_def)

section \<open>Absence of panics\<close>

text \<open>The parent hash that the next block will get.\<close>

definition parent_ready :: "sequencer \<Rightarrow> bool" where
  "parent_ready s \<longleftrightarrow>
     (\<exists>h. await_future_hash (sq_parent_hash_rx s) = Inr h \<and> length h = DIGEST_LENGTH)"

definition new_view_hash_ok :: "sequencer_event \<Rightarrow> bool" where
  "new_view_hash_ok ev = (case ev of SQ_Command (Some (NewViewMessage _ _ _ h _)) \<Rightarrow> length h = DIGEST_LENGTH
     | _ \<Rightarrow> True)"

lemma seq_must_sign_total:
  "node_list (consensus cfg) \<noteq> [] \<Longrightarrow> \<exists>b. seq_must_sign ft cfg n s = Inr b"
  using i_am_leader_total [of cfg ft "sq_view s"]
  by (cases "ft_sign ft") (auto simp: seq_must_sign_def)

lemma handle_new_batch_total:
  assumes "node_list (consensus cfg) \<noteq> []" and "parent_ready s"
    and "\<And>d. length (sha512 lib d) = DIGEST_LENGTH" and "\<And>d. length (lib_sign lib d) = SIGNATURE_LENGTH"
  shows "\<exists>s'. handle_new_batch lib ft cfg batch replies fvs s = Inr s' \<and> parent_ready s'"
proof -
  obtain ms where ms: "seq_must_sign ft cfg (sq_seq_num s + 1) s = Inr ms"
    using seq_must_sign_total [OF assms(1)] by blast
  obtain h where h: "await_future_hash (sq_parent_hash_rx s) = Inr h" "length h = DIGEST_LENGTH"
    using assms(2) by (auto simp: parent_ready_def)
  let ?blk = "\<lparr>tx_list = batch, blk_n = sq_seq_num s + 1, blk_parent = [],
               blk_view = sq_view s, blk_qc = (if ms then sq_current_qc_list s else []),
               blk_fork_validation = fvs, blk_view_is_stable = sq_view_is_stable s,
               blk_config_num = sq_config_num s, blk_sig = Some NoSig\<rparr>"
  obtain cb where cb: "prepare_block lib ?blk ms (sq_parent_hash_rx s) = Inr cb"
    using prepare_block_total [OF h] assms(4) by blast
  have "length (cb_hash cb) = DIGEST_LENGTH"
    using hash_proto_block_ser_sha [OF prepare_block_hash [OF cb]] assms(3) by auto
  with ms cb show ?thesis
    by (simp add: handle_new_batch_def Let_def future_hash_take_def parent_ready_def await_future_hash_def)
qed

lemma sequencer_worker_total:
  assumes "node_list (consensus cfg) \<noteq> []" and "parent_ready s" and "new_view_hash_ok ev"
    and "\<And>d. length (sha512 lib d) = DIGEST_LENGTH" and "\<And>d. length (lib_sign lib d) = SIGNATURE_LENGTH"
  shows "\<exists>s'. sequencer_worker lib ft cfg pending ev s = Inr s' \<and> parent_ready s'"
proof -
  note batch = handle_new_batch_total [OF assms(1) _ assms(4,5)]
  obtain l where l: "(if sq_view_is_stable s then i_am_leader ft cfg (sq_view s) else Inr False) = Inr l"
    using i_am_leader_total [OF assms(1), of ft "sq_view s"] by (cases "sq_view_is_stable s") auto
  define s0 where "s0 = (if \<not> ft_no_qc ft \<and> pending \<noteq> [] \<and> (ft_no_pipeline ft \<longrightarrow> sq_current_qc_list s = [])
      then add_qcs pending s else s)"
  have s0: "parent_ready s0" using assms(2) by (simp add: s0_def parent_ready_def frame_simps)
  have eq: "sequencer_worker lib ft cfg pending ev s = (case ev of
            SQ_Qcs qcs \<Rightarrow> Inr (add_qcs qcs s0)
          | SQ_Command cmd \<Rightarrow> sq_handle_control_command lib ft cfg cmd s0
          | SQ_SignatureTick \<Rightarrow> Inr (if l then s0\<lparr>sq_force_sign_next_batch := True\<rparr> else s0)
          | SQ_Batch None \<Rightarrow> Inr s0
          | SQ_Batch (Some (batch, client_reply)) \<Rightarrow>
              if l then handle_new_batch lib ft cfg batch client_reply []
                     (s0\<lparr>sq_blocks_proposed_in_this_view := sq_blocks_proposed_in_this_view s0 + 1\<rparr>)
              else Inr (s0\<lparr>sq_client_reply := sq_client_reply s0 @ [([], client_reply)]\<rparr>))"
    using l by (simp add: sequencer_worker_def s0_def [symmetric])
  show ?thesis
  proof (cases ev)
    case (SQ_Command c)
    obtain ld where ld: "\<And>v. i_am_leader ft cfg v = Inr (ld v)"
      using i_am_leader_total [OF assms(1)] by metis
    show ?thesis
    proof (cases "(lib, ft, cfg, c, s0)" rule: sq_handle_control_command.cases)
      case (4 lib ft cfg v cn fvs h n s)
      with assms(3) SQ_Command have h: "length h = DIGEST_LENGTH" by (simp add: new_view_hash_ok_def)
      let ?s1 = "s0\<lparr>sq_view := v, sq_config_num := cn, sq_view_is_stable := False,
          sq_current_qc_list := filter (\<lambda>e. qc_view e = v) (sq_current_qc_list s0),
          sq_last_qc_n_seen := n, sq_blocks_proposed_in_this_view := 0\<rparr>"
      let ?s2 = "?s1\<lparr>sq_seq_num := n, sq_parent_hash_rx := FH_Immediate h\<rparr>"
      have "parent_ready ?s1" "parent_ready ?s2"
        using s0 h by (simp_all add: parent_ready_def await_future_hash_def)
      with 4 SQ_Command ld batch [of ?s2 _ "[]" "[]" fvs] show ?thesis
        unfolding eq by (cases "ld v") (simp_all add: Let_def)
    qed (use s0 eq SQ_Command in \<open>simp_all add: parent_ready_def\<close>)
  next
    case (SQ_Batch b)
    let ?s1 = "s0\<lparr>sq_blocks_proposed_in_this_view := sq_blocks_proposed_in_this_view s0 + 1\<rparr>"
    have "parent_ready ?s1" "\<And>x. parent_ready (s0\<lparr>sq_client_reply := x\<rparr>)"
      using s0 by (simp_all add: parent_ready_def)
    with s0 SQ_Batch batch [of ?s1] show ?thesis
      unfolding eq by (cases b) (auto split: prod.split)
  qed (use s0 eq in \<open>simp_all add: parent_ready_def frame_simps\<close>)
qed

section \<open>Properties\<close>

text \<open>
  C24: Blocks are proposed as one hash chain. From any state, whatever batches, certificates,
  timer ticks and view switches the sequencer handles (until the next \<open>NewViewMessage\<close>, which
  restarts the chain), the blocks it sends to the broadcaster carry the next sequence numbers
  without a gap, each names its predecessor's hash as its parent, the first one continues the
  state's parent hash, and under dynamic signing every \<open>signature_max_delay_blocks\<close>
  consecutive blocks contain a signed one.
\<close>

theorem sequencer_chain:
  assumes "seq_run lib ft cfg evs s = Inr s'" and "\<forall>(p, ev) \<in> set evs. \<not> is_new_view ev"
    and "ft_sign ft = Dynamic_Sign" and "sq_last_signed_seq_num s \<le> sq_seq_num s"
    and "0 < signature_max_delay_blocks (consensus cfg)"
  shows "\<exists>bs. sq_block_broadcaster s' = sq_block_broadcaster s @ map (\<lambda>b. (cb_n b, b)) bs
     \<and> chain cb_n cb_hash cb_parent bs
     \<and> sq_seq_num s' = sq_seq_num s + length bs
     \<and> (bs \<noteq> [] \<longrightarrow> cb_n (hd bs) = sq_seq_num s + 1
          \<and> await_future_hash (sq_parent_hash_rx s) = Inr (cb_parent (hd bs)))
     \<and> (\<forall>i. i + signature_max_delay_blocks (consensus cfg) \<le> length bs \<longrightarrow>
          (\<exists>j. i \<le> j \<and> j < i + signature_max_delay_blocks (consensus cfg) \<and> is_signed (cb_block (bs ! j))))"
proof -
  obtain bs where bs: "seq_extends s s' bs" "signed_windows (signature_max_delay_blocks (consensus cfg)) bs"
    using seq_run_signed [OF assms] by blast
  then show ?thesis
    by (intro exI [of _ bs]) (simp add: seq_extends_def signed_windows_def split: if_split_asm)
qed

definition demo_seq :: sequencer where
  "demo_seq = (sequencer_new pirateship)\<lparr>sq_view := 1, sq_config_num := 1, sq_view_is_stable := True\<rparr>"

definition demo_batches :: "(quorum_certificate list \<times> sequencer_event) list" where
  "demo_batches = [([], SQ_Batch (Some ([], []))), ([], SQ_SignatureTick), ([], SQ_Batch (Some ([], [])))]"

lemmas demo_seq_defs = demo_seq_def sequencer_new_def demo_cfg_def demo_cc_def demo_batches_def

lemma demo_seq_ready: "parent_ready demo_seq"
  by (simp add: demo_seq_defs parent_ready_def await_future_hash_def default_hash_def)

lemma demo_lib_lengths:
  "length (sha512 (demo_lib b) d) = DIGEST_LENGTH" "length (lib_sign (demo_lib b) d) = SIGNATURE_LENGTH"
  by (simp_all add: demo_lib_def lengths)

lemma seq_run_total:
  assumes "node_list (consensus cfg) \<noteq> []" and "parent_ready s" and "\<forall>(p, ev) \<in> set evs. new_view_hash_ok ev"
    and "\<And>d. length (sha512 lib d) = DIGEST_LENGTH" and "\<And>d. length (lib_sign lib d) = SIGNATURE_LENGTH"
  shows "\<exists>s'. seq_run lib ft cfg evs s = Inr s' \<and> parent_ready s'"
  unfolding seq_run_def
proof (rule foldE_total [of parent_ready])
  fix e :: "quorum_certificate list \<times> sequencer_event" and s
  assume e: "e \<in> set evs" and s: "parent_ready s"
  obtain p ev where "e = (p, ev)" by (cases e)
  with e assms(3) sequencer_worker_total [OF assms(1) s _ assms(4,5), of ev ft p]
  show "\<exists>t. (case e of (pending, ev) \<Rightarrow> sequencer_worker lib ft cfg pending ev) s = Inr t \<and> parent_ready t"
    by auto
qed (rule assms(2))

theorem sequencer_chain_witness:
  "\<exists>s' bs. seq_run (demo_lib (demo_block 1 1 [])) pirateship (demo_cfg ''node1'') demo_batches demo_seq = Inr s'
     \<and> sq_block_broadcaster s' = map (\<lambda>b. (cb_n b, b)) bs \<and> chain cb_n cb_hash cb_parent bs"
proof -
  obtain s' where r: "seq_run (demo_lib (demo_block 1 1 [])) pirateship (demo_cfg ''node1'') demo_batches demo_seq
      = Inr s'"
    using seq_run_total [OF _ demo_seq_ready _ demo_lib_lengths] 
    by (force simp: demo_seq_defs new_view_hash_ok_def)
  have "\<forall>(p, ev) \<in> set demo_batches. \<not> is_new_view ev" by (simp add: demo_batches_def)
  from sequencer_chain [OF r this] r show ?thesis
    by (fastforce simp: pirateship_def demo_seq_defs)
qed

text \<open>
  Only signed blocks carry certificates, and only certificates of their own view. In every
  run from the initial state in which the control commands do not go back to an older view,
  every block handed to the broadcaster that contains a quorum certificate is signed, and the
  certificate's view is the block's view.
\<close>

theorem sequencer_qc_invariant:
  assumes "seq_run lib ft cfg evs (sequencer_new ft) = Inr s'"
    and "views_grow (sq_view (sequencer_new ft)) evs"
    and "(n, b) \<in> set (sq_block_broadcaster s')" and "qc \<in> set (blk_qc (cb_block b))"
  shows "cb_n b = n \<and> is_signed (cb_block b) \<and> qc_view qc = blk_view (cb_block b)"
proof -
  have "qcs_of_view (sequencer_new ft)" "blocks_qc_ok (sequencer_new ft)"
    by (simp_all add: qcs_of_view_def blocks_qc_ok_def sequencer_new_def)
  from seq_run_qcs [OF assms(1) this assms(2)] assms(3,4) show ?thesis
    by (auto simp: blocks_qc_ok_def)
qed

definition demo_qc_run :: "(quorum_certificate list \<times> sequencer_event) list" where
  "demo_qc_run = [([], SQ_Command (Some (ViewStabilised 1 1))), ([], SQ_SignatureTick),
     ([demo_qc], SQ_Batch (Some ([], [])))]"

lemma demo_qc_run_result:
  "\<exists>s' b. seq_run (demo_lib (demo_block 1 1 [])) pirateship (demo_cfg ''node1'') demo_qc_run
      (sequencer_new pirateship) = Inr s'
     \<and> (1, b) \<in> set (sq_block_broadcaster s') \<and> blk_qc (cb_block b) = [demo_qc]"
  by (simp add: seq_run_def demo_qc_run_def sequencer_worker_def sequencer_new_def pirateship_def
      demo_cfg_def demo_cc_def i_am_leader_def get_leader_for_view_def Let_def handle_new_batch_def
      seq_must_sign_def prepare_block_def serialize_proto_block_nascent_def await_future_hash_def
      future_hash_take_def update_parent_hash_in_proto_block_ser_def
      update_signature_in_proto_block_ser_def default_hash_def demo_lib_def lengths demo_qc_def)

theorem sequencer_qc_invariant_witness:
  "\<exists>s' b. seq_run (demo_lib (demo_block 1 1 [])) pirateship (demo_cfg ''node1'') demo_qc_run
      (sequencer_new pirateship) = Inr s'
     \<and> (1, b) \<in> set (sq_block_broadcaster s') \<and> is_signed (cb_block b)"
proof -
  obtain s' b where r: "seq_run (demo_lib (demo_block 1 1 [])) pirateship (demo_cfg ''node1'') demo_qc_run
      (sequencer_new pirateship) = Inr s'"
    and b: "(1, b) \<in> set (sq_block_broadcaster s')" "blk_qc (cb_block b) = [demo_qc]"
    using demo_qc_run_result by blast
  have "views_grow (sq_view (sequencer_new pirateship)) demo_qc_run"
    by (simp add: demo_qc_run_def sequencer_new_def pirateship_def)
  from sequencer_qc_invariant [OF r this b(1), of demo_qc] b(2) have "is_signed (cb_block b)" by simp
  with r b(1) show ?thesis by blast
qed

text \<open>
  C31: The sequencer never panics. With a nonempty node list, 64 byte digests and signatures and
  64 byte parent hashes in \<open>NewViewMessage\<close>, every sequence of events is handled from the
  initial state without a fault: the future parent hash is always available and of the right
  length when a block is prepared.
\<close>

theorem sequencer_never_panics:
  assumes "node_list (consensus cfg) \<noteq> []" and "\<forall>(p, ev) \<in> set evs. new_view_hash_ok ev"
    and "\<And>d. length (sha512 lib d) = DIGEST_LENGTH" and "\<And>d. length (lib_sign lib d) = SIGNATURE_LENGTH"
  shows "\<exists>s'. seq_run lib ft cfg evs (sequencer_new ft) = Inr s'"
proof -
  have "parent_ready (sequencer_new ft)"
    by (simp add: parent_ready_def sequencer_new_def await_future_hash_def default_hash_def)
  from seq_run_total [OF assms(1) this assms(2,3,4)] show ?thesis by blast
qed

theorem sequencer_never_panics_witness:
  "\<exists>s'. seq_run (demo_lib (demo_block 1 1 [])) pirateship (demo_cfg ''node1'') demo_qc_run
     (sequencer_new pirateship) = Inr s'"
  by (rule sequencer_never_panics)
    (simp_all add: demo_cfg_def demo_cc_def demo_qc_run_def new_view_hash_ok_def demo_lib_lengths)

end
