(* ===== verification/App.thy ===== *)
theory App
  imports Serialize
begin

text \<open>
  The application component (\<open>src/consensus/app.rs\<close>): it executes committed blocks on an engine
  and tells the client reply handler the results. An engine is a record of the operations of
  the trait \<open>AppEngine\<close>; the locale \<open>engine_laws\<close> is what the component relies on, and the
  engine \<open>NullApp\<close> (\<open>src/consensus/engines/null_app.rs\<close>) is its first provider.
\<close>

section \<open>Engines\<close>

record 'e engine =
  eng_crash_commit :: "'e \<Rightarrow> cached_block list \<Rightarrow> ('e \<times> tx_result list list) result"
  eng_byz_commit :: "'e \<Rightarrow> cached_block list \<Rightarrow> 'e \<times> byz_response list list"
  eng_rollback :: "'e \<Rightarrow> u64 \<Rightarrow> 'e"
  eng_unlogged :: "'e \<Rightarrow> transaction \<Rightarrow> ('e \<times> tx_result) result"

definition phase_ops :: "tx_phase option \<Rightarrow> tx_op list" where
  "phase_ops p = (case p of None \<Rightarrow> [] | Some ph \<Rightarrow> ops ph)"

definition null_results :: "tx_phase option \<Rightarrow> tx_result" where
  "null_results p = \<lparr>tr_result = map (\<lambda>_. \<lparr>or_success = True, or_values = []\<rparr>) (phase_ops p)\<rparr>"

definition null_crash_commit :: "unit \<Rightarrow> cached_block list \<Rightarrow> (unit \<times> tx_result list list) result" where
  "null_crash_commit e blocks = Inr (e, map (\<lambda>b. map (null_results \<circ> on_crash_commit) (tx_list (cb_block b))) blocks)"

text \<open>One response per transaction, numbered by its place in the block.\<close>

definition byz_responses :: "cached_block \<Rightarrow> byz_response list" where
  "byz_responses b = map (\<lambda>tx_n. \<lparr>br_block_n = cb_n b, br_tx_n = tx_n, br_client_tag = 0\<rparr>)
     [0..<length (tx_list (cb_block b))]"

definition null_byz_commit :: "unit \<Rightarrow> cached_block list \<Rightarrow> unit \<times> byz_response list list" where
  "null_byz_commit e blocks = (e, map byz_responses blocks)"

definition null_rollback :: "unit \<Rightarrow> u64 \<Rightarrow> unit" where
  "null_rollback e n = e"

definition null_unlogged :: "unit \<Rightarrow> transaction \<Rightarrow> (unit \<times> tx_result) result" where
  "null_unlogged e tx = Inr (e, null_results (on_receive tx))"

definition null_engine :: "unit engine" where
  "null_engine = \<lparr>eng_crash_commit = null_crash_commit, eng_byz_commit = null_byz_commit,
     eng_rollback = null_rollback, eng_unlogged = null_unlogged\<rparr>"

section \<open>The component\<close>

record log_stats =
  ls_ci :: u64
  ls_bci :: u64
  ls_view :: u64
  ls_i_am_leader :: bool
  ls_view_is_stable :: bool
  ls_last_n :: u64
  ls_last_qc :: u64
  ls_last_hash :: bytes
  ls_total_requests :: u64
  ls_total_crash_committed_txs :: u64
  ls_total_byz_committed_txs :: u64
  ls_total_unlogged_txs :: u64
  ls_total_2pc_txs :: u64

definition log_stats_new :: "features \<Rightarrow> log_stats" where
  "log_stats_new ft =
     \<lparr>ls_ci = 0, ls_bci = 0, ls_view = (if ft_view_change ft then 0 else 1), ls_i_am_leader = False,
      ls_view_is_stable = (\<not> ft_view_change ft), ls_last_n = 0, ls_last_qc = 0, ls_last_hash = default_hash,
      ls_total_requests = 0, ls_total_crash_committed_txs = 0, ls_total_byz_committed_txs = 0,
      ls_total_unlogged_txs = 0, ls_total_2pc_txs = 0\<rparr>"

text \<open>The reply channel of an unlogged request is named by a number.\<close>

datatype app_out =
    AppReply client_reply_command
  | AppGc u64
  | AppTwoPC transaction nat
  | AppUnloggedReply nat tx_result

record 'e application =
  ap_engine :: 'e
  ap_stats :: log_stats
  ap_out :: "app_out list"

definition application_new :: "features \<Rightarrow> 'e \<Rightarrow> 'e application" where
  "application_new ft engine_new =
     \<lparr>ap_engine = engine_new, ap_stats = log_stats_new ft, ap_out = []\<rparr>"

definition app_emit :: "app_out \<Rightarrow> 'e application \<Rightarrow> 'e application" where
  "app_emit msg a = a\<lparr>ap_out := ap_out a @ [msg]\<rparr>"

text \<open>\<open>collect\<close> of pairs into a \<open>HashMap\<close>: a later pair with the same key wins.\<close>

definition collect_map :: "('k \<times> 'v) list \<Rightarrow> ('k \<times> 'v) list" where
  "collect_map kvs = foldl (\<lambda>m (k, v). AList.update k v m) [] kvs"

definition app_new_request_batch ::
  "u64 \<Rightarrow> u64 \<Rightarrow> bool \<Rightarrow> bool \<Rightarrow> nat \<Rightarrow> bytes \<Rightarrow> 'e application \<Rightarrow> 'e application" where
  "app_new_request_batch n view stable_view leader len last_hash a =
     a\<lparr>ap_stats := (ap_stats a)\<lparr>ls_last_n := n, ls_view := view, ls_view_is_stable := stable_view,
        ls_i_am_leader := leader, ls_last_hash := last_hash,
        ls_total_requests := ls_total_requests (ap_stats a) + len\<rparr>\<rparr>"

definition app_crash_commit :: "'e engine \<Rightarrow> cached_block list \<Rightarrow> 'e application \<Rightarrow> 'e application result" where
  "app_crash_commit E blocks a =
     (let new_ci = foldl (\<lambda>ci b. if ci < cb_n b then cb_n b else ci) (ls_ci (ap_stats a)) blocks;
          new_last_qc = foldl (\<lambda>q qc. if q < qc_n qc then qc_n qc else q) (ls_last_qc (ap_stats a))
             (concat (map (blk_qc \<circ> cb_block) blocks));
          block_hashes = map cb_hash blocks;
          block_ns = map cb_n blocks
      in bindE (eng_crash_commit E (ap_engine a) blocks) (\<lambda>(engine', results).
         let stats = (ap_stats a)\<lparr>ls_total_crash_committed_txs :=
                        ls_total_crash_committed_txs (ap_stats a) + sum_list (map length results),
                      ls_ci := new_ci, ls_last_qc := new_last_qc\<rparr>
         in bindE (assertE Assertion (length block_hashes = length results)) (\<lambda>_.
            Inr (app_emit (AppReply (CrashCommitAck (collect_map (zip block_hashes (zip block_ns results)))))
                  (a\<lparr>ap_engine := engine', ap_stats := stats\<rparr>)))))"

definition app_byz_commit :: "'e engine \<Rightarrow> cached_block list \<Rightarrow> 'e application \<Rightarrow> 'e application result" where
  "app_byz_commit E blocks a =
     (let new_bci = foldl (\<lambda>bci b. if bci < cb_n b then cb_n b else bci) (ls_bci (ap_stats a)) blocks;
          block_hashes = map cb_hash blocks;
          block_ns = map cb_n blocks;
          (engine', results) = eng_byz_commit E (ap_engine a) blocks;
          stats = (ap_stats a)\<lparr>ls_total_byz_committed_txs :=
                     ls_total_byz_committed_txs (ap_stats a) + sum_list (map length results),
                   ls_bci := new_bci\<rparr>
      in bindE (assertE Assertion (length block_hashes = length results)) (\<lambda>_.
         Inr (app_emit (AppReply (ByzCommitAck (collect_map (zip block_hashes (zip block_ns results)))))
               (a\<lparr>ap_engine := engine', ap_stats := stats\<rparr>))))"

definition app_rollback :: "'e engine \<Rightarrow> u64 \<Rightarrow> 'e application \<Rightarrow> 'e application" where
  "app_rollback E new_last_block a =
     (let st = ap_stats a;
          n = (if new_last_block \<le> ls_bci st then ls_bci st + 1 else new_last_block);
          st1 = (if ls_ci st > n then st\<lparr>ls_ci := n\<rparr> else st)
      in a\<lparr>ap_engine := eng_rollback E (ap_engine a) n, ap_stats := st1\<lparr>ls_last_n := n\<rparr>\<rparr>)"

fun handle_staging_command :: "'e engine \<Rightarrow> app_command \<Rightarrow> 'e application \<Rightarrow> 'e application result" where
  "handle_staging_command E (NewRequestBatch n view st leader len last_hash) a =
     Inr (app_new_request_batch n view st leader len last_hash a)"
| "handle_staging_command E (CrashCommit blocks) a = app_crash_commit E blocks a"
| "handle_staging_command E (ByzCommit blocks) a = app_byz_commit E blocks a"
| "handle_staging_command E (Rollback n) a = Inr (app_rollback E n a)"

definition app_unlogged_request ::
  "features \<Rightarrow> 'e engine \<Rightarrow> transaction \<Rightarrow> nat \<Rightarrow> 'e application \<Rightarrow> 'e application result" where
  "app_unlogged_request ft E tx reply a =
     (if ft_extra_2pc ft \<and> is_2pc tx
      then Inr ((app_emit (AppTwoPC tx reply) a)\<lparr>ap_stats := (ap_stats a)\<lparr>ls_total_2pc_txs :=
                  ls_total_2pc_txs (ap_stats a) + 1\<rparr>\<rparr>)
      else bindE (eng_unlogged E (ap_engine a) tx) (\<lambda>(engine', res).
           Inr (app_emit (AppUnloggedReply reply res)
                 (a\<lparr>ap_engine := engine', ap_stats := (ap_stats a)\<lparr>
                      ls_total_requests := ls_total_requests (ap_stats a) + 1,
                      ls_total_unlogged_txs := ls_total_unlogged_txs (ap_stats a) + 1\<rparr>\<rparr>))))"

definition app_checkpoint :: "'e application \<Rightarrow> 'e application" where
  "app_checkpoint a =
     (if ls_bci (ap_stats a) > 1 then app_emit (AppGc (ls_bci (ap_stats a) - 1)) a else a)"

datatype app_event =
    AP_Command "app_command option"
  | AP_Unlogged "(transaction \<times> nat) option"
  | AP_CheckpointTick
  | AP_LogTick

fun application_worker :: "features \<Rightarrow> 'e engine \<Rightarrow> app_event \<Rightarrow> 'e application \<Rightarrow> 'e application result" where
  "application_worker ft E (AP_Command None) a = Inl Err_Unit"
| "application_worker ft E (AP_Command (Some cmd)) a = handle_staging_command E cmd a"
| "application_worker ft E (AP_Unlogged None) a = Inl Err_Unit"
| "application_worker ft E (AP_Unlogged (Some (tx, reply))) a = app_unlogged_request ft E tx reply a"
| "application_worker ft E AP_CheckpointTick a = Inr (app_checkpoint a)"
| "application_worker ft E AP_LogTick a = Inr a"

section \<open>What the component relies on\<close>

text \<open>
  One result list per block, one result per transaction, and batches may be split: executing
  two batches after each other is executing their concatenation.
\<close>

locale engine_laws =
  fixes E :: "'e engine"
  assumes crash_per_tx: "eng_crash_commit E e bs = Inr (e', rs) \<Longrightarrow>
       map length rs = map (length \<circ> tx_list \<circ> cb_block) bs"
    and byz_per_tx: "map length (snd (eng_byz_commit E e bs)) = map (length \<circ> tx_list \<circ> cb_block) bs"
    and crash_split: "eng_crash_commit E e (bs @ cs) =
       bindE (eng_crash_commit E e bs) (\<lambda>(e1, rs). mapE (\<lambda>(e2, ss). (e2, rs @ ss)) (eng_crash_commit E e1 cs))"
begin

lemma crash_length: "eng_crash_commit E e bs = Inr (e', rs) \<Longrightarrow> length rs = length bs"
  by (metis crash_per_tx length_map)

lemma byz_length: "length (snd (eng_byz_commit E e bs)) = length bs"
  by (metis byz_per_tx length_map)

lemma byz_commit_total: "\<exists>a'. app_byz_commit E bs a = Inr a'"
  using byz_length [of "ap_engine a" bs] by (auto simp: app_byz_commit_def Let_def split: prod.split)

text \<open>The assertion on the number of results never fails: only the engine itself can.\<close>

lemma crash_commit_fails_iff:
  "(\<exists>f. app_crash_commit E bs a = Inl f) \<longleftrightarrow> (\<exists>f. eng_crash_commit E (ap_engine a) bs = Inl f)"
proof (cases "eng_crash_commit E (ap_engine a) bs")
  case (Inr r)
  then obtain e' rs where "eng_crash_commit E (ap_engine a) bs = Inr (e', rs)" by (cases r) auto
  with crash_length [OF this] show ?thesis by (simp add: app_crash_commit_def Let_def)
qed (simp add: app_crash_commit_def Let_def)

lemma crash_commit_counts:
  assumes "app_crash_commit E bs a = Inr a'"
  shows "ls_total_crash_committed_txs (ap_stats a') =
     ls_total_crash_committed_txs (ap_stats a) + sum_list (map (length \<circ> tx_list \<circ> cb_block) bs)"
  using assms by (auto simp: app_crash_commit_def Let_def app_emit_def dest!: crash_per_tx elim!: bindE_InrE)

lemma crash_commit_acks:
  assumes "app_crash_commit E bs a = Inr a'"
  obtains rs where "eng_crash_commit E (ap_engine a) bs = Inr (ap_engine a', rs)" and "length rs = length bs"
    and "ap_out a' = ap_out a @ [AppReply (CrashCommitAck (collect_map (zip (map cb_hash bs) (zip (map cb_n bs) rs))))]"
  using assms by (auto simp: app_crash_commit_def Let_def app_emit_def elim!: bindE_InrE)

end

interpretation null: engine_laws null_engine
  by unfold_locales
    (auto simp: null_engine_def null_crash_commit_def null_byz_commit_def byz_responses_def)

end
