(* ===== verification/Kvs.thy ===== *)
theory Kvs
  imports App
begin

text \<open>
  The key-value store engine (\<open>src/consensus/engines/kvs.rs\<close>). Crash committed writes are kept
  as versions, numbered by their block, until the block is byzantine committed; a rollback
  drops the versions of abandoned blocks. A \<open>HashMap\<close> is a HOL map: no operation depends on
  its iteration order. Counters are \<open>i64\<close>, that is 64 bit words with wrap-around.
\<close>

section \<open>Definitions\<close>

record kvs =
  kv_ci_state :: "bytes \<rightharpoonup> (u64 \<times> bytes) list"
  kv_bci_state :: "bytes \<rightharpoonup> bytes"
  kv_last_ci :: u64
  kv_last_bci :: u64

definition kvs_new :: kvs where
  "kvs_new = \<lparr>kv_ci_state = Map.empty, kv_bci_state = Map.empty, kv_last_ci = 0, kv_last_bci = 0\<rparr>"

definition i64_from_be :: "bytes \<Rightarrow> 64 word option" where
  "i64_from_be bs = (if length bs = 8 then Some (word_of_nat (from_be bs)) else None)"

definition i64_to_be :: "64 word \<Rightarrow> bytes" where
  "i64_to_be w = to_be 8 (unat w)"

definition kvs_read :: "kvs \<Rightarrow> bytes \<Rightarrow> bytes option result" where
  "kvs_read s key =
     (case kv_ci_state s key of
        Some v \<Rightarrow> if v = [] then Inl Unwrap_None else Inr (Some (snd (last v)))
      | None \<Rightarrow> Inr (kv_bci_state s key))"

text \<open>Appending a version to a key, or creating the key.\<close>

definition kvs_write :: "u64 \<Rightarrow> bytes \<Rightarrow> bytes \<Rightarrow> kvs \<Rightarrow> kvs" where
  "kvs_write n key val s =
     s\<lparr>kv_ci_state := (kv_ci_state s)(key \<mapsto>
        (case kv_ci_state s key of Some v \<Rightarrow> v @ [(n, val)] | None \<Rightarrow> [(n, val)]))\<rparr>"

definition kvs_increment :: "u64 \<Rightarrow> bytes list \<Rightarrow> kvs \<Rightarrow> (kvs \<times> op_result list) result" where
  "kvs_increment n args s =
     (if length args \<noteq> 1 \<and> length args \<noteq> 2 \<and> length args \<noteq> 3 then Inr (s, [])
      else let incr_val = (if length args = 2 then (case i64_from_be (args ! 1) of Some v \<Rightarrow> v | None \<Rightarrow> 1) else 1);
               key = args ! 0
           in bindE (kvs_read s key) (\<lambda>r.
              bindE (case r of None \<Rightarrow> Inr 0 | Some bs \<Rightarrow> unwrap (i64_from_be bs)) (\<lambda>counter.
              let must_increment = (if length args = 3
                     then (case i64_from_be (args ! 2) of Some check_val \<Rightarrow> counter = check_val | None \<Rightarrow> True)
                     else True);
                  val = i64_to_be (if must_increment then counter + incr_val else counter)
              in Inr (kvs_write n key val s, [\<lparr>or_success = True, or_values = [val]\<rparr>]))))"

fun cas_triples :: "bytes list \<Rightarrow> (bytes \<times> bytes \<times> bytes) list" where
  "cas_triples (key # swap_val # compare_val # rest) = (key, swap_val, compare_val) # cas_triples rest"
| "cas_triples _ = []"

definition kvs_cas :: "u64 \<Rightarrow> bytes list \<Rightarrow> kvs \<Rightarrow> (kvs \<times> op_result list) result" where
  "kvs_cas n args s =
     (if length args mod 3 \<noteq> 0 then Inr (s, [])
      else let cas_ops = cas_triples args
           in bindE (mapsE (\<lambda>(key, _, _). mapE (\<lambda>r. case r of None \<Rightarrow> [] | Some v \<Rightarrow> v) (kvs_read s key)) cas_ops)
              (\<lambda>read_vals.
                let must_operate = list_all (\<lambda>(rd, (_, _, compare_val)). rd = compare_val) (zip read_vals cas_ops);
                    s' = (if must_operate then fold (\<lambda>(key, swap_val, _). kvs_write n key swap_val) cas_ops s else s)
                in Inr (s', [\<lparr>or_success = must_operate, or_values = read_vals\<rparr>])))"

text \<open>One operation of a crash commit phase: the new state and at most one result.\<close>

definition kvs_crash_op :: "u64 \<Rightarrow> tx_op \<Rightarrow> kvs \<Rightarrow> (kvs \<times> op_result list) result" where
  "kvs_crash_op n oper s =
     (let args = operands oper in
      case op_type_from_i32 (op_type oper) of
        None \<Rightarrow> Inr (s, [])
      | Some WRITE \<Rightarrow>
          if length args \<noteq> 2 then Inr (s, [])
          else Inr (kvs_write n (args ! 0) (args ! 1) s, [\<lparr>or_success = True, or_values = []\<rparr>])
      | Some READ \<Rightarrow>
          if length args \<noteq> 1 then Inr (s, [])
          else mapE (\<lambda>r. (s, case r of Some v \<Rightarrow> [\<lparr>or_success = True, or_values = [v]\<rparr>] | None \<Rightarrow> []))
                 (kvs_read s (args ! 0))
      | Some INCREMENT \<Rightarrow> kvs_increment n args s
      | Some CAS \<Rightarrow> kvs_cas n args s
      | Some _ \<Rightarrow> Inr (s, []))"

text \<open>Running a list of steps that each return results, and collecting the results.\<close>

fun collectE :: "('a \<Rightarrow> 's \<Rightarrow> ('s \<times> 'r list) result) \<Rightarrow> 'a list \<Rightarrow> 's \<Rightarrow> ('s \<times> 'r list) result" where
  "collectE f [] s = Inr (s, [])"
| "collectE f (x # xs) s =
     bindE (f x s) (\<lambda>(s1, r). mapE (\<lambda>(s2, rs). (s2, r @ rs)) (collectE f xs s1))"

definition kvs_crash_tx :: "u64 \<Rightarrow> transaction \<Rightarrow> kvs \<Rightarrow> (kvs \<times> tx_result list) result" where
  "kvs_crash_tx n tx s =
     (case on_crash_commit tx of
        None \<Rightarrow> Inr (s, [\<lparr>tr_result = []\<rparr>])
      | Some ph \<Rightarrow> mapE (\<lambda>(s', rs). (s', [\<lparr>tr_result = rs\<rparr>])) (collectE (kvs_crash_op n) (ops ph) s))"

definition kvs_crash_block :: "cached_block \<Rightarrow> kvs \<Rightarrow> (kvs \<times> tx_result list list) result" where
  "kvs_crash_block b s =
     mapE (\<lambda>(s', rs). (s', [rs]))
       (collectE (kvs_crash_tx (cb_n b)) (tx_list (cb_block b)) (s\<lparr>kv_last_ci := cb_n b\<rparr>))"

definition kvs_crash_commit :: "kvs \<Rightarrow> cached_block list \<Rightarrow> (kvs \<times> tx_result list list) result" where
  "kvs_crash_commit s blocks = collectE kvs_crash_block blocks s"

definition kvs_byz_op :: "tx_op \<Rightarrow> kvs \<Rightarrow> kvs" where
  "kvs_byz_op oper s =
     (if length (operands oper) \<noteq> 2 then s
      else if op_type_from_i32 (op_type oper) = Some WRITE
      then s\<lparr>kv_bci_state := (kv_bci_state s)(operands oper ! 0 \<mapsto> operands oper ! 1)\<rparr> else s)"

definition kvs_byz_block :: "cached_block \<Rightarrow> kvs \<Rightarrow> kvs" where
  "kvs_byz_block b s =
     fold (\<lambda>tx. fold kvs_byz_op (case on_byzantine_commit tx of None \<Rightarrow> [] | Some ph \<Rightarrow> ops ph))
       (tx_list (cb_block b)) (s\<lparr>kv_last_bci := cb_n b\<rparr>)"

text \<open>
  After the blocks, every version up to \<open>last_bci\<close> moves to the committed state; the versions
  of a key are inserted in order, so its last one stays.
\<close>

definition kvs_promote :: "kvs \<Rightarrow> kvs" where
  "kvs_promote s =
     s\<lparr>kv_bci_state := (\<lambda>key. case kv_ci_state s key of
          None \<Rightarrow> kv_bci_state s key
        | Some v \<Rightarrow> foldl (\<lambda>acc (pos, val). if pos \<le> kv_last_bci s then Some val else acc) (kv_bci_state s key) v),
       kv_ci_state := (\<lambda>key. case kv_ci_state s key of
          None \<Rightarrow> None
        | Some v \<Rightarrow> let v' = filter (\<lambda>(pos, _). pos > kv_last_bci s) v in if v' = [] then None else Some v')\<rparr>"

definition kvs_byz_commit :: "kvs \<Rightarrow> cached_block list \<Rightarrow> kvs \<times> byz_response list list" where
  "kvs_byz_commit s blocks = (kvs_promote (fold kvs_byz_block blocks s), map byz_responses blocks)"

definition kvs_rollback :: "kvs \<Rightarrow> u64 \<Rightarrow> kvs" where
  "kvs_rollback s n =
     s\<lparr>kv_ci_state := (\<lambda>key. case kv_ci_state s key of
          None \<Rightarrow> None
        | Some v \<Rightarrow> let v' = filter (\<lambda>(pos, _). pos \<le> n) v in if v' = [] then None else Some v')\<rparr>"

definition kvs_unlogged_op :: "tx_op \<Rightarrow> kvs \<Rightarrow> (kvs \<times> op_result list) result" where
  "kvs_unlogged_op oper s =
     (if length (operands oper) \<noteq> 1 then Inr (s, [])
      else mapE (\<lambda>r. (s, [case r of Some v \<Rightarrow> \<lparr>or_success = True, or_values = [v]\<rparr>
                                  | None \<Rightarrow> \<lparr>or_success = False, or_values = []\<rparr>]))
             (kvs_read s (operands oper ! 0)))"

definition kvs_unlogged :: "kvs \<Rightarrow> transaction \<Rightarrow> (kvs \<times> tx_result) result" where
  "kvs_unlogged s tx =
     (case on_receive tx of
        None \<Rightarrow> Inr (s, \<lparr>tr_result = []\<rparr>)
      | Some ph \<Rightarrow> mapE (\<lambda>(s', rs). (s', \<lparr>tr_result = rs\<rparr>)) (collectE kvs_unlogged_op (ops ph) s))"

definition kvs_engine :: "kvs engine" where
  "kvs_engine = \<lparr>eng_crash_commit = kvs_crash_commit, eng_byz_commit = kvs_byz_commit,
     eng_rollback = kvs_rollback, eng_unlogged = kvs_unlogged\<rparr>"

section \<open>The laws of an engine\<close>

lemma collectE_append:
  "collectE f (xs @ ys) s =
     bindE (collectE f xs s) (\<lambda>(s1, rs). mapE (\<lambda>(s2, ss). (s2, rs @ ss)) (collectE f ys s1))"
proof (induction xs arbitrary: s)
  case Nil
  then show ?case by (cases "collectE f ys s") auto
next
  case (Cons x xs)
  show ?case
  proof (cases "f x s")
    case (Inr r)
    obtain s1 r1 where r: "r = (s1, r1)" by (cases r)
    show ?thesis
    proof (cases "collectE f xs s1")
      case (Inr q)
      obtain s2 r2 where "q = (s2, r2)" by (cases q)
      then show ?thesis using Inr \<open>f x s = Inr r\<close> r Cons.IH [of s1] by (cases "collectE f ys s2") auto
    qed (use Inr r Cons.IH [of s1] in simp)
  qed simp
qed

lemma collectE_length:
  assumes "collectE f xs s = Inr (t, rs)" and "\<And>x s t r. x \<in> set xs \<Longrightarrow> f x s = Inr (t, r) \<Longrightarrow> length r = 1"
  shows "length rs = length xs"
  using assms
proof (induction xs arbitrary: s rs)
  case (Cons x xs)
  from Cons.prems(1) obtain s1 r rs' where 1: "f x s = Inr (s1, r)" "collectE f xs s1 = Inr (t, rs')" "rs = r @ rs'"
    by (auto elim!: bindE_InrE mapE_InrE)
  have "length r = 1" by (rule Cons.prems(2) [OF _ 1(1)]) simp
  moreover have "length rs' = length xs" by (rule Cons.IH [OF 1(2)]) (use Cons.prems(2) in auto)
  ultimately show ?case using 1(3) by simp
qed simp

lemma collectE_invariant:
  assumes "collectE f xs s = Inr (t, rs)" and "I s"
    and "\<And>x s t r. x \<in> set xs \<Longrightarrow> I s \<Longrightarrow> f x s = Inr (t, r) \<Longrightarrow> I t"
  shows "I t"
  using assms
proof (induction xs arbitrary: s rs)
  case (Cons x xs)
  from Cons.prems(1) obtain s1 r rs' where 1: "f x s = Inr (s1, r)" "collectE f xs s1 = Inr (t, rs')"
    by (auto elim!: bindE_InrE mapE_InrE)
  have "I s1" by (rule Cons.prems(3) [OF _ Cons.prems(2) 1(1)]) simp
  with 1(2) show ?case
  proof (rule Cons.IH)
    fix y s t r assume "y \<in> set xs" "I s" "f y s = Inr (t, r)"
    then show "I t" by (intro Cons.prems(3) [of y s t r]) simp_all
  qed
qed simp

lemma kvs_crash_tx_length: "kvs_crash_tx n tx s = Inr (t, r) \<Longrightarrow> length r = 1"
  by (auto simp: kvs_crash_tx_def elim!: mapE_InrE split: option.split_asm)

lemma kvs_crash_block_lengths:
  assumes "kvs_crash_block b s = Inr (t, r)"
  shows "map length r = [length (tx_list (cb_block b))]"
proof -
  obtain rs where "collectE (kvs_crash_tx (cb_n b)) (tx_list (cb_block b)) (s\<lparr>kv_last_ci := cb_n b\<rparr>) = Inr (t, rs)"
    and "r = [rs]" using assms by (auto simp: kvs_crash_block_def elim!: mapE_InrE)
  then show ?thesis using collectE_length [OF _ kvs_crash_tx_length] by fastforce
qed

lemma kvs_crash_commit_lengths:
  assumes "kvs_crash_commit s bs = Inr (t, rs)"
  shows "map length rs = map (length \<circ> tx_list \<circ> cb_block) bs"
  using assms unfolding kvs_crash_commit_def
proof (induction bs arbitrary: s rs)
  case (Cons b bs)
  then obtain s1 r rs' where "kvs_crash_block b s = Inr (s1, r)" "collectE kvs_crash_block bs s1 = Inr (t, rs')" "rs = r @ rs'"
    by (auto elim!: bindE_InrE mapE_InrE)
  with Cons.IH kvs_crash_block_lengths show ?case by fastforce
qed simp

interpretation kvs: engine_laws kvs_engine
proof unfold_locales
  fix s t bs rs assume "eng_crash_commit kvs_engine s bs = Inr (t, rs)"
  then show "map length rs = map (length \<circ> tx_list \<circ> cb_block) bs"
    by (intro kvs_crash_commit_lengths) (simp add: kvs_engine_def)
qed (simp_all add: kvs_engine_def kvs_byz_commit_def byz_responses_def kvs_crash_commit_def collectE_append)


section \<open>Versions\<close>

definition versions :: "kvs \<Rightarrow> bytes \<Rightarrow> (u64 \<times> bytes) list" where
  "versions s key = (case kv_ci_state s key of None \<Rightarrow> [] | Some v \<Rightarrow> v)"

text \<open>What a read returns, as a map: the abstract state of the store.\<close>

definition kvs_lookup :: "kvs \<Rightarrow> bytes \<rightharpoonup> bytes" where
  "kvs_lookup s key = (if versions s key = [] then kv_bci_state s key else Some (snd (last (versions s key))))"

text \<open>No empty version list, versions in the order of their blocks, none above \<open>N\<close>.\<close>

definition versions_ok :: "u64 \<Rightarrow> kvs \<Rightarrow> bool" where
  "versions_ok N s \<longleftrightarrow> (\<forall>key. kv_ci_state s key \<noteq> Some [] \<and> sorted (map fst (versions s key))
     \<and> (\<forall>p \<in> fst ` set (versions s key). p \<le> N))"

lemma versions_write [simp]:
  "versions (kvs_write n key val s) = (versions s)(key := versions s key @ [(n, val)])"
  by (auto simp: versions_def kvs_write_def split: option.split)

lemma kvs_write_fields [simp]:
  "kv_bci_state (kvs_write n key val s) = kv_bci_state s" "kv_last_bci (kvs_write n key val s) = kv_last_bci s"
  "kv_last_ci (kvs_write n key val s) = kv_last_ci s"
  by (simp_all add: kvs_write_def)

lemma kvs_lookup_write: "kvs_lookup (kvs_write n key val s) = (kvs_lookup s)(key \<mapsto> val)"
  by (auto simp: kvs_lookup_def fun_eq_iff)

lemma kvs_read_lookup: "versions_ok N s \<Longrightarrow> kvs_read s key = Inr (kvs_lookup s key)"
  by (auto simp: kvs_read_def kvs_lookup_def versions_ok_def versions_def split: option.split)

lemma versions_ok_write:
  assumes "versions_ok n s" shows "versions_ok n (kvs_write n key val s)"
proof -
  have "kv_ci_state (kvs_write n key val s) k \<noteq> Some []" for k
    using assms by (auto simp: kvs_write_def versions_ok_def split: option.split)
  then show ?thesis using assms by (auto simp: versions_ok_def sorted_append)
qed

lemma versions_ok_mono: "versions_ok N s \<Longrightarrow> N \<le> n \<Longrightarrow> versions_ok n s"
  by (fastforce simp: versions_ok_def)

text \<open>Whatever holds after writes in block \<open>n\<close> holds after any step of block \<open>n\<close>.\<close>

definition write_closed :: "u64 \<Rightarrow> (kvs \<Rightarrow> bool) \<Rightarrow> bool" where
  "write_closed n I \<longleftrightarrow> (\<forall>s key val. I s \<longrightarrow> I (kvs_write n key val s))"

lemma write_closed_fold:
  "write_closed n I \<Longrightarrow> I s \<Longrightarrow> I (fold (\<lambda>(key, swap_val, _). kvs_write n key swap_val) cas s)"
  by (induction cas arbitrary: s) (auto simp: write_closed_def)

lemma write_closed_op:
  assumes "write_closed n I" and "I s" and "kvs_crash_op n oper s = Inr (t, r)"
  shows "I t"
  using assms write_closed_fold [OF assms(1,2)]
  by (auto simp: kvs_crash_op_def kvs_increment_def kvs_cas_def Let_def write_closed_def
      elim!: bindE_InrE mapE_InrE split: option.split_asm tx_op_type.split_asm if_split_asm)

lemma write_closed_tx:
  assumes "write_closed n I" and "I s" and "kvs_crash_tx n tx s = Inr (t, r)"
  shows "I t"
proof (cases "on_crash_commit tx")
  case (Some ph)
  then obtain rs where "collectE (kvs_crash_op n) (ops ph) s = Inr (t, rs)"
    using assms(3) by (auto simp: kvs_crash_tx_def elim!: mapE_InrE)
  then show ?thesis by (rule collectE_invariant [where I = I, OF _ assms(2)]) (rule write_closed_op [OF assms(1)])
qed (use assms in \<open>simp add: kvs_crash_tx_def\<close>)

lemma write_closed_block:
  assumes "write_closed (cb_n b) I" and "I (s\<lparr>kv_last_ci := cb_n b\<rparr>)" and "kvs_crash_block b s = Inr (t, r)"
  shows "I t"
proof -
  obtain rs where "collectE (kvs_crash_tx (cb_n b)) (tx_list (cb_block b)) (s\<lparr>kv_last_ci := cb_n b\<rparr>) = Inr (t, rs)"
    using assms(3) by (auto simp: kvs_crash_block_def elim!: mapE_InrE)
  then show ?thesis by (rule collectE_invariant [where I = I, OF _ assms(2)]) (rule write_closed_tx [OF assms(1)])
qed

lemma versions_last_ci [simp]: "versions (s\<lparr>kv_last_ci := n\<rparr>) = versions s"
  by (simp add: versions_def fun_eq_iff)

lemma versions_ok_last_ci [simp]: "versions_ok N (s\<lparr>kv_last_ci := n\<rparr>) = versions_ok N s"
  by (simp add: versions_ok_def)

lemma versions_ok_block:
  assumes "versions_ok N s" and "N \<le> cb_n b" and "kvs_crash_block b s = Inr (t, r)"
  shows "versions_ok (cb_n b) t"
proof (rule write_closed_block [OF _ _ assms(3)])
  show "write_closed (cb_n b) (versions_ok (cb_n b))" by (simp add: write_closed_def versions_ok_write)
qed (use versions_ok_mono [OF assms(1,2)] in simp)

section \<open>Rollback\<close>

text \<open>The versions up to \<open>N\<close>, the committed state and the index are those of \<open>s\<close>.\<close>

definition agrees_upto :: "u64 \<Rightarrow> kvs \<Rightarrow> kvs \<Rightarrow> bool" where
  "agrees_upto N s t \<longleftrightarrow> (\<forall>key. filter (\<lambda>(p, _). p \<le> N) (versions t key) = versions s key)
     \<and> kv_bci_state t = kv_bci_state s \<and> kv_last_bci t = kv_last_bci s"

lemma agrees_upto_closed: "N < n \<Longrightarrow> write_closed n (agrees_upto N s)"
  by (auto simp: write_closed_def agrees_upto_def)

lemma agrees_upto_commit:
  assumes "kvs_crash_commit t bs = Inr (u, rs)" and "agrees_upto N s t" and "\<forall>b \<in> set bs. N < cb_n b"
  shows "agrees_upto N s u"
  using assms(1) unfolding kvs_crash_commit_def
proof (rule collectE_invariant [where I = "agrees_upto N s", OF _ assms(2)])
  fix b v w r assume b: "b \<in> set bs" and "agrees_upto N s v" and step: "kvs_crash_block b v = Inr (w, r)"
  then have "agrees_upto N s (v\<lparr>kv_last_ci := cb_n b\<rparr>)" by (simp add: agrees_upto_def)
  moreover have "write_closed (cb_n b) (agrees_upto N s)" using assms(3) b by (simp add: agrees_upto_closed)
  ultimately show "agrees_upto N s w" using write_closed_block step by blast
qed

lemma agrees_upto_rollback:
  assumes "agrees_upto N s t" and "versions_ok N s"
  shows "kvs_rollback t N = s\<lparr>kv_last_ci := kv_last_ci t\<rparr>"
proof -
  have "kv_ci_state (kvs_rollback t N) key = kv_ci_state s key" for key
  proof -
    have eq: "filter (\<lambda>(p, _). p \<le> N) (versions t key) = versions s key" using assms(1) by (simp add: agrees_upto_def)
    have ne: "kv_ci_state s key \<noteq> Some []" using assms(2) by (simp add: versions_ok_def)
    show ?thesis using eq ne by (auto simp: kvs_rollback_def versions_def Let_def split: option.split_asm option.split)
  qed
  then show ?thesis using assms(1) by (auto simp: kvs_rollback_def agrees_upto_def fun_eq_iff)
qed

lemma agrees_upto_refl: "versions_ok N s \<Longrightarrow> agrees_upto N s s"
  by (force simp: agrees_upto_def versions_ok_def intro: filter_True)

section \<open>Byzantine commit\<close>

lemma foldl_versions:
  "foldl (\<lambda>acc (pos, val). if pos \<le> N then Some val else acc) d v =
     (let w = filter (\<lambda>(pos, _). pos \<le> N) v in if w = [] then d else Some (snd (last w)))"
  by (induction v arbitrary: d) (auto simp: Let_def)

lemma promote_versions: "versions (kvs_promote s) key = filter (\<lambda>(pos, _). pos > kv_last_bci s) (versions s key)"
  by (auto simp: kvs_promote_def versions_def Let_def split: option.split)

lemma promote_committed:
  "kv_bci_state (kvs_promote s) key =
     (let w = filter (\<lambda>(pos, _). pos \<le> kv_last_bci s) (versions s key)
      in if w = [] then kv_bci_state s key else Some (snd (last w)))"
  by (auto simp: kvs_promote_def versions_def foldl_versions split: option.split)

text \<open>Moving versions to the committed state does not change what a read returns.\<close>

lemma promote_lookup:
  assumes "versions_ok N s" shows "kvs_lookup (kvs_promote s) = kvs_lookup s"
proof
  fix key
  let ?v = "versions s key" and ?K = "kv_last_bci s"
  show "kvs_lookup (kvs_promote s) key = kvs_lookup s key"
  proof (cases ?v rule: rev_cases)
    case Nil
    then show ?thesis by (simp add: kvs_lookup_def promote_versions promote_committed)
  next
    case (snoc w x)
    have "sorted (map fst ?v)" using assms by (simp add: versions_ok_def)
    then have le: "\<forall>p \<in> fst ` set w. p \<le> fst x" using snoc by (auto simp: sorted_append)
    show ?thesis
    proof (cases "fst x \<le> ?K")
      case True
      then have "filter (\<lambda>(pos, _). pos > ?K) ?v = []" using snoc le by (fastforce simp: filter_empty_conv)
      then show ?thesis using True snoc
        by (simp add: kvs_lookup_def promote_versions promote_committed split_beta)
    next
      case False
      then show ?thesis using snoc by (simp add: kvs_lookup_def promote_versions split_beta)
    qed
  qed
qed

lemma promote_ok: "versions_ok N s \<Longrightarrow> versions_ok N (kvs_promote s)"
proof -
  assume ok: "versions_ok N s"
  have "kv_ci_state (kvs_promote s) key \<noteq> Some []" for key
    by (auto simp: kvs_promote_def Let_def split: option.split)
  moreover have "sorted (map fst (versions (kvs_promote s) key))" for key
    unfolding promote_versions using ok by (intro sorted_filter) (simp add: versions_ok_def)
  moreover have "\<forall>p \<in> fst ` set (versions (kvs_promote s) key). p \<le> N" for key
    unfolding promote_versions using ok by (fastforce simp: versions_ok_def)
  ultimately show ?thesis by (simp add: versions_ok_def)
qed

text \<open>The writes of the byzantine commit phases, as a list.\<close>

definition byz_writes :: "cached_block \<Rightarrow> tx_op list" where
  "byz_writes b = filter (\<lambda>oper. length (operands oper) = 2 \<and> op_type_from_i32 (op_type oper) = Some WRITE)
     (concat (map (\<lambda>tx. case on_byzantine_commit tx of None \<Rightarrow> [] | Some ph \<Rightarrow> ops ph) (tx_list (cb_block b))))"

lemma byz_op_fields [simp]:
  "kv_ci_state (kvs_byz_op oper s) = kv_ci_state s" "kv_last_bci (kvs_byz_op oper s) = kv_last_bci s"
  by (simp_all add: kvs_byz_op_def)

lemma fold_byz_op_none:
  "filter (\<lambda>oper. length (operands oper) = 2 \<and> op_type_from_i32 (op_type oper) = Some WRITE) os = []
     \<Longrightarrow> fold kvs_byz_op os s = s"
  by (induction os) (auto simp: kvs_byz_op_def split: if_split_asm)

lemma fold_concat_map: "fold (\<lambda>x. fold f (g x)) xs s = fold f (concat (map g xs)) s"
  by (induction xs arbitrary: s) simp_all

lemma byz_block_no_writes:
  assumes "byz_writes b = []" shows "kvs_byz_block b s = s\<lparr>kv_last_bci := cb_n b\<rparr>"
  unfolding kvs_byz_block_def fold_concat_map by (rule fold_byz_op_none) (use assms in \<open>simp only: byz_writes_def\<close>)

lemma fold_byz_blocks_no_writes:
  "\<forall>b \<in> set bs. byz_writes b = [] \<Longrightarrow>
     \<exists>n. fold kvs_byz_block bs s = s\<lparr>kv_last_bci := n\<rparr>"
proof (induction bs arbitrary: s)
  case Nil
  then show ?case by (intro exI [of _ "kv_last_bci s"]) simp
next
  case (Cons b bs)
  then show ?case using byz_block_no_writes [of b s] Cons.IH [of "s\<lparr>kv_last_bci := cb_n b\<rparr>"] by auto
qed

section \<open>Counters\<close>

lemma i64_roundtrip [simp]: "i64_from_be (i64_to_be w) = Some w"
proof -
  have "unat w < 256 ^ 8" using unsigned_less [of w] by simp
  then show ?thesis by (simp add: i64_from_be_def i64_to_be_def from_be_to_be)
qed

lemma length_i64_to_be [simp]: "length (i64_to_be w) = 8"
  by (simp add: i64_to_be_def)


section \<open>Properties\<close>

text \<open>
  C27: A rollback undoes a crash commit. If the store only holds versions of blocks up to \<open>N\<close> and
  then executes any blocks with higher numbers, rolling back to \<open>N\<close> restores both the versions
  and the committed state exactly, whatever the transactions did.
\<close>

theorem kvs_rollback_undoes_commit:
  assumes "versions_ok N s" and "\<forall>b \<in> set bs. N < cb_n b" and "kvs_crash_commit s bs = Inr (t, rs)"
  shows "kvs_rollback t N = s\<lparr>kv_last_ci := kv_last_ci t\<rparr>"
  by (rule agrees_upto_rollback [OF agrees_upto_commit [OF assms(3) agrees_upto_refl [OF assms(1)] assms(2)] assms(1)])

definition demo_kv_tx :: "tx_op list \<Rightarrow> transaction" where
  "demo_kv_tx os = \<lparr>on_receive = None, on_crash_commit = Some \<lparr>ops = os\<rparr>, on_byzantine_commit = None,
     is_reconfiguration = False, is_2pc = False\<rparr>"

definition demo_kv_block :: "u64 \<Rightarrow> tx_op list \<Rightarrow> cached_block" where
  "demo_kv_block n os = \<lparr>cb_block = \<lparr>tx_list = [demo_kv_tx os], blk_n = n, blk_parent = [], blk_view = 1, blk_qc = [],
     blk_fork_validation = [], blk_view_is_stable = True, blk_config_num = 1, blk_sig = None\<rparr>,
     cb_ser = [], cb_hash = [of_nat n]\<rparr>"

definition demo_write :: "bytes \<Rightarrow> bytes \<Rightarrow> tx_op" where
  "demo_write key val = \<lparr>op_type = op_type_number WRITE, operands = [key, val]\<rparr>"

definition demo_incr :: "bytes \<Rightarrow> tx_op" where
  "demo_incr key = \<lparr>op_type = op_type_number INCREMENT, operands = [key]\<rparr>"

lemmas demo_kv_defs = demo_kv_block_def demo_kv_tx_def demo_write_def demo_incr_def op_type_from_i32_def
  all_op_types_def kvs_crash_commit_def kvs_crash_block_def kvs_crash_tx_def kvs_crash_op_def Let_def

lemma kvs_new_ok: "versions_ok N kvs_new"
  by (simp add: versions_ok_def versions_def kvs_new_def)

theorem kvs_rollback_undoes_commit_witness:
  "\<exists>t rs. kvs_crash_commit kvs_new [demo_kv_block 1 [demo_write [1] [2]]] = Inr (t, rs)
     \<and> kvs_lookup t [1] = Some [2] \<and> kv_ci_state (kvs_rollback t 0) = Map.empty"
proof -
  obtain t rs where t: "kvs_crash_commit kvs_new [demo_kv_block 1 [demo_write [1] [2]]] = Inr (t, rs)"
    and "kvs_lookup t [1] = Some [2]"
    by (simp add: demo_kv_defs kvs_lookup_write)
  moreover have "\<forall>b \<in> set [demo_kv_block 1 [demo_write [1] [2]]]. 0 < cb_n b" by (simp add: demo_kv_block_def)
  from kvs_rollback_undoes_commit [OF kvs_new_ok this t] have "kv_ci_state (kvs_rollback t 0) = Map.empty"
    by (simp add: kvs_new_def)
  ultimately show ?thesis by blast
qed



text \<open>
  C36: Counters are 64 bit two's complement numbers that wrap around. If a key holds the counter
  \<open>c\<close>, then an increment by \<open>v\<close> stores and returns \<open>c + v\<close>; the counter that is read back has
  the signed value of the sum reduced to 64 bits.
\<close>

theorem kvs_increment_wraps:
  assumes "versions_ok n s" and "kvs_lookup s key = Some (i64_to_be c)"
  shows "\<exists>t. kvs_increment n [key, i64_to_be v] s = Inr (t, [\<lparr>or_success = True, or_values = [i64_to_be (c + v)]\<rparr>])
     \<and> kvs_lookup t = (kvs_lookup s)(key \<mapsto> i64_to_be (c + v))
     \<and> i64_from_be (i64_to_be (c + v)) = Some (c + v)
     \<and> sint (c + v) = signed_take_bit 63 (sint c + sint v)"
  using assms(2) by (simp add: kvs_increment_def kvs_read_lookup [OF assms(1)] kvs_lookup_write sint_word_ariths
      Let_def)

theorem kvs_increment_wraps_witness:
  "\<exists>t. kvs_increment 2 [[1], i64_to_be 1] (kvs_write 1 [1] (i64_to_be (2 ^ 63 - 1)) kvs_new) =
       Inr (t, [\<lparr>or_success = True, or_values = [i64_to_be (2 ^ 63)]\<rparr>]) \<and> sint (2 ^ 63 :: 64 word) = - (2 ^ 63)"
proof -
  let ?s = "kvs_write 1 [1] (i64_to_be (2 ^ 63 - 1)) kvs_new"
  have ok: "versions_ok 2 ?s" by (rule versions_ok_mono [OF versions_ok_write [OF kvs_new_ok]]) simp
  have "kvs_lookup ?s [1] = Some (i64_to_be (2 ^ 63 - 1))" by (simp add: kvs_lookup_write)
  from kvs_increment_wraps [OF ok this, of 1] show ?thesis by auto
qed

text \<open>
  A client can stop every replica. A transaction that writes a value that is not 8 bytes long
  and then increments the same key makes the engine panic when its block is crash committed:
  the increment decodes the stored value with an \<open>unwrap\<close>.
\<close>

theorem kvs_increment_panics:
  assumes "versions_ok N s" and "N \<le> n" and "length val \<noteq> 8"
  shows "kvs_crash_commit s [demo_kv_block n [demo_write key val, demo_incr key]] = Inl Unwrap_None"
proof -
  let ?s = "s\<lparr>kv_last_ci := n\<rparr>"
  have "versions_ok n ?s" using versions_ok_mono [OF assms(1,2)] by simp
  from kvs_read_lookup [OF versions_ok_write [OF this]]
  have "kvs_read (kvs_write n key val ?s) key = Inr (Some val)" by (simp add: kvs_lookup_write)
  with assms(3) show ?thesis by (simp add: demo_kv_defs kvs_increment_def i64_from_be_def)
qed

theorem kvs_increment_panics_witness:
  "kvs_crash_commit kvs_new [demo_kv_block 1 [demo_write [1] [2], demo_incr [1]]] = Inl Unwrap_None"
  by (rule kvs_increment_panics [OF kvs_new_ok, of 0]) simp_all

text \<open>
  The increment of a three operand \<open>INCREMENT\<close> is ignored: the documented form is key,
  increment, check value, but with a check value present the counter is always raised by one.
\<close>

theorem kvs_increment_ignores_amount:
  "kvs_increment n [key, v, check] s = kvs_increment n [key, w, check] s"
  by (simp add: kvs_increment_def)

end
