(* ===== verification/AppProps.thy ===== *)
theory AppProps
  imports Kvs StagingProps
begin

text \<open>
  The application component on its engines: every committed transaction is acknowledged, the
  component follows the commits of staging exactly, and what a rollback keeps.
\<close>

section \<open>Acknowledgements\<close>

lemma alist_update_snoc: "k \<notin> fst ` set m \<Longrightarrow> AList.update k v m = m @ [(k, v)]"
  by (induction m) auto

lemma collect_map_acc:
  "distinct (map fst (m @ kvs)) \<Longrightarrow> foldl (\<lambda>m (k, v). AList.update k v m) m kvs = m @ kvs"
proof (induction kvs arbitrary: m)
  case (Cons kv kvs)
  obtain k v where kv: "kv = (k, v)" by (cases kv)
  have "AList.update k v m = m @ [(k, v)]" using Cons.prems kv by (intro alist_update_snoc) auto
  with Cons.IH [of "m @ [(k, v)]"] Cons.prems kv show ?case by simp
qed simp

lemma collect_map_distinct: "distinct (map fst kvs) \<Longrightarrow> collect_map kvs = kvs"
  using collect_map_acc [of "[]" kvs] by (simp add: collect_map_def)

section \<open>Following staging\<close>

fun byz_blocks :: "app_command \<Rightarrow> cached_block list" where
  "byz_blocks (ByzCommit bs) = bs"
| "byz_blocks _ = []"

definition app_commands :: "staging_out list \<Rightarrow> app_command list" where
  "app_commands os = concat (map (\<lambda>x. case x of ToApp c \<Rightarrow> [c] | _ \<Rightarrow> []) os)"

lemma app_commands_delivered: "concat (map byz_blocks (app_commands (sg_out s))) = delivered s"
proof -
  have "concat (map byz_blocks (app_commands os)) = concat (map byz_of os)" for os
  proof (induction os)
    case (Cons x os)
    then show ?case by (cases x rule: byz_of.cases) (simp_all add: app_commands_def)
  qed (simp add: app_commands_def)
  then show ?thesis by (simp add: delivered_def)
qed

lemma foldl_max_eq: "foldl (\<lambda>m b. if m < f b then f b else m) (k :: nat) bs = foldl max k (map f bs)"
  by (induction bs arbitrary: k) (auto simp: max_def)

lemma foldl_max_upt: "foldl max 0 [Suc 0..<Suc n] = n"
  by (induction n) auto

definition tx_count :: "cached_block list \<Rightarrow> nat" where
  "tx_count bs = sum_list (map (length \<circ> tx_list \<circ> cb_block) bs)"

lemma tx_count_append [simp]: "tx_count (bs @ cs) = tx_count bs + tx_count cs"
  by (simp add: tx_count_def)

context engine_laws
begin

lemma byz_step:
  assumes "handle_staging_command E c a = Inr a'"
  shows "ls_bci (ap_stats a') = foldl max (ls_bci (ap_stats a)) (map cb_n (byz_blocks c))"
    and "ls_total_byz_committed_txs (ap_stats a') = ls_total_byz_committed_txs (ap_stats a) + tx_count (byz_blocks c)"
proof -
  have "ls_bci (ap_stats a') = foldl max (ls_bci (ap_stats a)) (map cb_n (byz_blocks c))
     \<and> ls_total_byz_committed_txs (ap_stats a') = ls_total_byz_committed_txs (ap_stats a) + tx_count (byz_blocks c)"
  proof (cases c)
    case (ByzCommit bs)
    with assms byz_per_tx [of "ap_engine a" bs] show ?thesis
      by (auto simp: app_byz_commit_def Let_def app_emit_def foldl_max_eq tx_count_def elim!: bindE_InrE split: prod.split_asm)
  qed (use assms in \<open>auto simp: app_new_request_batch_def app_crash_commit_def app_rollback_def app_emit_def
      Let_def tx_count_def elim!: bindE_InrE\<close>)
  then show "ls_bci (ap_stats a') = foldl max (ls_bci (ap_stats a)) (map cb_n (byz_blocks c))"
    and "ls_total_byz_committed_txs (ap_stats a') = ls_total_byz_committed_txs (ap_stats a) + tx_count (byz_blocks c)"
    by simp_all
qed

lemma byz_tracking:
  assumes "foldE (handle_staging_command E) cs a = Inr a'"
  shows "ls_bci (ap_stats a') = foldl max (ls_bci (ap_stats a)) (map cb_n (concat (map byz_blocks cs)))
     \<and> ls_total_byz_committed_txs (ap_stats a') =
         ls_total_byz_committed_txs (ap_stats a) + tx_count (concat (map byz_blocks cs))"
  using assms
proof (induction cs arbitrary: a)
  case (Cons c cs)
  then obtain b where b: "handle_staging_command E c a = Inr b" and "foldE (handle_staging_command E) cs b = Inr a'"
    by (auto elim!: bindE_InrE)
  from Cons.IH [OF this(2)] byz_step [OF b] show ?case by simp
qed (simp add: tx_count_def)

end

section \<open>Properties\<close>

text \<open>
  Staging and the application agree. If the key-value store application has executed all
  commands that staging sent it in a run, then its byzantine commit index is staging's, and it
  has counted every transaction of the committed blocks exactly once, although the commands
  also roll back and crash commit blocks.
\<close>

theorem app_follows_staging:
  assumes "staging_run e (staging_new (env_ft e)) s" and "\<not> ft_no_qc (env_ft e)"
    and "foldE (handle_staging_command kvs_engine) (app_commands (sg_out s)) (application_new ft kvs_new) = Inr a"
  shows "ls_bci (ap_stats a) = sg_bci s \<and> ls_total_byz_committed_txs (ap_stats a) = tx_count (delivered s)"
proof -
  have "staging_inv s" by (rule staging_run_inv [OF assms(1) staging_inv_new assms(2)])
  then have "map cb_n (delivered s) = [1..<Suc (sg_bci s)]" by (rule staging_inv_delivered(2))
  with kvs.byz_tracking [OF assms(3)] show ?thesis
    by (simp add: app_commands_delivered application_new_def log_stats_new_def foldl_max_upt del: upt_Suc)
qed

theorem app_follows_staging_witness:
  "\<exists>a. foldE (handle_staging_command kvs_engine) (app_commands (sg_out demo_s2)) (application_new pirateship kvs_new) = Inr a
     \<and> ls_bci (ap_stats a) = 1"
proof -
  have cmds: "app_commands (sg_out demo_s2) = [Rollback 0, Rollback 1, ByzCommit [demo_b1]]"
    by (simp add: app_commands_def demo_s2_def demo_s1_def)
  obtain a where a: "foldE (handle_staging_command kvs_engine) (app_commands (sg_out demo_s2))
      (application_new pirateship kvs_new) = Inr a"
    using kvs.byz_commit_total [of "[demo_b1]"
        "app_rollback kvs_engine 1 (app_rollback kvs_engine 0 (application_new pirateship kvs_new))"]
    unfolding cmds by auto
  have "staging_run (demo_env ''node2'') (staging_new pirateship) demo_s2"
    by (rule run_step [OF demo_run(1) demo_admissible(2) demo_worker(2)])
  with app_follows_staging [of "demo_env ''node2''" demo_s2, OF _ _ a] demo_results(3) a show ?thesis by simp
qed

text \<open>
  C32: Every crash committed transaction is acknowledged. When the key-value store executes a
  batch of blocks with distinct hashes, the client reply handler gets one entry per block, under
  the block's hash and with the block's number, that holds one result per transaction, in order.
\<close>

theorem crash_commit_acknowledges:
  assumes "app_crash_commit kvs_engine bs a = Inr a'" and "distinct (map cb_hash bs)"
  shows "\<exists>rs. map length rs = map (length \<circ> tx_list \<circ> cb_block) bs
     \<and> ap_out a' = ap_out a @ [AppReply (CrashCommitAck (zip (map cb_hash bs) (zip (map cb_n bs) rs)))]"
proof (rule kvs.crash_commit_acks [OF assms(1)])
  fix rs assume rs: "eng_crash_commit kvs_engine (ap_engine a) bs = Inr (ap_engine a', rs)" "length rs = length bs"
    "ap_out a' = ap_out a @ [AppReply (CrashCommitAck (collect_map (zip (map cb_hash bs) (zip (map cb_n bs) rs))))]"
  have "collect_map (zip (map cb_hash bs) (zip (map cb_n bs) rs)) = zip (map cb_hash bs) (zip (map cb_n bs) rs)"
    using assms(2) rs(2) by (intro collect_map_distinct) simp
  with rs(3) kvs.crash_per_tx [OF rs(1)] show ?thesis by auto
qed

theorem crash_commit_acknowledges_witness:
  "\<exists>a' rs. app_crash_commit kvs_engine [demo_kv_block 1 [demo_write [1] [2]]] (application_new pirateship kvs_new) = Inr a'
     \<and> ap_out a' = [AppReply (CrashCommitAck (zip [[1]] (zip [1] rs)))] \<and> map length rs = [1]"
proof -
  let ?bs = "[demo_kv_block 1 [demo_write [1] [2]]]" and ?a = "application_new pirateship kvs_new"
  obtain a' where a': "app_crash_commit kvs_engine ?bs ?a = Inr a'"
    by (simp add: app_crash_commit_def kvs_engine_def application_new_def demo_kv_defs)
  have "cb_hash (demo_kv_block 1 os) = [1]" "cb_n (demo_kv_block 1 os) = 1"
    "length (tx_list (cb_block (demo_kv_block 1 os))) = 1" for os by (simp_all add: demo_kv_block_def)
  with crash_commit_acknowledges [OF a'] a' show ?thesis by (auto simp: application_new_def)
qed

text \<open>
A rollback to a block at or below the byzantine commit index does not reach that far: the
  application rolls its store back to \<open>bci + 1\<close>, so the writes of block \<open>bci + 1\<close>, which staging
  has abandoned, stay in the store and its commit index may stay on that block.
\<close>

theorem app_rollback_keeps_abandoned_block:
  assumes "n \<le> ls_bci (ap_stats a)" and "(ls_bci (ap_stats a) + 1, val) \<in> set (versions (ap_engine a) key)"
  shows "(ls_bci (ap_stats a) + 1, val) \<in> set (versions (ap_engine (app_rollback kvs_engine n a)) key)
     \<and> ls_last_n (ap_stats (app_rollback kvs_engine n a)) = ls_bci (ap_stats a) + 1"
proof -
  let ?k = "ls_bci (ap_stats a) + 1"
  have "versions (kvs_rollback s m) key = filter (\<lambda>(pos, _). pos \<le> m) (versions s key)" for s m
    by (auto simp: kvs_rollback_def versions_def Let_def split: option.split)
  with assms show ?thesis by (simp add: app_rollback_def kvs_engine_def Let_def)
qed

theorem app_rollback_keeps_abandoned_block_witness:
  "\<exists>a. ls_bci (ap_stats a) = 0 \<and> (1, [2]) \<in> set (versions (ap_engine (app_rollback kvs_engine 0 a)) [1])"
proof -
  let ?a = "(application_new pirateship kvs_new)\<lparr>ap_engine := kvs_write 1 [1] [2] kvs_new\<rparr>"
  have "ls_bci (ap_stats ?a) = 0" by (simp add: application_new_def log_stats_new_def)
  with app_rollback_keeps_abandoned_block [of 0 ?a "[2]" "[1]"] show ?thesis by (intro exI [of _ ?a]) simp
qed

end
