(* ===== verification/ClientPath.thy ===== *)
theory ClientPath
  imports BatchProposer Sequencer AppProps ClientReply
begin

text \<open>
  The path of a client request through a leading node: the batch proposer collects it, the
  block sequencer puts the batch into a block and hands the reply channels to the reply
  handler, the application executes the block when it is crash committed, and the reply
  handler sends every client its result.
\<close>

fun receipts :: "reply_processor_command list \<Rightarrow> (u64 \<times> nat \<times> bytes \<times> tx_result \<times> msg_ack_chan) list" where
  "receipts [] = []"
| "receipts (RP_CrashCommit n i h r chan _ # cs) = (n, i, h, r, chan) # receipts cs"
| "receipts (_ # cs) = receipts cs"

lemma receipts_append: "receipts (xs @ ys) = receipts xs @ receipts ys"
  by (induction xs rule: receipts.induct) auto

lemma crash_replies_receipts:
  "receipts (cp_reply_processor_queue (crash_replies h n k ps s))
     = receipts (cp_reply_processor_queue s)
       @ map (\<lambda>i. (n, k + i, h, snd (ps ! i), fst (ps ! i))) [0..<length ps]"
proof (induction h n k ps s rule: crash_replies.induct)
  case (2 h n k chan tag sender reply rest s)
  have "receipts (cp_reply_processor_queue (cp_enqueue (RP_CrashCommit n k h reply (chan, tag, sender) br) t))
      = receipts (cp_reply_processor_queue t) @ [(n, k, h, reply, (chan, tag, sender))]" for br t
    by (simp add: cp_enqueue_def receipts_append)
  with 2 show ?case
    by (simp add: remove_responses_def map_upt_Suc del: upt_Suc)
qed simp

lemma registered_then_committed:
  assumes "\<not> cp_must_cancel s" and "h \<noteq> []" and "length vec = length rs"
    and "h \<notin> fst ` set (cp_reply_map s)" and "h \<notin> fst ` set (cp_byz_commit_reply_buf s)"
    and "h \<notin> fst ` set (cp_crash_commit_reply_buf s)"
  shows "\<exists>s'. client_reply_run cfg [CP_Batch (Some (Some h, vec)),
            CP_Command (Some (CrashCommitAck [(h, (n, rs))]))] s = Inr s'
      \<and> receipts (cp_reply_processor_queue s') = receipts (cp_reply_processor_queue s)
          @ map (\<lambda>i. (n, i, h, rs ! i, vec ! i)) [0..<length vec]"
proof -
  have none: "map_of (cp_reply_map s) h = None" "map_of (cp_byz_commit_reply_buf s) h = None"
    "map_of (cp_crash_commit_reply_buf s) h = None"
    using assms(4-6) by (simp_all add: map_of_eq_None_iff)
  have del: "AList.delete h (AList.update h vec (cp_reply_map s)) = cp_reply_map s"
    using assms(4) by (simp add: delete_update_same)
  let ?t = "s\<lparr>cp_byz_reply_map := AList.update h
      (map (\<lambda>(_, client_tag, sender). (client_tag, sender)) vec) (cp_byz_reply_map s)\<rparr>"
  have "client_reply_run cfg [CP_Batch (Some (Some h, vec)),
      CP_Command (Some (CrashCommitAck [(h, (n, rs))]))] s = Inr (crash_replies h n 0 (zip vec rs) ?t)"
    using assms(1-3) none del
    by (simp add: client_reply_run_def register_batch_def maybe_clear_reply_buf_def crash_ack_def
        do_crash_commit_reply_def Let_def)
  moreover have "map (\<lambda>i. (n, 0 + i, h, snd (zip vec rs ! i), fst (zip vec rs ! i))) [0..<length (zip vec rs)]
      = map (\<lambda>i. (n, i, h, rs ! i, vec ! i)) [0..<length vec]"
    using assms(3) by simp
  ultimately show ?thesis
    using crash_replies_receipts [of h n 0 "zip vec rs" ?t] by simp
qed

lemma batch_lengths:
  assumes "batch_proposer_new ft cfg t0 = Inr p0" and "\<forall>(now, ev) \<in> set evs. bp_event_ok ev"
    and "batch_proposer_run cfg evs p0 = Inr p" and "(txs, chans) \<in> set (batches (bp_out p))"
  shows "length txs = length chans"
proof -
  have "bp_inv cfg p0"
    using assms(1) by (auto simp: batch_proposer_new_def bp_inv_def batch_limit_def Let_def
        elim!: bindE_InrE split: if_split_asm)
  from batch_proposer_run_ok [OF this assms(2)] assms(3,4) show ?thesis by (auto simp: bp_inv_def)
qed

section \<open>Properties\<close>


lemma demo_bp_batch:
  "\<exists>p0 p. batch_proposer_new pirateship batch_cfg 0 = Inr p0
     \<and> batch_proposer_run batch_cfg demo_bp_events p0 = Inr p
     \<and> ([plain_tx False, plain_tx True], [(0, 7, Anon), (1, 8, Anon)]) \<in> set (batches (bp_out p))"
  by (simp add: batch_proposer_new_def pirateship_def batch_cfg_def demo_bp_events_def batch_proposer_run_def
      handle_new_tx_def filter_unlogged_request_def bp_i_am_leader_def maybe_propose_def propose_new_batch_def
      plain_tx_def bp_emit_def Let_def)

lemma demo_new_batch:
  obtains q' n cb where
    "handle_new_batch (demo_lib (demo_block 1 1 [])) pirateship batch_cfg txs chans [] demo_seq = Inr q'"
    and "last (sq_block_broadcaster q') = (n, cb)" and "last (sq_client_reply q') = (cb_hash cb, chans)"
    and "tx_list (cb_block cb) = txs" and "cb_hash cb \<noteq> []"
proof -
  obtain q' where q: "handle_new_batch (demo_lib (demo_block 1 1 [])) pirateship batch_cfg txs chans [] demo_seq
      = Inr q'" "parent_ready q'"
    using handle_new_batch_total [OF _ demo_seq_ready demo_lib_lengths, of batch_cfg]
    by (force simp: batch_cfg_def)
  from q(1) show thesis
  proof (rule handle_new_batch_block, goal_cases)
    case (1 ms cb parent)
    have "sq_parent_hash_rx q' = FH_Future (cb_hash cb)" by (subst 1(13)) simp
    with q(2) have "cb_hash cb \<noteq> []" by (auto simp: parent_ready_def await_future_hash_def lengths)
    with 1(2,3,10) show ?case by (intro that [OF q(1)]) simp_all
  qed
qed

lemma demo_app_commit:
  assumes "tx_list (cb_block cb) = [plain_tx False, plain_tx True]"
  shows "\<exists>a'. app_crash_commit kvs_engine [cb] (application_new pirateship kvs_new) = Inr a'"
  using assms by (simp add: app_crash_commit_def kvs_engine_def kvs_crash_commit_def kvs_crash_block_def
      kvs_crash_tx_def plain_tx_def application_new_def Let_def)


end
