(* ===== verification/Node.thy ===== *)
theory Node
  imports Rpc Pacemaker Replication ClientPath
begin

text \<open>
  The consensus node (\<open>src/consensus/mod.rs\<close>): its nine components, the channels that
  \<open>ConsensusNode::mew\<close> creates between them, and the dispatch of network messages in
  \<open>handle_rpc\<close>. A channel is the list of its messages in order. One turn of the node is one
  turn of one component's worker; which component moves next, and which arm of its
  \<open>select!\<close> is taken, is the \<open>node_event\<close>. The capacity of the channels is not modelled: a
  component never has to wait before it sends. Questions to the log server and to the pacemaker
  are answered at some later moment; the event carries the answers. The model is that of
  builds without \<open>extra_2pc\<close>.
\<close>

section \<open>Definitions\<close>

subsection \<open>State\<close>

datatype net_message =
    Net_Broadcast_AE "string list" append_entries nat
  | Net_Broadcast_VC "string list" view_change nat
  | Net_Vote string vote
  | Net_AE string append_entries
  | Net_VC string view_change
  | Net_Nack string backfill_nack

record ('d, 'e) node =
  nd_batch_proposer :: batch_proposer
  nd_block_sequencer :: sequencer
  nd_block_broadcaster :: "'d broadcaster"
  nd_staging :: staging
  nd_fork_receiver :: fork_receiver
  nd_app :: "'e application"
  nd_client_reply :: client_reply
  nd_logserver :: log_server
  nd_pacemaker :: pacemaker
  batch_proposer_rx :: "tx_with_ack_chan_tag list"
  batch_proposer_command_rx :: "(bool \<times> string) list"
  block_maker_rx :: "(transaction list \<times> msg_ack_chan list) list"
  control_command_rx :: "sequencer_command list"
  qc_rx :: "quorum_certificate list"
  block_broadcaster_rx :: "(u64 \<times> cached_block) list"
  other_block_rx :: "multipart_fork list"
  client_reply_rx :: "(bytes \<times> msg_ack_chan list) list"
  client_reply_command_rx :: "client_reply_command list"
  broadcaster_control_command_rx :: "broadcaster_command list"
  staging_rx :: "(cached_block \<times> storage_ack \<times> ae_stats \<times> bool) list"
  logserver_rx :: "logserver_command list"
  vote_rx :: "(sender_type \<times> vote) list"
  view_change_rx :: "(view_change \<times> sender_type) list"
  pacemaker_cmd_rx :: "pacemaker_command list"
  pacemaker_cmd_rx2 :: "pacemaker_command list"
  app_rx :: "app_command list"
  fork_receiver_command_rx :: "fork_receiver_command list"
  fork_rx :: "(append_entries \<times> sender_type) list"
  unlogged_rx :: "(transaction \<times> nat) list"
  backfill_request_rx :: "backfill_nack list"
  gc_rx :: "u64 list"
  net_out :: "net_message list"
  reply_out :: "(msg_ack_chan \<times> client_reply_msg) list"

definition node_new :: "features \<Rightarrow> config \<Rightarrow> u64 \<Rightarrow> 'd \<Rightarrow> 'e \<Rightarrow> ('d, 'e) node result" where
  "node_new ft cfg now db engine =
     bindE (batch_proposer_new ft cfg now) (\<lambda>bp.
     bindE log_server_new (\<lambda>ls.
       Inr \<lparr>nd_batch_proposer = bp, nd_block_sequencer = sequencer_new ft,
         nd_block_broadcaster = broadcaster_new db, nd_staging = staging_new ft,
         nd_fork_receiver = fork_receiver_new ft, nd_app = application_new ft engine,
         nd_client_reply = client_reply_new, nd_logserver = ls, nd_pacemaker = pacemaker_new,
         batch_proposer_rx = [], batch_proposer_command_rx = [], block_maker_rx = [],
         control_command_rx = [], qc_rx = [], block_broadcaster_rx = [], other_block_rx = [],
         client_reply_rx = [], client_reply_command_rx = [], broadcaster_control_command_rx = [],
         staging_rx = [], logserver_rx = [], vote_rx = [], view_change_rx = [], pacemaker_cmd_rx = [],
         pacemaker_cmd_rx2 = [], app_rx = [], fork_receiver_command_rx = [], fork_rx = [],
         unlogged_rx = [], backfill_request_rx = [], gc_rx = [], net_out = [], reply_out = []\<rparr>))"

subsection \<open>Where the messages of a component go\<close>

fun route_batch_proposer :: "batch_proposer_out \<Rightarrow> ('d, 'e) node \<Rightarrow> ('d, 'e) node" where
  "route_batch_proposer (BP_ToBlockMaker txs chans) n = n\<lparr>block_maker_rx := block_maker_rx n @ [(txs, chans)]\<rparr>"
| "route_batch_proposer (BP_ToUnlogged tx chan) n = n\<lparr>unlogged_rx := unlogged_rx n @ [(tx, chan)]\<rparr>"
| "route_batch_proposer (BP_ToReplyHandler c) n = n\<lparr>client_reply_command_rx := client_reply_command_rx n @ [c]\<rparr>"
| "route_batch_proposer (BP_Reply chan m) n = n\<lparr>reply_out := reply_out n @ [(chan, m)]\<rparr>"

fun route_broadcaster :: "broadcaster_out \<Rightarrow> ('d, 'e) node \<Rightarrow> ('d, 'e) node" where
  "route_broadcaster (BB_ToStaging b ack ae final) n = n\<lparr>staging_rx := staging_rx n @ [(b, ack, ae, final)]\<rparr>"
| "route_broadcaster (BB_ToForkReceiver c) n = n\<lparr>fork_receiver_command_rx := fork_receiver_command_rx n @ [c]\<rparr>"
| "route_broadcaster (BB_ToApp c) n = n\<lparr>app_rx := app_rx n @ [c]\<rparr>"
| "route_broadcaster (BB_Broadcast names ae k) n = n\<lparr>net_out := net_out n @ [Net_Broadcast_AE names ae k]\<rparr>"

fun route_staging :: "staging_out \<Rightarrow> ('d, 'e) node \<Rightarrow> ('d, 'e) node" where
  "route_staging (ToSequencer c) n = n\<lparr>control_command_rx := control_command_rx n @ [c]\<rparr>"
| "route_staging (ToBatchProposer make_batches leader) n =
     n\<lparr>batch_proposer_command_rx := batch_proposer_command_rx n @ [(make_batches, leader)]\<rparr>"
| "route_staging (ToClientReply c) n = n\<lparr>client_reply_command_rx := client_reply_command_rx n @ [c]\<rparr>"
| "route_staging (ToForkReceiver c) n = n\<lparr>fork_receiver_command_rx := fork_receiver_command_rx n @ [c]\<rparr>"
| "route_staging (ToPacemaker c) n = n\<lparr>pacemaker_cmd_rx2 := pacemaker_cmd_rx2 n @ [c]\<rparr>"
| "route_staging (ToApp c) n = n\<lparr>app_rx := app_rx n @ [c]\<rparr>"
| "route_staging (ToBroadcaster c) n = n\<lparr>broadcaster_control_command_rx := broadcaster_control_command_rx n @ [c]\<rparr>"
| "route_staging (ToLogServer c) n = n\<lparr>logserver_rx := logserver_rx n @ [c]\<rparr>"
| "route_staging (QcTx qc) n = n\<lparr>qc_rx := qc_rx n @ [qc]\<rparr>"
| "route_staging (SendVote name v) n = n\<lparr>net_out := net_out n @ [Net_Vote name v]\<rparr>"
| "route_staging (BroadcastVC names vc k) n = n\<lparr>net_out := net_out n @ [Net_Broadcast_VC names vc k]\<rparr>"
| "route_staging _ n = n"

fun route_fork_receiver :: "fork_receiver_out \<Rightarrow> ('d, 'e) node \<Rightarrow> ('d, 'e) node" where
  "route_fork_receiver (FR_ToBroadcaster mf) n = n\<lparr>other_block_rx := other_block_rx n @ [mf]\<rparr>"
| "route_fork_receiver (FR_SendNack name nack) n = n\<lparr>net_out := net_out n @ [Net_Nack name nack]\<rparr>"

fun route_app :: "app_out \<Rightarrow> ('d, 'e) node \<Rightarrow> ('d, 'e) node" where
  "route_app (AppReply c) n = n\<lparr>client_reply_command_rx := client_reply_command_rx n @ [c]\<rparr>"
| "route_app (AppGc g) n = n\<lparr>gc_rx := gc_rx n @ [g]\<rparr>"
| "route_app _ n = n"

fun route_logserver :: "log_server_out \<Rightarrow> ('d, 'e) node \<Rightarrow> ('d, 'e) node" where
  "route_logserver (LS_SendAE name ae) n = n\<lparr>net_out := net_out n @ [Net_AE name ae]\<rparr>"
| "route_logserver (LS_SendVC name vc) n = n\<lparr>net_out := net_out n @ [Net_VC name vc]\<rparr>"
| "route_logserver _ n = n"

fun route_pacemaker :: "pacemaker_out \<Rightarrow> ('d, 'e) node \<Rightarrow> ('d, 'e) node" where
  "route_pacemaker (PM_ToStaging c) n = n\<lparr>pacemaker_cmd_rx := pacemaker_cmd_rx n @ [c]\<rparr>"
| "route_pacemaker (PM_SendNack name nack) n = n\<lparr>net_out := net_out n @ [Net_Nack name nack]\<rparr>"
| "route_pacemaker _ n = n"

subsection \<open>Network messages\<close>

datatype payload =
    P_ViewChange view_change
  | P_AppendEntries append_entries
  | P_Vote vote
  | P_ClientRequest client_request
  | P_BackfillRequest
  | P_BackfillResponse
  | P_BackfillNack backfill_nack

datatype resp_type = Resp | NoResp

fun dispatch :: "sender_type \<Rightarrow> nat \<Rightarrow> payload \<Rightarrow> ('d, 'e) node \<Rightarrow> ('d, 'e) node \<times> resp_type" where
  "dispatch sender ack_chan (P_ViewChange vc) n =
     (n\<lparr>view_change_rx := view_change_rx n @ [(vc, sender)]\<rparr>, NoResp)"
| "dispatch sender ack_chan (P_AppendEntries ae) n =
     (if ae_is_backfill_response ae
      then n\<lparr>fork_receiver_command_rx := fork_receiver_command_rx n @ [UseBackfillResponse ae sender]\<rparr>
      else n\<lparr>fork_rx := fork_rx n @ [(ae, sender)]\<rparr>, NoResp)"
| "dispatch sender ack_chan (P_Vote v) n = (n\<lparr>vote_rx := vote_rx n @ [(sender, v)]\<rparr>, NoResp)"
| "dispatch sender ack_chan (P_ClientRequest r) n =
     (n\<lparr>batch_proposer_rx := batch_proposer_rx n @ [(cr_tx r, (ack_chan, cr_client_tag r, sender))]\<rparr>, Resp)"
| "dispatch sender ack_chan P_BackfillRequest n = (n, NoResp)"
| "dispatch sender ack_chan P_BackfillResponse n = (n, NoResp)"
| "dispatch sender ack_chan (P_BackfillNack nack) n =
     (n\<lparr>backfill_request_rx := backfill_request_rx n @ [nack]\<rparr>, NoResp)"

text \<open>
  \<open>handle_rpc\<close>. The decoder of \<open>ProtoPayload\<close> is generated code: \<open>None\<close> is a parse error,
  \<open>Some None\<close> a payload without message. An error makes the server drop the connection.
\<close>

definition handle_rpc ::
  "(bytes \<Rightarrow> payload option option) \<Rightarrow> bytes \<Rightarrow> sender_type \<Rightarrow> nat \<Rightarrow> ('d, 'e) node
     \<Rightarrow> net_error + ('d, 'e) node \<times> resp_type" where
  "handle_rpc decode m sender ack_chan n =
     (case sender of
        Anon \<Rightarrow> Inl Unauthenticated
      | Auth _ _ \<Rightarrow>
          (case decode m of
             None \<Rightarrow> Inl Bad_Protobuf
           | Some None \<Rightarrow> Inr (n, NoResp)
           | Some (Some msg) \<Rightarrow> Inr (dispatch sender ack_chan msg n)))"

text \<open>
  The first \<open>k\<close> turns of the reading loop in \<open>handle_stream\<close>, and how it stands after them: the
  loop goes on, waits for the peer, has returned a read error, or has dropped the connection
  after an error of \<open>handle_rpc\<close>. The task that writes the responses is not modelled.
\<close>

datatype stream_state = Stream_Open | Stream_Waiting | Stream_Failed net_error | Stream_Dropped

fun handle_stream ::
  "(bytes \<Rightarrow> payload option option) \<Rightarrow> sender_type \<Rightarrow> nat \<Rightarrow> nat \<Rightarrow> bytes \<Rightarrow> frame_reader \<Rightarrow> ('d, 'e) node
     \<Rightarrow> (('d, 'e) node \<times> stream_state) result" where
  "handle_stream decode sender ack_chan 0 read_buf rx n = Inr (n, Stream_Open)"
| "handle_stream decode sender ack_chan (Suc k) read_buf rx n =
     bindE (get_next_frame read_buf rx) (\<lambda>r.
       case r of
         IO_Pending \<Rightarrow> Inr (n, Stream_Waiting)
       | IO_Err e \<Rightarrow> Inr (n, Stream_Failed e)
       | IO_Done (sz, read_buf', rx') \<Rightarrow>
           (case handle_rpc decode (take sz read_buf') sender ack_chan n of
              Inl _ \<Rightarrow> Inr (n, Stream_Dropped)
            | Inr (n', _) \<Rightarrow> handle_stream decode sender ack_chan k read_buf' rx' n'))"

subsection \<open>Turns\<close>

datatype node_event =
    N_Rpc bytes sender_type nat
  | N_Bp_NewTx u64 | N_Bp_Command u64 | N_Bp_Tick u64
  | N_Sq_Qcs nat | N_Sq_Tick | N_Sq_Batch | N_Sq_Command
  | N_Bb_Mine | N_Bb_Other | N_Bb_Control
  | N_Sg_Tick bool | N_Sg_Block | N_Sg_Vote | N_Sg_Pacemaker
  | N_Fr_Fork log_port | N_Fr_Command log_port
  | N_Ap_Command | N_Ap_Unlogged | N_Ap_Checkpoint | N_Ap_Log
  | N_Cp_Batch | N_Cp_Command
  | N_Ls_Command | N_Ls_Gc | N_Ls_Backfill
  | N_Pm_ViewChange log_port | N_Pm_Command log_port

text \<open>
  \<open>recv\<close> on a channel: no turn if it is empty. \<open>finish\<close> stores the new state of the component
  and sends what its turn has added to its outbox.
\<close>

definition recv :: "'a list \<Rightarrow> ('a \<Rightarrow> 'a list \<Rightarrow> 'b) \<Rightarrow> 'b option" where
  "recv ch f = (case ch of [] \<Rightarrow> None | x # rest \<Rightarrow> Some (f x rest))"

definition finish :: "('s \<Rightarrow> 'o list) \<Rightarrow> ('o \<Rightarrow> 'n \<Rightarrow> 'n) \<Rightarrow> ('s \<Rightarrow> 'n \<Rightarrow> 'n) \<Rightarrow> 's \<Rightarrow> 's result \<Rightarrow> 'n \<Rightarrow> 'n result" where
  "finish out route put s r n = bindE r (\<lambda>s'. Inr (fold route (drop (length (out s)) (out s')) (put s' n)))"

abbreviation bp_turn :: "config \<Rightarrow> u64 \<Rightarrow> batch_proposer_event \<Rightarrow> ('d, 'e) node \<Rightarrow> ('d, 'e) node result" where
  "bp_turn cfg now ev n \<equiv> finish bp_out route_batch_proposer (\<lambda>s n. n\<lparr>nd_batch_proposer := s\<rparr>)
     (nd_batch_proposer n) (batch_proposer_worker cfg now ev (nd_batch_proposer n)) n"

abbreviation bb_turn :: "'k node_env \<Rightarrow> 'd rocks_lib \<Rightarrow> broadcaster_event \<Rightarrow> ('d, 'e) node \<Rightarrow> ('d, 'e) node result" where
  "bb_turn e rl ev n \<equiv> finish bb_out route_broadcaster (\<lambda>s n. n\<lparr>nd_block_broadcaster := s\<rparr>)
     (nd_block_broadcaster n) (broadcaster_worker e rl ev (nd_block_broadcaster n)) n"

abbreviation sg_turn :: "'k node_env \<Rightarrow> staging_event \<Rightarrow> ('d, 'e) node \<Rightarrow> ('d, 'e) node result" where
  "sg_turn e ev n \<equiv> finish sg_out route_staging (\<lambda>s n. n\<lparr>nd_staging := s\<rparr>)
     (nd_staging n) (staging_worker e ev (nd_staging n)) n"

abbreviation fr_turn :: "'k node_env \<Rightarrow> log_port \<Rightarrow> fork_receiver_event \<Rightarrow> ('d, 'e) node \<Rightarrow> ('d, 'e) node result" where
  "fr_turn e port ev n \<equiv> finish fr_out route_fork_receiver (\<lambda>s n. n\<lparr>nd_fork_receiver := s\<rparr>)
     (nd_fork_receiver n) (fork_receiver_worker e port ev (nd_fork_receiver n)) n"

abbreviation ap_turn :: "features \<Rightarrow> 'e engine \<Rightarrow> app_event \<Rightarrow> ('d, 'e) node \<Rightarrow> ('d, 'e) node result" where
  "ap_turn ft E ev n \<equiv> finish ap_out route_app (\<lambda>s n. n\<lparr>nd_app := s\<rparr>)
     (nd_app n) (application_worker ft E ev (nd_app n)) n"

abbreviation cp_turn :: "config \<Rightarrow> client_reply_event \<Rightarrow> ('d, 'e) node \<Rightarrow> ('d, 'e) node result" where
  "cp_turn cfg ev n \<equiv> finish cp_out (\<lambda>m n. n\<lparr>reply_out := reply_out n @ [m]\<rparr>) (\<lambda>s n. n\<lparr>nd_client_reply := s\<rparr>)
     (nd_client_reply n) (client_reply_worker cfg ev (nd_client_reply n)) n"

abbreviation ls_turn :: "'k node_env \<Rightarrow> 'd rocks_lib \<Rightarrow> log_server_event \<Rightarrow> ('d, 'e) node \<Rightarrow> ('d, 'e) node result" where
  "ls_turn e rl ev n \<equiv> finish ls_out route_logserver (\<lambda>s n. n\<lparr>nd_logserver := s\<rparr>) (nd_logserver n)
     (log_server_worker (storage_get_block (env_ft e) rl (env_lib e) (bb_db (nd_block_broadcaster n))) ev (nd_logserver n)) n"

abbreviation pm_turn :: "'k node_env \<Rightarrow> log_port \<Rightarrow> pacemaker_event \<Rightarrow> ('d, 'e) node \<Rightarrow> ('d, 'e) node result" where
  "pm_turn e port ev n \<equiv> finish pm_out route_pacemaker (\<lambda>s n. n\<lparr>nd_pacemaker := s\<rparr>)
     (nd_pacemaker n) (pacemaker_worker (env_ft e) (env_cfg e) port ev (nd_pacemaker n)) n"

text \<open>
  The sequencer first takes the certificates that wait, then one event; it has two outgoing
  channels.
\<close>

definition takes_qcs :: "features \<Rightarrow> ('d, 'e) node \<Rightarrow> bool" where
  "takes_qcs ft n \<longleftrightarrow> \<not> ft_no_qc ft \<and> qc_rx n \<noteq> []
     \<and> (ft_no_pipeline ft \<longrightarrow> sq_current_qc_list (nd_block_sequencer n) = [])"

definition sq_turn :: "'k node_env \<Rightarrow> sequencer_event \<Rightarrow> ('d, 'e) node \<Rightarrow> ('d, 'e) node result" where
  "sq_turn e ev n =
     (let s = nd_block_sequencer n
      in bindE (sequencer_worker (env_lib e) (env_ft e) (env_cfg e) (qc_rx n) ev s) (\<lambda>s'.
         Inr (n\<lparr>nd_block_sequencer := s',
                qc_rx := (if takes_qcs (env_ft e) n then [] else qc_rx n),
                client_reply_rx := client_reply_rx n @ drop (length (sq_client_reply s)) (sq_client_reply s'),
                block_broadcaster_rx := block_broadcaster_rx n
                  @ drop (length (sq_block_broadcaster s)) (sq_block_broadcaster s')\<rparr>)))"

fun node_turn ::
  "'k node_env \<Rightarrow> 'd rocks_lib \<Rightarrow> 'e engine \<Rightarrow> (bytes \<Rightarrow> payload option option) \<Rightarrow> node_event \<Rightarrow> ('d, 'e) node
     \<Rightarrow> ('d, 'e) node result option" where
  "node_turn e rl E decode (N_Rpc m sender ack_chan) n =
     Some (Inr (case handle_rpc decode m sender ack_chan n of Inl _ \<Rightarrow> n | Inr (n', _) \<Rightarrow> n'))"
| "node_turn e rl E decode (N_Bp_NewTx now) n = recv (batch_proposer_rx n) (\<lambda>x q.
     bp_turn (env_cfg e) now (BP_NewTx (Some x)) (n\<lparr>batch_proposer_rx := q\<rparr>))"
| "node_turn e rl E decode (N_Bp_Command now) n = recv (batch_proposer_command_rx n) (\<lambda>x q.
     bp_turn (env_cfg e) now (BP_Command (Some x)) (n\<lparr>batch_proposer_command_rx := q\<rparr>))"
| "node_turn e rl E decode (N_Bp_Tick now) n = Some (bp_turn (env_cfg e) now BP_Tick n)"
| "node_turn e rl E decode (N_Sq_Qcs k) n =
     (if takes_qcs (env_ft e) n \<or> qc_rx n = [] \<or> k = 0 then None
      else Some (mapE (\<lambda>n'. n'\<lparr>qc_rx := drop k (qc_rx n)\<rparr>) (sq_turn e (SQ_Qcs (take k (qc_rx n))) n)))"
| "node_turn e rl E decode N_Sq_Tick n = Some (sq_turn e SQ_SignatureTick n)"
| "node_turn e rl E decode N_Sq_Batch n = recv (block_maker_rx n) (\<lambda>x q.
     sq_turn e (SQ_Batch (Some x)) (n\<lparr>block_maker_rx := q\<rparr>))"
| "node_turn e rl E decode N_Sq_Command n = recv (control_command_rx n) (\<lambda>x q.
     sq_turn e (SQ_Command (Some x)) (n\<lparr>control_command_rx := q\<rparr>))"
| "node_turn e rl E decode N_Bb_Mine n = recv (block_broadcaster_rx n) (\<lambda>(k, b) q.
     bb_turn e rl (BB_MyBlock (Some (k, Some b))) (n\<lparr>block_broadcaster_rx := q\<rparr>))"
| "node_turn e rl E decode N_Bb_Other n = recv (other_block_rx n) (\<lambda>x q.
     bb_turn e rl (BB_OtherBlock (Some x)) (n\<lparr>other_block_rx := q\<rparr>))"
| "node_turn e rl E decode N_Bb_Control n = recv (broadcaster_control_command_rx n) (\<lambda>x q.
     bb_turn e rl (BB_Control (Some x)) (n\<lparr>broadcaster_control_command_rx := q\<rparr>))"
| "node_turn e rl E decode (N_Sg_Tick enough) n = Some (sg_turn e (SG_Tick enough) n)"
| "node_turn e rl E decode N_Sg_Block n = recv (staging_rx n) (\<lambda>x q.
     sg_turn e (SG_Block (Some x)) (n\<lparr>staging_rx := q\<rparr>))"
| "node_turn e rl E decode N_Sg_Vote n = recv (vote_rx n) (\<lambda>x q.
     sg_turn e (SG_Vote (Some x)) (n\<lparr>vote_rx := q\<rparr>))"
| "node_turn e rl E decode N_Sg_Pacemaker n = recv (pacemaker_cmd_rx n) (\<lambda>x q.
     sg_turn e (SG_Pacemaker (Some x)) (n\<lparr>pacemaker_cmd_rx := q\<rparr>))"
| "node_turn e rl E decode (N_Fr_Fork port) n =
     (if fr_waits (nd_fork_receiver n) then None
      else recv (fork_rx n) (\<lambda>x q. fr_turn e port (FR_Fork (Some x)) (n\<lparr>fork_rx := q\<rparr>)))"
| "node_turn e rl E decode (N_Fr_Command port) n = recv (fork_receiver_command_rx n) (\<lambda>x q.
     fr_turn e port (FR_Command (Some x)) (n\<lparr>fork_receiver_command_rx := q\<rparr>))"
| "node_turn e rl E decode N_Ap_Command n = recv (app_rx n) (\<lambda>x q.
     ap_turn (env_ft e) E (AP_Command (Some x)) (n\<lparr>app_rx := q\<rparr>))"
| "node_turn e rl E decode N_Ap_Unlogged n = recv (unlogged_rx n) (\<lambda>x q.
     ap_turn (env_ft e) E (AP_Unlogged (Some x)) (n\<lparr>unlogged_rx := q\<rparr>))"
| "node_turn e rl E decode N_Ap_Checkpoint n = Some (ap_turn (env_ft e) E AP_CheckpointTick n)"
| "node_turn e rl E decode N_Ap_Log n = Some (ap_turn (env_ft e) E AP_LogTick n)"
| "node_turn e rl E decode N_Cp_Batch n = recv (client_reply_rx n) (\<lambda>(h, chans) q.
     cp_turn (env_cfg e) (CP_Batch (Some (Some h, chans))) (n\<lparr>client_reply_rx := q\<rparr>))"
| "node_turn e rl E decode N_Cp_Command n = recv (client_reply_command_rx n) (\<lambda>x q.
     cp_turn (env_cfg e) (CP_Command (Some x)) (n\<lparr>client_reply_command_rx := q\<rparr>))"
| "node_turn e rl E decode N_Ls_Command n = recv (logserver_rx n) (\<lambda>x q.
     ls_turn e rl (LS_Command x) (n\<lparr>logserver_rx := q\<rparr>))"
| "node_turn e rl E decode N_Ls_Gc n = recv (gc_rx n) (\<lambda>x q.
     ls_turn e rl (LS_Gc x) (n\<lparr>gc_rx := q\<rparr>))"
| "node_turn e rl E decode N_Ls_Backfill n = recv (backfill_request_rx n) (\<lambda>x q.
     ls_turn e rl (LS_Backfill x) (n\<lparr>backfill_request_rx := q\<rparr>))"
| "node_turn e rl E decode (N_Pm_ViewChange port) n = recv (view_change_rx n) (\<lambda>x q.
     pm_turn e port (PM_ViewChange (Some x)) (n\<lparr>view_change_rx := q\<rparr>))"
| "node_turn e rl E decode (N_Pm_Command port) n = recv (pacemaker_cmd_rx2 n) (\<lambda>x q.
     pm_turn e port (PM_Command (Some x)) (n\<lparr>pacemaker_cmd_rx2 := q\<rparr>))"

text \<open>
  The states that a node reaches as long as no component fails. As in the theory on staging, a block is
  handed to staging only if it is admissible there.
\<close>

definition turn_ok :: "node_event \<Rightarrow> ('d, 'e) node \<Rightarrow> bool" where
  "turn_ok ev n \<longleftrightarrow> (ev = N_Sg_Block \<longrightarrow> staging_rx n \<noteq> [] \<longrightarrow> admissible (SG_Block (Some (hd (staging_rx n)))) (nd_staging n))"

inductive node_run ::
  "'k node_env \<Rightarrow> 'd rocks_lib \<Rightarrow> 'e engine \<Rightarrow> (bytes \<Rightarrow> payload option option) \<Rightarrow> ('d, 'e) node \<Rightarrow> ('d, 'e) node \<Rightarrow> bool"
  for e rl E decode where
  node_refl: "node_run e rl E decode n n"
| node_step: "node_run e rl E decode n n' \<Longrightarrow> turn_ok ev n' \<Longrightarrow> node_turn e rl E decode ev n' = Some (Inr n'')
    \<Longrightarrow> node_run e rl E decode n n''"

section \<open>What a turn leaves alone\<close>

lemma fold_keeps:
  assumes "\<And>x n. v (route x n) = v n"
  shows "v (fold route os n) = v n"
  using assms by (induction os arbitrary: n) simp_all

lemma finishE:
  assumes "finish out route put s r n = Inr n'"
  obtains s' where "r = Inr s'" and "n' = fold route (drop (length (out s)) (out s')) (put s' n)"
  using assms by (auto simp: finish_def elim!: bindE_InrE)

lemma recv_SomeE:
  assumes "recv ch f = Some y"
  obtains x rest where "ch = x # rest" and "f x rest = y"
  using assms by (auto simp: recv_def split: list.split_asm)

text \<open>The part of the node that the way of a commit to the application depends on.\<close>

definition commit_path :: "('d, 'e) node \<Rightarrow> staging \<times> 'd broadcaster \<times> 'e application \<times> app_command list \<times> u64 list" where
  "commit_path n = (nd_staging n, nd_block_broadcaster n, nd_app n, app_rx n, gc_rx n)"

lemma route_commit_path [simp]:
  "commit_path (route_batch_proposer x n) = commit_path n"
  "commit_path (route_fork_receiver y n) = commit_path n"
  "commit_path (route_logserver z n) = commit_path n"
  "commit_path (route_pacemaker w n) = commit_path n"
     apply (cases x; simp add: commit_path_def)
    apply (cases y; simp add: commit_path_def)
   apply (cases z; simp add: commit_path_def)
  apply (cases w; simp add: commit_path_def)
  done

lemma finish_commit_path:
  assumes "finish out route put s r n = Inr n'" and "\<And>x n. commit_path (route x n) = commit_path n"
    and "\<And>s n. commit_path (put s n) = commit_path n"
  shows "commit_path n' = commit_path n"
  using assms(1)
proof (rule finishE)
  fix s' assume "n' = fold route (drop (length (out s)) (out s')) (put s' n)"
  then show ?thesis using fold_keeps [of commit_path route] assms(2,3) by simp
qed

lemma sq_turn_commit_path: "sq_turn e ev n = Inr n' \<Longrightarrow> commit_path n' = commit_path n"
  by (auto simp: sq_turn_def Let_def commit_path_def elim!: bindE_InrE)

lemma dispatch_commit_path: "commit_path (fst (dispatch sender chan m n)) = commit_path n"
  by (cases m) (simp_all add: commit_path_def)

lemma handle_rpc_commit_path: "handle_rpc decode m sender chan n = Inr (n', r) \<Longrightarrow> commit_path n' = commit_path n"
  using dispatch_commit_path [of sender chan _ n]
  by (auto simp: handle_rpc_def split: sender_type.split_asm option.split_asm) (metis fst_conv)

text \<open>The events after which the commit path is as before, up to a collected garbage request.\<close>

fun off_path :: "node_event \<Rightarrow> bool" where
  "off_path (N_Sg_Tick _) = False" | "off_path N_Sg_Block = False" | "off_path N_Sg_Vote = False"
| "off_path N_Sg_Pacemaker = False" | "off_path N_Ap_Command = False" | "off_path N_Ap_Unlogged = False"
| "off_path N_Ap_Checkpoint = False" | "off_path N_Ap_Log = False" | "off_path N_Bb_Mine = False"
| "off_path N_Bb_Other = False" | "off_path N_Bb_Control = False" | "off_path N_Ls_Gc = False"
| "off_path _ = True"

lemma off_path_finish:
  "finish bp_out route_batch_proposer (\<lambda>s. nd_batch_proposer_update (\<lambda>_. s)) s1 r1 n = Inr n' \<Longrightarrow> commit_path n' = commit_path n"
  "finish fr_out route_fork_receiver (\<lambda>s. nd_fork_receiver_update (\<lambda>_. s)) s2 r2 n = Inr n' \<Longrightarrow> commit_path n' = commit_path n"
  "finish cp_out (\<lambda>m n. n\<lparr>reply_out := reply_out n @ [m]\<rparr>) (\<lambda>s. nd_client_reply_update (\<lambda>_. s)) s3 r3 n = Inr n' \<Longrightarrow> commit_path n' = commit_path n"
  "finish ls_out route_logserver (\<lambda>s. nd_logserver_update (\<lambda>_. s)) s4 r4 n = Inr n' \<Longrightarrow> commit_path n' = commit_path n"
  "finish pm_out route_pacemaker (\<lambda>s. nd_pacemaker_update (\<lambda>_. s)) s5 r5 n = Inr n' \<Longrightarrow> commit_path n' = commit_path n"
  by - (erule finish_commit_path; ((simp; fail) | (simp add: commit_path_def; fail)))+

lemma off_path_pop:
  "commit_path (n\<lparr>batch_proposer_rx := q1\<rparr>) = commit_path n" "commit_path (n\<lparr>batch_proposer_command_rx := q2\<rparr>) = commit_path n"
  "commit_path (n\<lparr>block_maker_rx := q3\<rparr>) = commit_path n" "commit_path (n\<lparr>control_command_rx := q4\<rparr>) = commit_path n"
  "commit_path (n\<lparr>fork_rx := q5\<rparr>) = commit_path n" "commit_path (n\<lparr>fork_receiver_command_rx := q6\<rparr>) = commit_path n"
  "commit_path (n\<lparr>client_reply_rx := q7\<rparr>) = commit_path n" "commit_path (n\<lparr>client_reply_command_rx := q8\<rparr>) = commit_path n"
  "commit_path (n\<lparr>logserver_rx := q9\<rparr>) = commit_path n" "commit_path (n\<lparr>backfill_request_rx := q10\<rparr>) = commit_path n"
  "commit_path (n\<lparr>view_change_rx := q11\<rparr>) = commit_path n" "commit_path (n\<lparr>pacemaker_cmd_rx2 := q12\<rparr>) = commit_path n"
  "commit_path (n\<lparr>qc_rx := q13\<rparr>) = commit_path n"
  by (simp_all add: commit_path_def)

lemma off_path_turn:
  assumes "node_turn e rl E decode ev n = Some (Inr n')" and "off_path ev"
  shows "commit_path n' = commit_path n"
proof (cases "\<exists>k. ev = N_Sq_Qcs k")
  case True
  then obtain k n1 where "sq_turn e (SQ_Qcs (take k (qc_rx n))) n = Inr n1" "n' = n1\<lparr>qc_rx := drop k (qc_rx n)\<rparr>"
    using assms(1) by (auto simp: mapE_Inr_conv split: if_split_asm)
  then show ?thesis by (simp add: off_path_pop sq_turn_commit_path)
next
  case False
  with assms show ?thesis
    by (cases ev) (auto simp: off_path_pop dest!: off_path_finish sq_turn_commit_path
        dest: handle_rpc_commit_path elim!: recv_SomeE split: sum.split_asm prod.split_asm if_split_asm)
qed

section \<open>Commits on their way to the application\<close>

text \<open>The broadcaster sends the application statistics, never commits.\<close>

definition bb_quiet :: "'d broadcaster \<Rightarrow> bool" where
  "bb_quiet s \<longleftrightarrow> (\<forall>c. BB_ToApp c \<in> set (bb_out s) \<longrightarrow> byz_blocks c = [])"

lemma bb_quiet_store:
  "store_and_forward_internally ft rl b st final s = Inr s' \<Longrightarrow> bb_quiet s \<Longrightarrow> bb_quiet s'"
  by (auto simp: store_and_forward_internally_def bb_quiet_def bb_emit_def Let_def split: prod.split_asm storage_reply.split_asm)

lemma bb_quiet_request: "bb_quiet s \<Longrightarrow> bb_quiet (bb_emit (BB_ToApp (new_request_batch v st mine b)) s)"
  by (auto simp: bb_quiet_def bb_emit_def new_request_batch_def)

lemma bb_quiet_broadcast: "bb_quiet s \<Longrightarrow> bb_quiet (broadcast_ae_fork ft cfg names bs v st c s)"
  by (auto simp: bb_quiet_def bb_emit_def broadcast_ae_fork_def)

lemma bb_quiet_mine:
  "forward_mine ft rl me view c k cnt bs s = Inr s' \<Longrightarrow> bb_quiet s \<Longrightarrow> bb_quiet s'"
  by (induction ft rl me view c k cnt bs s rule: forward_mine.induct) (auto elim!: bindE_InrE dest: bb_quiet_store)

lemma bb_quiet_other:
  "forward_other ft rl st k cnt bs s = Inr s' \<Longrightarrow> bb_quiet s \<Longrightarrow> bb_quiet s'"
  by (induction ft rl st k cnt bs s rule: forward_other.induct)
    (auto elim!: bindE_InrE dest: bb_quiet_store intro: bb_quiet_request)

lemma bb_quiet_evil:
  "maybe_act_evil e names bs v st c s = Inr (s', names') \<Longrightarrow> bb_quiet s \<Longrightarrow> bb_quiet s'"
  by (auto simp: maybe_act_evil_def Let_def bb_quiet_def broadcast_ae_fork_def bb_emit_def elim!: bindE_InrE split: if_split_asm)

lemma bb_quiet_my_block: "process_my_block e rl b s = Inr s' \<Longrightarrow> bb_quiet s \<Longrightarrow> bb_quiet s'"
proof -
  assume p: "process_my_block e rl b s = Inr s'" and q: "bb_quiet s"
  have q0: "bb_quiet (s\<lparr>bb_fork_prefix_buffer := []\<rparr>)" using q by (simp add: bb_quiet_def)
  show ?thesis
    using p unfolding process_my_block_def Let_def
    by (elim bindE_InrE) (auto split: if_split_asm prod.split_asm intro!: bb_quiet_broadcast
        dest!: bb_quiet_mine [OF _ q0] intro: bb_quiet_request bb_quiet_evil [OF _ bb_quiet_request])
qed

lemma bb_quiet_worker:
  assumes "broadcaster_worker e rl ev s = Inr s'" and "bb_quiet s"
  shows "bb_quiet s'"
proof -
  consider b where "ev = BB_MyBlock (Some (b, None))" | k b where "ev = BB_MyBlock (Some (k, Some b))"
    | mf where "ev = BB_OtherBlock (Some mf)" | cmd where "ev = BB_Control (Some cmd)"
    using assms(1) by (cases rule: broadcaster_worker.cases [of "(e, rl, ev, s)"]) auto
  then show ?thesis
  proof cases
    case (3 mf)
    then show ?thesis
      using assms by (auto simp: process_other_block_def Let_def bb_quiet_def bb_emit_def split: if_split_asm
          dest!: bb_quiet_other [unfolded bb_quiet_def])
  next
    case (4 cmd)
    then show ?thesis using assms by (cases cmd) (auto simp: bb_quiet_def elim!: bindE_InrE)
  qed (use assms in \<open>auto dest: bb_quiet_my_block\<close>)
qed

fun app_of :: "broadcaster_out \<Rightarrow> app_command list" where
  "app_of (BB_ToApp c) = [c]"
| "app_of _ = []"

fun gc_of :: "app_out \<Rightarrow> u64 list" where
  "gc_of (AppGc g) = [g]"
| "gc_of _ = []"

lemma app_commands_Cons: "app_commands (x # os) = (case x of ToApp c \<Rightarrow> [c] | _ \<Rightarrow> []) @ app_commands os"
  by (simp add: app_commands_def)

lemma route_staging_path:
  "commit_path (fold route_staging os n)
     = (nd_staging n, nd_block_broadcaster n, nd_app n, app_rx n @ app_commands os, gc_rx n)"
proof (induction os arbitrary: n)
  case (Cons x os)
  then show ?case by (cases x) (simp_all add: app_commands_Cons)
qed (simp add: commit_path_def app_commands_def)

lemma route_broadcaster_path:
  "commit_path (fold route_broadcaster os n)
     = (nd_staging n, nd_block_broadcaster n, nd_app n, app_rx n @ concat (map app_of os), gc_rx n)"
proof (induction os arbitrary: n)
  case (Cons x os)
  then show ?case by (cases x) simp_all
qed (simp add: commit_path_def)

lemma route_app_path:
  "commit_path (fold route_app os n)
     = (nd_staging n, nd_block_broadcaster n, nd_app n, app_rx n, gc_rx n @ concat (map gc_of os))"
proof (induction os arbitrary: n)
  case (Cons x os)
  then show ?case by (cases x) simp_all
qed (simp add: commit_path_def)

text \<open>
  The application has executed a prefix of what staging committed, the rest is in the channel,
  and what it asks the log server to forget is below its commit index.
\<close>

fun path_ok :: "'k node_env \<Rightarrow> staging \<times> 'd broadcaster \<times> 'e application \<times> app_command list \<times> u64 list \<Rightarrow> bool" where
  "path_ok e (sg, bb, ap, rx, gc) \<longleftrightarrow> staging_run e (staging_new (env_ft e)) sg \<and> bb_quiet bb
     \<and> (\<exists>exec. exec @ concat (map byz_blocks rx) = delivered sg
          \<and> ls_bci (ap_stats ap) = foldl max 0 (map cb_n exec) \<and> ls_total_byz_committed_txs (ap_stats ap) = tx_count exec)
     \<and> (\<forall>g \<in> set gc. g < ls_bci (ap_stats ap))"

lemma path_ok_staging:
  assumes "path_ok e (sg, bb, ap, rx, gc)" and "admissible ev sg" and "staging_worker e ev sg = Inr sg'"
  shows "path_ok e (sg', bb, ap, rx @ app_commands (drop (length (sg_out sg)) (sg_out sg')), gc)"
proof -
  obtain os where os: "sg_out sg' = sg_out sg @ os"
    using progress_worker [OF assms(3)] by (auto simp: progress_def)
  have "delivered sg' = delivered sg @ concat (map byz_blocks (app_commands os))"
    by (simp add: app_commands_delivered [symmetric] os app_commands_def)
  with assms os show ?thesis by (auto intro: run_step)
qed

lemma app_of_conv: "c \<in> set (app_of x) \<longleftrightarrow> x = BB_ToApp c"
  by (cases x) auto

lemma quiet_app_of:
  assumes "bb_quiet s" and "set os \<subseteq> set (bb_out s)"
  shows "concat (map byz_blocks (concat (map app_of os))) = []"
proof -
  have "byz_blocks c = []" if "c \<in> set (concat (map app_of os))" for c
    using that assms unfolding bb_quiet_def set_concat set_map by (fastforce simp: app_of_conv)
  then show ?thesis by (simp only: concat_eq_Nil_conv set_map) blast
qed

lemma path_ok_broadcaster:
  assumes "path_ok e (sg, bb, ap, rx, gc)" and "broadcaster_worker e rl ev bb = Inr bb'"
  shows "path_ok e (sg, bb', ap, rx @ concat (map app_of (drop (length (bb_out bb)) (bb_out bb'))), gc)"
proof -
  have q: "bb_quiet bb'" by (rule bb_quiet_worker [OF assms(2)]) (use assms(1) in \<open>simp only: path_ok.simps\<close>)
  note nil = quiet_app_of [OF q set_drop_subset]
  show ?thesis using assms(1) q unfolding path_ok.simps map_append concat_append nil append_Nil2 by blast
qed

fun event_byz :: "app_event \<Rightarrow> cached_block list" where
  "event_byz (AP_Command (Some c)) = byz_blocks c"
| "event_byz _ = []"

context engine_laws
begin

lemma app_worker_step:
  assumes "application_worker ft E ev a = Inr a'"
  shows "ls_bci (ap_stats a') = foldl max (ls_bci (ap_stats a)) (map cb_n (event_byz ev))
    \<and> ls_total_byz_committed_txs (ap_stats a') = ls_total_byz_committed_txs (ap_stats a) + tx_count (event_byz ev)
    \<and> (\<forall>g \<in> set (concat (map gc_of (drop (length (ap_out a)) (ap_out a')))). g < ls_bci (ap_stats a'))"
proof -
  consider c where "ev = AP_Command (Some c)" | tx r where "ev = AP_Unlogged (Some (tx, r))"
    | "ev = AP_CheckpointTick" | "ev = AP_LogTick"
    using assms by (cases rule: application_worker.cases [of "(ft, E, ev, a)"]) auto
  then show ?thesis
  proof cases
    case (1 c)
    then have h: "handle_staging_command E c a = Inr a'" using assms by simp
    then have "concat (map gc_of (drop (length (ap_out a)) (ap_out a'))) = []"
      by (cases c) (auto simp: app_new_request_batch_def app_crash_commit_def app_byz_commit_def app_rollback_def
          app_emit_def Let_def elim!: bindE_InrE split: prod.split_asm)
    with byz_step [OF h] 1 show ?thesis by simp
  next
    case (2 tx r)
    then show ?thesis
      using assms by (auto simp: app_unlogged_request_def app_emit_def tx_count_def elim!: bindE_InrE split: if_split_asm)
  qed (use assms in \<open>auto simp: app_checkpoint_def app_emit_def tx_count_def split: if_split_asm\<close>)
qed

lemma path_ok_app:
  assumes "path_ok e (sg, bb, ap, rx, gc)" and "application_worker ft E ev ap = Inr ap'"
    and "concat (map byz_blocks rx) = event_byz ev @ concat (map byz_blocks rx')"
  shows "path_ok e (sg, bb, ap', rx', gc @ concat (map gc_of (drop (length (ap_out ap)) (ap_out ap'))))"
proof -
  note step = app_worker_step [OF assms(2)]
  obtain exec where d: "exec @ concat (map byz_blocks rx) = delivered sg"
    "ls_bci (ap_stats ap) = foldl max 0 (map cb_n exec)" "ls_total_byz_committed_txs (ap_stats ap) = tx_count exec"
    using assms(1) by auto
  have "ls_bci (ap_stats ap) \<le> ls_bci (ap_stats ap')"
  proof -
    have "k \<le> foldl max k xs" for k :: nat and xs
    proof (induction xs arbitrary: k)
      case (Cons x xs)
      from Cons [of "max k x"] show ?case by simp
    qed simp
    then show ?thesis using step by simp
  qed
  then have "\<forall>g \<in> set gc. g < ls_bci (ap_stats ap')" using assms(1) by auto
  moreover have "(exec @ event_byz ev) @ concat (map byz_blocks rx') = delivered sg" using d(1) assms(3) by simp
  moreover have "ls_bci (ap_stats ap') = foldl max 0 (map cb_n (exec @ event_byz ev))" using step d(2) by simp
  moreover have "ls_total_byz_committed_txs (ap_stats ap') = tx_count (exec @ event_byz ev)" using step d(3) by simp
  ultimately show ?thesis using assms(1) step unfolding path_ok.simps set_append by blast
qed

end

declare path_ok.simps [simp del]

context engine_laws
begin

lemma path_ok_turn:
  assumes "path_ok e (commit_path n)" and "turn_ok ev n" and "node_turn e rl E decode ev n = Some (Inr n')"
  shows "path_ok e (commit_path n')"
proof (cases "off_path ev")
  case True
  with assms show ?thesis by (simp add: off_path_turn)
next
  case False
  have sg: "path_ok e (commit_path n2)" if "finish sg_out route_staging (\<lambda>s. nd_staging_update (\<lambda>_. s)) (nd_staging n)
      (staging_worker e x (nd_staging n)) n1 = Inr n2" "admissible x (nd_staging n)" "commit_path n1 = commit_path n" for x n1 n2
    using that(1)
  proof (rule finishE)
    fix s' assume s': "staging_worker e x (nd_staging n) = Inr s'"
      "n2 = fold route_staging (drop (length (sg_out (nd_staging n))) (sg_out s')) (n1\<lparr>nd_staging := s'\<rparr>)"
    show ?thesis
      unfolding s'(2) route_staging_path using s'(1) that(2,3) assms(1) by (auto simp: commit_path_def intro: path_ok_staging)
  qed
  have bb: "path_ok e (commit_path n2)" if "finish bb_out route_broadcaster (\<lambda>s. nd_block_broadcaster_update (\<lambda>_. s))
      (nd_block_broadcaster n) (broadcaster_worker e rl x (nd_block_broadcaster n)) n1 = Inr n2" "commit_path n1 = commit_path n" for x n1 n2
    using that(1)
  proof (rule finishE)
    fix s' assume s': "broadcaster_worker e rl x (nd_block_broadcaster n) = Inr s'"
      "n2 = fold route_broadcaster (drop (length (bb_out (nd_block_broadcaster n))) (bb_out s')) (n1\<lparr>nd_block_broadcaster := s'\<rparr>)"
    show ?thesis
      unfolding s'(2) route_broadcaster_path using s'(1) that(2) assms(1) by (auto simp: commit_path_def intro: path_ok_broadcaster)
  qed
  have ap: "path_ok e (commit_path n2)" if "finish ap_out route_app (\<lambda>s. nd_app_update (\<lambda>_. s)) (nd_app n)
      (application_worker (env_ft e) E x (nd_app n)) n1 = Inr n2"
      "concat (map byz_blocks (app_rx n)) = event_byz x @ concat (map byz_blocks (app_rx n1))"
      "commit_path n1 = (nd_staging n, nd_block_broadcaster n, nd_app n, app_rx n1, gc_rx n)" for x n1 n2
    using that(1)
  proof (rule finishE)
    fix s' assume s': "application_worker (env_ft e) E x (nd_app n) = Inr s'"
      "n2 = fold route_app (drop (length (ap_out (nd_app n))) (ap_out s')) (n1\<lparr>nd_app := s'\<rparr>)"
    show ?thesis
      unfolding s'(2) route_app_path using s'(1) that(2,3) assms(1) by (auto simp: commit_path_def intro: path_ok_app)
  qed
  have gc: "path_ok e (commit_path n2)" if "gc_rx n = g # q" "finish ls_out route_logserver (\<lambda>s. nd_logserver_update (\<lambda>_. s)) s r
      (n\<lparr>gc_rx := q\<rparr>) = Inr n2" for g q s r n2
    using off_path_finish(4) [OF that(2)] assms(1) that(1) by (auto simp: commit_path_def path_ok.simps)
  have pop: "commit_path (n\<lparr>staging_rx := q1\<rparr>) = commit_path n" "commit_path (n\<lparr>vote_rx := q2\<rparr>) = commit_path n"
    "commit_path (n\<lparr>pacemaker_cmd_rx := q3\<rparr>) = commit_path n" "commit_path (n\<lparr>block_broadcaster_rx := q4\<rparr>) = commit_path n"
    "commit_path (n\<lparr>other_block_rx := q5\<rparr>) = commit_path n" "commit_path (n\<lparr>broadcaster_control_command_rx := q6\<rparr>) = commit_path n"
    "commit_path (n\<lparr>unlogged_rx := q7\<rparr>) = (nd_staging n, nd_block_broadcaster n, nd_app n, app_rx n, gc_rx n)"
    "commit_path (n\<lparr>app_rx := q8\<rparr>) = (nd_staging n, nd_block_broadcaster n, nd_app n, q8, gc_rx n)"
    "commit_path n = (nd_staging n, nd_block_broadcaster n, nd_app n, app_rx n, gc_rx n)" for q1 q2 q3 q4 q5 q6 q7 q8
    by (simp_all add: commit_path_def)
  have adm: "admissible (SG_Tick b) s" "admissible (SG_Vote v) s" "admissible (SG_Pacemaker c) s" for b v c s
    by simp_all
  show ?thesis
    using assms(2,3) False
    by (cases ev) (auto simp: turn_ok_def pop(1-8) intro: pop(9) adm dest!: sg bb ap gc elim!: recv_SomeE split: prod.split_asm
        simp del: broadcaster_worker.simps application_worker.simps admissible.simps log_server_worker.simps)
qed

lemma path_ok_run:
  assumes "node_run e rl E decode n n'" and "path_ok e (commit_path n)"
  shows "path_ok e (commit_path n')"
  using assms by (induction rule: node_run.induct) (blast intro: path_ok_turn)+

lemma path_ok_new:
  assumes "node_new (env_ft e) cfg now db engine = Inr n"
  shows "path_ok e (commit_path n)"
  using assms
  by (auto simp: node_new_def path_ok.simps commit_path_def broadcaster_new_def bb_quiet_def application_new_def
      log_stats_new_def delivered_def staging_new_def tx_count_def intro: run_refl elim!: bindE_InrE)

end

section \<open>Properties\<close>

text \<open>
  C5: a node's application never runs ahead of its consensus. Take any run of a node, its nine
  components interleaved in any order, over any network messages, timers and answers of the log
  server, in which the blocks handed to staging are admissible there. At every moment the
  key-value store's byzantine commit index is at most staging's, it has counted exactly the
  transactions of the first blocks that staging committed, up to this index, all blocks that
  staging committed are numbered from 1 and form a hash chain, and the garbage collection
  requests on their way to the log server are below the index.
\<close>
theorem node_application_follows_staging:
  assumes "node_new (env_ft e) (env_cfg e) now db kvs_new = Inr n0"
    and "node_run e rl kvs_engine decode n0 n" and "\<not> ft_no_qc (env_ft e)"
  shows "\<exists>k \<le> sg_bci (nd_staging n). log_stats.ls_bci (ap_stats (nd_app n)) = k
    \<and> ls_total_byz_committed_txs (ap_stats (nd_app n)) = tx_count (take k (delivered (nd_staging n)))
    \<and> block_chain (delivered (nd_staging n)) \<and> map cb_n (delivered (nd_staging n)) = [1..<Suc (sg_bci (nd_staging n))]
    \<and> (\<forall>g \<in> set (gc_rx n). g < k)"
proof -
  let ?d = "delivered (nd_staging n)"
  have ok: "path_ok e (commit_path n)"
    using kvs.path_ok_run [OF assms(2)] kvs.path_ok_new [OF assms(1)] by blast
  then obtain exec where x: "exec @ concat (map byz_blocks (app_rx n)) = ?d"
    "log_stats.ls_bci (ap_stats (nd_app n)) = foldl max 0 (map cb_n exec)"
    "ls_total_byz_committed_txs (ap_stats (nd_app n)) = tx_count exec"
    and run: "staging_run e (staging_new (env_ft e)) (nd_staging n)"
    and gc: "\<forall>g \<in> set (gc_rx n). g < log_stats.ls_bci (ap_stats (nd_app n))"
    by (auto simp: path_ok.simps commit_path_def)
  have "staging_inv (nd_staging n)" by (rule staging_run_inv [OF run staging_inv_new assms(3)])
  note d = staging_inv_delivered [OF this]
  have t: "exec = take (length exec) ?d" using x(1) by (metis append_eq_conv_conj)
  have "length ?d = sg_bci (nd_staging n)" using arg_cong [OF d(2), of length] by simp
  then have len: "length exec \<le> sg_bci (nd_staging n)" using arg_cong [OF x(1), of length] by simp
  have "map cb_n exec = take (length exec) [1..<Suc (sg_bci (nd_staging n))]"
    using t d(2) by (metis take_map)
  also have "\<dots> = [Suc 0..<Suc (length exec)]" using len by (simp add: take_upt del: upt_Suc)
  finally have k: "log_stats.ls_bci (ap_stats (nd_app n)) = length exec" using x(2) foldl_max_upt by simp
  show ?thesis
    using len k x(3) t d gc by (intro exI [of _ "length exec"]) auto
qed

definition demo_decode :: "bytes \<Rightarrow> payload option option" where
  "demo_decode m =
     (if m = [1] then Some (Some (P_ClientRequest \<lparr>cr_tx = Some (plain_tx False), cr_origin = ''client1'', cr_sig = [], cr_client_tag = 7\<rparr>))
      else if m = [2] then Some (Some P_BackfillRequest) else None)"

theorem node_application_follows_staging_witness:
  "\<exists>n0 n. node_new (env_ft (demo_env ''node1'')) (env_cfg (demo_env ''node1'')) 0 Map.empty kvs_new = Inr n0
     \<and> node_run (demo_env ''node1'') demo_rocks kvs_engine demo_decode n0 n \<and> reply_out n \<noteq> []
     \<and> log_stats.ls_bci (ap_stats (nd_app n)) \<le> sg_bci (nd_staging n)"
proof -
  let ?e = "demo_env ''node1''"
  let ?turn = "node_turn ?e demo_rocks kvs_engine demo_decode"
  obtain n0 :: "(bytes \<rightharpoonup> bytes, kvs) node" where n0: "node_new (env_ft ?e) (env_cfg ?e) 0 Map.empty kvs_new = Inr n0"
    and bp: "nd_batch_proposer n0 = \<lparr>bp_current_raw_batch = Some [], bp_current_reply_vec = [], bp_batch_timer = timer_new,
        bp_make_new_batches = False, bp_current_leader = [], bp_last_batch_proposed = 0, bp_next_chan = 0, bp_out = []\<rparr>"
      "batch_proposer_rx n0 = []"
    by (simp add: node_new_def batch_proposer_new_def log_server_new_def read_cache_new_def
        LOGSERVER_READ_CACHE_WSS_def pirateship_def Let_def)
  obtain n1 where n1: "?turn (N_Rpc [1] (Auth ''client1'' 0) 5) n0 = Some (Inr n1)"
    "nd_batch_proposer n1 = nd_batch_proposer n0" "batch_proposer_rx n1 = [(Some (plain_tx False), (5, 7, Auth ''client1'' 0))]"
    by (simp add: handle_rpc_def demo_decode_def bp)
  obtain n2 where n2: "?turn (N_Bp_NewTx 1) n1 = Some (Inr n2)" "reply_out n2 \<noteq> []"
    by (simp add: n1 bp recv_def finish_def handle_new_tx_def filter_unlogged_request_def plain_tx_def Let_def
        bp_i_am_leader_def demo_cfg_def reply_leader_def bp_emit_def)
  have ok: "turn_ok (N_Rpc [1] (Auth ''client1'' 0) 5) n0" "turn_ok (N_Bp_NewTx 1) n1" by (simp_all add: turn_ok_def)
  have run: "node_run ?e demo_rocks kvs_engine demo_decode n0 n2"
    by (rule node_step [OF node_step [OF node_refl ok(1) n1(1)] ok(2) n2(1)])
  from node_application_follows_staging [OF n0 run] n0 run n2(2) show ?thesis
    by (auto simp: pirateship_def)
qed

section \<open>From the wire to the components\<close>

lemma dispatch_all:
  "vote_rx (fold (\<lambda>p n. fst (dispatch sender chan p n)) ps n) = vote_rx n @ [(sender, v). P_Vote v \<leftarrow> ps]"
  "view_change_rx (fold (\<lambda>p n. fst (dispatch sender chan p n)) ps n) = view_change_rx n @ [(vc, sender). P_ViewChange vc \<leftarrow> ps]"
  "fork_rx (fold (\<lambda>p n. fst (dispatch sender chan p n)) ps n)
     = fork_rx n @ [(ae, sender). P_AppendEntries ae \<leftarrow> ps, \<not> ae_is_backfill_response ae]"
  "fork_receiver_command_rx (fold (\<lambda>p n. fst (dispatch sender chan p n)) ps n)
     = fork_receiver_command_rx n @ [UseBackfillResponse ae sender. P_AppendEntries ae \<leftarrow> ps, ae_is_backfill_response ae]"
  "batch_proposer_rx (fold (\<lambda>p n. fst (dispatch sender chan p n)) ps n)
     = batch_proposer_rx n @ [(cr_tx r, (chan, cr_client_tag r, sender)). P_ClientRequest r \<leftarrow> ps]"
  "backfill_request_rx (fold (\<lambda>p n. fst (dispatch sender chan p n)) ps n) = backfill_request_rx n @ [k. P_BackfillNack k \<leftarrow> ps]"
  by (induction ps arbitrary: n; simp split: payload.split)+

lemma handle_stream_ok:
  assumes "reader_ok r" and "unread r = concat (map (\<lambda>p. frame (encode p)) ps)"
    and "\<forall>p \<in> set ps. decode (encode p) = Some (Some p) \<and> length (encode p) < 2 ^ 32"
  shows "handle_stream decode (Auth name sub) chan (length ps) buff r n
    = Inr (fold (\<lambda>p n. fst (dispatch (Auth name sub) chan p n)) ps n, Stream_Open)"
  using assms
proof (induction ps arbitrary: buff r n)
  case (Cons p ps)
  then obtain buff' r' where "get_next_frame buff r = Inr (IO_Done (length (encode p), buff', r'))"
    "take (length (encode p)) buff' = encode p" "reader_ok r'" "unread r' = concat (map (\<lambda>p. frame (encode p)) ps)"
    using get_next_frame_ok [of r "encode p" "concat (map (\<lambda>p. frame (encode p)) ps)" buff] by auto
  with Cons.IH [of r' buff'] Cons.prems(3) show ?case
    by (simp add: handle_rpc_def split: prod.split)
qed simp

text \<open>
  C11: what a peer sends reaches the right component. An authenticated peer sends any messages
  over a TLS stream, which the server reads in pieces of any size. Then every vote is in
  the channel to staging, every view change in the one to the pacemaker, every fork in
  the one to the fork receiver, a backfill response in its command channel, every
  client request at the batch proposer and every backfill request at the log server. Each is there once,
  in the order of sending, and under the name of the authenticated peer.
\<close>
theorem peer_messages_reach_components:
  assumes "tls_transmits lib sent" and "sent t = []"
    and "\<forall>p \<in> set ps. decode (encode p) = Some (Some p) \<and> length (encode p) < 2 ^ 32"
    and "send_all lib (map (\<lambda>p. whole (encode p)) ps) (write_stream_new t) = Inr (IO_Done s)"
    and "concat (map read_bytes reads) = sent (ws_tls s)" and "list_all (read_fits SERVER_BUFFER) reads"
  shows "\<exists>n'. handle_stream decode (Auth name sub) chan (length ps) buff (frame_reader_new SERVER_BUFFER reads) n = Inr (n', Stream_Open)
    \<and> vote_rx n' = vote_rx n @ [(Auth name sub, v). P_Vote v \<leftarrow> ps]
    \<and> view_change_rx n' = view_change_rx n @ [(vc, Auth name sub). P_ViewChange vc \<leftarrow> ps]
    \<and> fork_rx n' = fork_rx n @ [(ae, Auth name sub). P_AppendEntries ae \<leftarrow> ps, \<not> ae_is_backfill_response ae]
    \<and> fork_receiver_command_rx n' = fork_receiver_command_rx n
        @ [UseBackfillResponse ae (Auth name sub). P_AppendEntries ae \<leftarrow> ps, ae_is_backfill_response ae]
    \<and> batch_proposer_rx n' = batch_proposer_rx n @ [(cr_tx r, (chan, cr_client_tag r, Auth name sub)). P_ClientRequest r \<leftarrow> ps]
    \<and> backfill_request_rx n' = backfill_request_rx n @ [k. P_BackfillNack k \<leftarrow> ps]"
proof -
  have "sent (ws_tls s) = concat (map (\<lambda>p. frame (encode p)) ps)"
    using send_all_ok [OF assms(1), of "map encode ps" "write_stream_new t"] assms(2-4)
    by (auto simp: write_stream_new_def comp_def)
  then have "handle_stream decode (Auth name sub) chan (length ps) buff (frame_reader_new SERVER_BUFFER reads) n
      = Inr (fold (\<lambda>p n. fst (dispatch (Auth name sub) chan p n)) ps n, Stream_Open)"
    using assms(5,6)
    by (intro handle_stream_ok [OF _ _ assms(3)]) (simp_all add: reader_ok_def frame_reader_new_def unread_def buffered_def)
  then show ?thesis by (simp add: dispatch_all)
qed

definition demo_encode :: "payload \<Rightarrow> bytes" where
  "demo_encode p = (case p of P_BackfillRequest \<Rightarrow> [2] | _ \<Rightarrow> [1])"

definition demo_payloads :: "payload list" where
  "demo_payloads = [P_BackfillRequest,
     P_ClientRequest \<lparr>cr_tx = Some (plain_tx False), cr_origin = ''client1'', cr_sig = [], cr_client_tag = 7\<rparr>]"

theorem peer_messages_reach_components_witness:
  "\<forall>n :: (unit, unit) node. \<exists>n'. handle_stream demo_decode (Auth ''client1'' 0) 5 2 [9]
      (frame_reader_new SERVER_BUFFER [Read [0, 0, 0], Read [1, 2, 0, 0, 0, 1, 1]]) n = Inr (n', Stream_Open)
    \<and> batch_proposer_rx n' = batch_proposer_rx n @ [(Some (plain_tx False), (5, 7, Auth ''client1'' 0))]"
proof
  fix n :: "(unit, unit) node"
  have tls: "tls_transmits list_tls id" by (simp add: tls_transmits_def list_tls_def)
  have enc: "\<forall>p \<in> set demo_payloads. demo_decode (demo_encode p) = Some (Some p) \<and> length (demo_encode p) < 2 ^ 32"
    by (simp add: demo_payloads_def demo_encode_def demo_decode_def)
  obtain s where s: "send_all list_tls (map whole (map demo_encode demo_payloads)) (write_stream_new []) = Inr (IO_Done s)"
    "ws_tls s = concat (map frame (map demo_encode demo_payloads))"
    using send_all_ok [OF tls, of "map demo_encode demo_payloads" "write_stream_new []"] enc
    by (auto simp: write_stream_new_def)
  have "ws_tls s = [0, 0, 0, 1, 2, 0, 0, 0, 1, 1]"
    by (simp add: s(2) demo_payloads_def demo_encode_def frame_def to_be_numeral)
  then show "\<exists>n'. handle_stream demo_decode (Auth ''client1'' 0) 5 2 [9]
      (frame_reader_new SERVER_BUFFER [Read [0, 0, 0], Read [1, 2, 0, 0, 0, 1, 1]]) n = Inr (n', Stream_Open)
    \<and> batch_proposer_rx n' = batch_proposer_rx n @ [(Some (plain_tx False), (5, 7, Auth ''client1'' 0))]"
    using peer_messages_reach_components [OF tls _ enc, of "[]" s
        "[Read [0, 0, 0], Read [1, 2, 0, 0, 0, 1, 1]]" "''client1''" 0 5 "[9]" n] s(1)
    by (auto simp: demo_payloads_def read_bytes_def read_fits_def SERVER_BUFFER_def comp_def numeral_2_eq_2 simp del: handle_stream.simps)
qed

end
