(* ===== verification/Spec2Isabelle.thy ===== *)
theory Spec2Isabelle
  imports StagingCerts StagingLaws TwoPC Node
begin

text \<open>
  A verification development of PirateShip, a replicated state machine that gives every
  transaction first a crash fault tolerant and then a byzantine fault tolerant commit. The
  source is the Rust crate under \<open>src/src\<close>; file names below are relative to it.

  \<^bold>\<open>The program.\<close> A node runs nine components as tasks that only share channels. Client requests
  go to the batch proposer, which makes batches; the block sequencer makes a numbered, hash
  linked and sometimes signed block of a batch; the block broadcaster stores the block, sends it to
  the other nodes and hands it to staging; the fork receiver is the gate for blocks of other
  nodes, which then take the same way. Staging decides: it counts votes, makes quorum
  certificates, crash commits and byzantine commits blocks and changes views. The application
  executes committed blocks on an engine (a key-value store), the client reply handler
  answers the clients, the log server keeps the log and answers questions about it, and the
  pacemaker collects view change messages. Below them are the crypto service, the storage
  service and the RPC layer.

  \<^bold>\<open>The model.\<close> One theory per component, with the names of the source:
  \<^item> \<open>Prelude\<close>: machine types, the type \<open>result\<close> of handlers that can panic or return \<open>Err\<close>, hash
    chains, binary search, big-endian numbers, list lemmas.
  \<^item> \<open>Types\<close>: messages (\<open>proto/*.proto\<close>), configuration, features, commands of the channels.
  \<^item> \<open>Quorums\<close>: thresholds of all components and the leader of a view.
  \<^item> \<open>Serialize\<close> (\<open>utils/serialize.rs\<close>), \<open>Crypto\<close> (\<open>crypto/service.rs\<close>), \<open>Storage\<close>
    (\<open>utils/storage.rs\<close>, \<open>utils/storage_service.rs\<close>).
  \<^item> \<open>LogServer\<close> (\<open>consensus/logserver.rs\<close>) and \<open>LogPort\<close>, the view that its clients have of it.
  \<^item> \<open>BatchProposer\<close> (\<open>consensus/batch_proposal.rs\<close>, \<open>utils/timer.rs\<close>), \<open>Sequencer\<close>
    (\<open>consensus/block_sequencer.rs\<close>), \<open>Broadcaster\<close> (\<open>consensus/block_broadcaster.rs\<close>), \<open>ForkReceiver\<close>
    (\<open>consensus/fork_receiver.rs\<close>).
  \<^item> \<open>ForkChoice\<close> and \<open>Staging\<close> (\<open>consensus/staging\<close>), with the lemmas in \<open>StagingInv\<close>, \<open>StagingProps\<close>,
    \<open>StagingVotes\<close>, \<open>StagingCerts\<close> and \<open>StagingLaws\<close>.
  \<^item> \<open>Pacemaker\<close> (\<open>consensus/pacemaker.rs\<close>).
  \<^item> \<open>App\<close> (\<open>consensus/app.rs\<close>, \<open>engines/null_app.rs\<close>), \<open>Kvs\<close> (\<open>engines/kvs.rs\<close>), \<open>AppProps\<close>.
  \<^item> \<open>ClientReply\<close> (\<open>consensus/client_reply.rs\<close>).
  \<^item> \<open>Rpc\<close> (\<open>rpc/client.rs\<close>, \<open>rpc/server.rs\<close>, \<open>rpc/auth.rs\<close>): frames and handshake.
  \<^item> \<open>TwoPC\<close> (\<open>consensus/extra_2pc.rs\<close>): the optional two-phase commit of votes.
  \<^item> \<open>Replication\<close>, \<open>ClientPath\<close> and \<open>Node\<close> compose them: a block from one node to another, a request
    from client to reply, and all components of one node with their channels (\<open>consensus/mod.rs\<close>).

  The state of a component is a record with the fields of its struct. A handler is a function
  from the state to \<open>fault + state\<close>; every \<open>unwrap\<close>, \<open>assert!\<close>, slice access and \<open>Err\<close> of the source is
  a branch. The \<open>worker\<close> of a component maps one event, the arm of its \<open>select!\<close>, to a state. What
  it sends is appended to a list in the state, in the order of the code; \<open>Node\<close> moves these
  messages into the channels of the receivers. A compile-time feature is a field of the record
  \<open>features\<close>. Code outside the crate is a parameter: SHA-512, Ed25519 and the protobuf codec (\<open>crypto_lib\<close>),
  RocksDB (\<open>rocks_lib\<close>), TLS (\<open>tls_lib\<close>). What is assumed of it are the hypotheses of the theorems.

  \<^bold>\<open>Interfaces.\<close> \<open>overlap_quorums\<close> (quorums that intersect) is provided by the crash and the byzantine
  thresholds; \<open>engine_laws\<close> (one result per transaction, commits and rollbacks) by both
  engines and used by the application and the node; \<open>block_fetch\<close> (a stored block is checked against
  its hash) by the storage service and used by the log server; \<open>log_answers\<close> by the log server and
  used by the pacemaker and the fork receiver.

  \<^bold>\<open>What the theorems show.\<close> Staging: the committed blocks are a growing hash chain without gaps; a commit
  is backed by certificates; certificates have enough distinct signers, verify at every other
  node and, between nodes, agree; a view becomes stable only by a certificate and is then
  append-only; the handlers do not fail on blocks and votes. View change: staging gets the
  forks of a view once, from a quorum, as soon as a quorum has spoken, and the fork choice
  selects a best fork. Replication: what a leader broadcasts reaches staging of a follower
  unchanged, in order and after it is on disk; only verified forks of the right sender and view pass. Log
  and storage: the log server behaves as the plain list of blocks. Application: the store
  behaves as a map with exact rollback and follows staging in every interleaving of
  the components. Clients: batches keep the requests, each client gets the result of its
  own transaction, and no request is lost or answered twice. Transport: frames and handshake are
  read back as sent, and messages reach the right component. Two-phase commit: it ends, and
  then the value is on a majority. The last properties are about inputs that the code does
  not handle; further lemmas of this kind stand at the end of the theories.

  \<^bold>\<open>Loops and bounds.\<close> Loops over data are structural recursions, or \<open>function\<close>s with a measure: the search
  interval, the bytes still to write, the reads still to come. The two search loops of the log
  server may run forever on a damaged log; they are \<open>partial_function\<close>s, and it is proved that they
  return on a log that is a chain. A retry loop takes the list of the answers it will get, and
  \<open>handle_stream\<close> the number of turns; no other fuel is used. \<open>u64\<close> counters are natural numbers,
  with the wrap-around of subtraction written out; they would need \<open>2\<^sup>6\<^sup>4\<close> blocks to overflow. Counters
  of the key-value store are 64 bit words, because clients choose their values.

  \<^bold>\<open>Assumptions on runs.\<close> Staging is studied on blocks whose certificates are for earlier blocks and that do not
  repeat a number that is pending in a stable view (\<open>admissible\<close>); a lemma shows what
  happens otherwise. Channels are unbounded, and \<open>Node\<close> is the build without the feature \<open>extra_2pc\<close>.

  \<^bold>\<open>Not modelled.\<close> The pool of TCP connections, reconnects and the tasks that write to sockets in \<open>rpc\<close>; the scheduling of
  crypto workers (their answers are values); durations of timers (a timer is an event); log output
  and performance counters; parsing of configuration and key files; the file storage engine, which
  a node refuses at start; the HTTP front end, the load generator in \<open>client\<close>, the binaries, the example
  applications in \<open>contrib\<close> and the code in \<open>deprecated\<close>, which is not built.
\<close>

section \<open>Agreement between nodes\<close>

lemma sent_certificate_quorum:
  assumes "staging_run e (staging_new (env_ft e)) s" and "\<not> ft_no_qc (env_ft e)" and "\<not> ft_extra_2pc (env_ft e)"
    and "signs_ok e" and "QcTx qc \<in> set (sg_out s)" and "fst ` set (qc_sig qc) \<subseteq> set (node_list (env_cc e))"
  shows "byz_quorum (env_ft e) (env_cc e) (fst ` set (qc_sig qc))"
    and "\<forall>p \<in> fst ` set (qc_sig qc). \<exists>sg. keystore_verify (env_lib e) (env_keys e) p sg (qc_digest qc)"
proof -
  have "votes_ok e (staging_new (env_ft e))" "sg_out (staging_new (env_ft e)) = []"
    by (simp_all add: votes_ok_def staging_new_def)
  then have ok: "cert_ok e qc"
    using staging_run_certs [OF assms(1) staging_inv_new _ _ assms(2,4,3)] assms(5) by simp
  then have "card (fst ` set (qc_sig qc)) = length (qc_sig qc)"
    by (simp add: cert_ok_def distinct_card flip: set_map)
  with ok assms(6) show "byz_quorum (env_ft e) (env_cc e) (fst ` set (qc_sig qc))"
    by (auto simp: cert_ok_def byz_quorum_def threshold_quorum_def)
  from ok show "\<forall>p \<in> fst ` set (qc_sig qc). \<exists>sg. keystore_verify (env_lib e) (env_keys e) p sg (qc_digest qc)"
    by (fastforce simp: cert_ok_def sig_ok_def)
qed



text \<open>
  Staging counts the vote of everybody whose key the node knows, also of clients: three
  clients crash commit a block of a cluster of four nodes.
\<close>

definition client_vote :: "string \<Rightarrow> staging_event" where
  "client_vote name = SG_Vote (Some (Auth name 0,
     \<lparr>vote_sig_array = [], vote_fork_digest = [], vote_n = 1, vote_view = 1, vote_config_num = 1\<rparr>))"

lemma client_votes_commit:
  "\<exists>t. foldE (staging_worker (demo_env ''node1'')) (map client_vote [''client1'', ''client2'', ''client3'']) demo_s1
      = Inr t \<and> sg_ci t = 1"
proof -
  have "liveness_u demo_cc = 1" by (simp add: demo_cc_def)
  then show ?thesis
    by (simp add: client_vote_def verify_and_process_vote_def staging_defs demo_s1_def process_vote_def vote_block_def
        maybe_crash_commit_def crash_commit_threshold_def crash_commit_index_def maybe_create_qcs_def
        byzantine_commit_threshold_def byzantine_liveness_threshold_def create_qc_def List.map_filter_def u64_sub_def)
qed

end
